(* ===== verification/Prelude.thy ===== *)
theory Prelude
  imports Complex_Main "HOL-Library.Word" "HOL-Library.Multiset"
begin

text \<open>
  The vocabulary shared by the component theories: Go's fixed-width integers, run-time
  panics as values, slice indexing and the remainder operator, the string functions of the
  standard library that the program calls, and the interfaces that several components
  implement: "get or create" tables, transition systems with an invariant, those with a rank that
  bounds the cost of runs, and schedulers.
\<close>

section \<open>Machine integers, panics and errors\<close>

type_synonym int64 = "64 word"
type_synonym uint32 = "32 word"
type_synonym byte = "8 word"

text \<open>Nanoseconds: the unit of \<open>time.Duration\<close> and of Unix time stamps.\<close>

type_synonym duration = int
type_synonym timestamp = int

abbreviation second :: duration where
  "second \<equiv> 1000000000"

abbreviation minute :: duration where
  "minute \<equiv> 60 * second"

abbreviation millisecond :: duration where
  "millisecond \<equiv> 1000000"

datatype go_panic = NilDereference | IndexOutOfRange | NegativeChannelSize | TypeAssertion | PackagePanic
  | AbortHandler | InvalidStatusCode

text \<open>A Go call either returns or panics; errors that are returned are part of the value.\<close>

datatype 'a outcome = Return 'a | Panic go_panic

fun bind_outcome :: "'a outcome \<Rightarrow> ('a \<Rightarrow> 'b outcome) \<Rightarrow> 'b outcome" where
  "bind_outcome (Return x) f = f x"
| "bind_outcome (Panic p) f = Panic p"

text \<open>
  The largest and the smallest \<open>int64\<close>, read as two's complement.
\<close>

abbreviation max_int64 :: int where
  "max_int64 \<equiv> 9223372036854775807"

abbreviation min_int64 :: int where
  "min_int64 \<equiv> - 9223372036854775808"

text \<open>Go's \<open>%\<close> truncates towards zero: the result has the sign of the dividend.\<close>

definition go_rem :: "int \<Rightarrow> int \<Rightarrow> int" where
  "go_rem a n = (if a < 0 then - ((- a) mod n) else a mod n)"

text \<open>Indexing a slice: an index outside \<open>0 .. len - 1\<close> panics.\<close>

definition go_index :: "'a list \<Rightarrow> int \<Rightarrow> 'a outcome" where
  "go_index xs i =
     (if 0 \<le> i \<and> i < int (length xs) then Return (xs ! nat i) else Panic IndexOutOfRange)"

text \<open>
  An atomic load or store through a pointer; \<open>None\<close> is the nil pointer, which faults.
\<close>

definition atomic_access :: "'a option \<Rightarrow> 'a outcome" where
  "atomic_access p = (case p of None \<Rightarrow> Panic NilDereference | Some x \<Rightarrow> Return x)"

section \<open>Strings\<close>

text \<open>\<open>strings.TrimPrefix\<close> and \<open>strings.TrimSuffix\<close>.\<close>

fun strip_prefix :: "'a list \<Rightarrow> 'a list \<Rightarrow> 'a list option" where
  "strip_prefix [] s = Some s"
| "strip_prefix (p # ps) [] = None"
| "strip_prefix (p # ps) (c # s) = (if p = c then strip_prefix ps s else None)"

definition TrimPrefix :: "string \<Rightarrow> string \<Rightarrow> string" where
  "TrimPrefix s p = (case strip_prefix p s of None \<Rightarrow> s | Some r \<Rightarrow> r)"

definition TrimSuffix :: "string \<Rightarrow> string \<Rightarrow> string" where
  "TrimSuffix s p = (case strip_prefix (rev p) (rev s) of None \<Rightarrow> s | Some r \<Rightarrow> rev r)"

text \<open>\<open>strings.Trim(s, cutset)\<close> for a cutset of one byte.\<close>

definition Trim :: "string \<Rightarrow> char \<Rightarrow> string" where
  "Trim s c = rev (dropWhile (\<lambda>x. x = c) (rev (dropWhile (\<lambda>x. x = c) s)))"

text \<open>\<open>strings.Split(s, sep)\<close> for a separator of one byte: always at least one part.\<close>

fun Split :: "string \<Rightarrow> char \<Rightarrow> string list" where
  "Split [] sep = [[]]"
| "Split (c # s) sep =
     (if c = sep then [] # Split s sep
      else (case Split s sep of [] \<Rightarrow> [[c]] | w # ws \<Rightarrow> (c # w) # ws))"

text \<open>\<open>strings.Contains\<close>.\<close>

fun Contains :: "string \<Rightarrow> string \<Rightarrow> bool" where
  "Contains [] sub = (sub = [])"
| "Contains (c # s) sub = (strip_prefix sub (c # s) \<noteq> None \<or> Contains s sub)"

text \<open>The decimal digits of a count, as \<open>fmt\<close>'s verb \<open>%d\<close> prints them.\<close>

fun show_nat :: "nat \<Rightarrow> string" where
  "show_nat n =
     (if n < 10 then [char_of (48 + n)] else show_nat (n div 10) @ [char_of (48 + n mod 10)])"

declare show_nat.simps [simp del]

section \<open>Shared lemmas\<close>

named_theorems go_defs \<open>definitions of the Go run-time model that proofs unfold\<close>

declare go_rem_def [go_defs] go_index_def [go_defs] atomic_access_def [go_defs]

lemma go_rem_nonneg: "0 \<le> a \<Longrightarrow> go_rem a n = a mod n"
  by (simp add: go_rem_def)

lemma go_index_in: "0 \<le> i \<Longrightarrow> i < int (length xs) \<Longrightarrow> go_index xs i = Return (xs ! nat i)"
  by (simp add: go_index_def)

lemma go_index_rem:
  assumes "0 \<le> a" and "xs \<noteq> []"
  shows "go_index xs (go_rem a (int (length xs))) = Return (xs ! (nat a mod length xs))"
proof -
  have "0 < int (length xs)" using assms(2) by simp
  then have "a mod int (length xs) < int (length xs)" and "0 \<le> a mod int (length xs)"
    by (auto intro: pos_mod_bound pos_mod_sign)
  moreover have "nat (a mod int (length xs)) = nat a mod length xs"
    using assms(1) by (simp add: nat_mod_distrib)
  ultimately show ?thesis using assms(1)
    by (simp add: go_rem_nonneg go_index_in)
qed

lemma go_index_rem_Panic:
  assumes "xs \<noteq> []"
  shows "go_index xs (go_rem a (int (length xs))) = Panic p \<longleftrightarrow>
    a < 0 \<and> \<not> int (length xs) dvd a \<and> p = IndexOutOfRange"
proof (cases "0 \<le> a")
  case True
  then show ?thesis using assms by (simp add: go_index_rem)
next
  case False
  define m where "m = (- a) mod int (length xs)"
  have "0 \<le> m" and "m < int (length xs)" using assms by (simp_all add: m_def)
  moreover have "m = 0 \<longleftrightarrow> int (length xs) dvd a"
    unfolding m_def by (simp add: mod_eq_0_iff_dvd)
  ultimately show ?thesis using False
    by (auto simp: go_index_def go_rem_def simp flip: m_def)
qed

lemma bind_Panic_iff:
  "(\<And>x. f x \<noteq> Panic p) \<Longrightarrow> bind_outcome m f = Panic p \<longleftrightarrow> m = Panic p"
  by (cases m) auto

lemma go_index_Return_mem: "go_index xs i = Return x \<Longrightarrow> x \<in> set xs"
  by (auto simp: go_index_def split: if_splits)

lemma bind_outcome_Return: "bind_outcome m f = Return y \<longleftrightarrow> (\<exists>x. m = Return x \<and> f x = Return y)"
  by (cases m) auto

lemma strip_prefix_Some: "strip_prefix p s = Some r \<longleftrightarrow> s = p @ r"
  by (induction p s rule: strip_prefix.induct) auto

lemma strip_prefix_take: "strip_prefix p s \<noteq> None \<longleftrightarrow> take (length p) s = p"
  by (induction p s rule: strip_prefix.induct) auto

lemma strip_prefix_append [simp]: "strip_prefix p (p @ r) = Some r"
  by (simp add: strip_prefix_Some)

lemma TrimPrefix_drop: "take (length p) s = p \<Longrightarrow> TrimPrefix s p = drop (length p) s"
  unfolding TrimPrefix_def using strip_prefix_take [of p s] by (auto simp: strip_prefix_Some)

lemma TrimPrefix_append [simp]: "TrimPrefix (p @ s) p = s"
  by (simp add: TrimPrefix_def)

lemma TrimSuffix_append [simp]: "TrimSuffix (s @ p) p = s"
  by (simp add: TrimSuffix_def)

lemma Split_neq_Nil [simp]: "Split s sep \<noteq> []"
  by (induction s sep rule: Split.induct) (auto split: list.splits)

text \<open>A step that adds one to a signed counter below the maximum does not wrap.\<close>

lemma sint_add_one:
  fixes x :: int64
  assumes "sint x < max_int64"
  shows "sint (x + 1) = sint x + 1"
proof -
  have "- (2 ^ 63) \<le> sint x" using sint_greater_eq [of x] by simp
  with assms show ?thesis
    by (simp add: sint_word_ariths signed_take_bit_int_eq_self)
qed

section \<open>Interfaces shared by several components\<close>

text \<open>
  The "get or create" discipline of \<open>Registry.Get\<close>, \<open>StateMachine.state\<close> and
  \<open>RateLimiter.bucket\<close>: a hit returns the stored entry and changes nothing; a miss
  stores a fresh entry under exactly the requested key and returns it.
\<close>

locale get_or_create =
  fixes get :: "'m \<Rightarrow> 'k \<Rightarrow> 'v \<times> 'm"
    and entry :: "'m \<Rightarrow> 'k \<Rightarrow> 'v option"
    and fresh :: "'m \<Rightarrow> 'v"
    and ok :: "'m \<Rightarrow> bool"
  assumes get_hit: "entry m k = Some v \<Longrightarrow> get m k = (v, m)"
    and get_miss: "ok m \<Longrightarrow> entry m k = None \<Longrightarrow> fst (get m k) = fresh m"
    and get_miss_entry:
      "ok m \<Longrightarrow> entry m k = None \<Longrightarrow> entry (snd (get m k)) = (entry m)(k \<mapsto> fresh m)"
    and get_ok: "ok m \<Longrightarrow> ok (snd (get m k))"
begin

lemma entry_after_get: "ok m \<Longrightarrow> entry (snd (get m k)) k = Some (fst (get m k))"
  by (cases "entry m k") (simp_all add: get_hit get_miss get_miss_entry)

lemma get_idempotent: "ok m \<Longrightarrow> get (snd (get m k)) k = (fst (get m k), snd (get m k))"
  by (rule get_hit) (rule entry_after_get)

lemma get_frame: "ok m \<Longrightarrow> k' \<noteq> k \<Longrightarrow> entry (snd (get m k)) k' = entry m k'"
  by (cases "entry m k") (simp_all add: get_hit get_miss_entry)

lemma get_keeps: "ok m \<Longrightarrow> entry m k' = Some v \<Longrightarrow> entry (snd (get m k)) k' = Some v"
  by (cases "entry m k") (auto simp: get_hit get_miss_entry)

text \<open>Whatever other keys are requested in between, a key keeps the entry it was given.\<close>

lemma get_stable:
  "ok m \<Longrightarrow> entry m k = Some v \<Longrightarrow> fst (get (foldl (\<lambda>m k'. snd (get m k')) m ks) k) = v"
proof (induction ks arbitrary: m)
  case Nil
  then show ?case by (simp add: get_hit)
next
  case (Cons k' ks)
  then show ?case by (simp add: get_ok get_keeps)
qed

end

text \<open>
  A transition system with labelled steps: an invariant that holds initially and is kept by
  every step holds in every reachable state, and along every run.
\<close>

inductive run :: "('s \<Rightarrow> 'l \<Rightarrow> 's \<Rightarrow> bool) \<Rightarrow> 's \<Rightarrow> 'l list \<Rightarrow> 's \<Rightarrow> bool" for moves where
  run_Nil: "run moves s [] s"
| run_snoc: "run moves s ls t \<Longrightarrow> moves t l u \<Longrightarrow> run moves s (ls @ [l]) u"

lemma run_Cons: "run moves t ls u \<Longrightarrow> moves s l t \<Longrightarrow> run moves s (l # ls) u"
proof (induction rule: run.induct)
  case (run_Nil t)
  then show ?case using run.run_snoc [OF run.run_Nil] by fastforce
next
  case (run_snoc t ls u l' v)
  then show ?case using run.run_snoc by fastforce
qed

lemma run_trans: "run moves t ls' u \<Longrightarrow> run moves s ls t \<Longrightarrow> run moves s (ls @ ls') u"
proof (induction rule: run.induct)
  case (run_snoc t ls' u l v)
  then show ?case using run.run_snoc [of moves s "ls @ ls'" u l v] by simp
qed simp

inductive_simps run_Nil_iff [simp]: "run moves s [] t"

lemma run_single: "moves s l t \<Longrightarrow> run moves s [l] t"
  using run.run_snoc [OF run.run_Nil] by fastforce

lemma run_map:
  assumes "run moves s ls t" and "\<And>s l t. moves s l t \<Longrightarrow> moves' (f s) (g l) (f t)"
  shows "run moves' (f s) (map g ls) (f t)"
  using assms(1) by (induction rule: run.induct) (auto intro: run.intros assms(2))

locale transition_system =
  fixes start :: "'s \<Rightarrow> bool"
    and moves :: "'s \<Rightarrow> 'l \<Rightarrow> 's \<Rightarrow> bool"
    and invar :: "'s \<Rightarrow> bool"
  assumes start_invar: "start s \<Longrightarrow> invar s"
    and trans_invar: "invar s \<Longrightarrow> moves s l t \<Longrightarrow> invar t"
begin

lemma run_invar: "run moves s ls t \<Longrightarrow> invar s \<Longrightarrow> invar t"
  by (induction rule: run.induct) (auto intro: trans_invar)

lemma reachable_invar: "start s \<Longrightarrow> run moves s ls t \<Longrightarrow> invar t"
  by (blast intro: run_invar start_invar)

text \<open>A property of the labels of a run, from a step-wise property of invariant states.\<close>

lemma run_labels:
  assumes "run moves s ls t" and "invar s" and "\<And>s l t. invar s \<Longrightarrow> moves s l t \<Longrightarrow> Q l"
  shows "\<forall>l\<in>set ls. Q l"
  using assms(1,2) by (induction rule: run.induct) (auto dest: run_invar intro: assms(3))

end

text \<open>When every step is paid for by a rank, the costs of a run are at most the rank of the state it starts in.\<close>

locale terminating_system = transition_system +
  fixes rank :: "'a \<Rightarrow> nat" and cost :: "'b \<Rightarrow> nat"
  assumes rank_decreases: "invar s \<Longrightarrow> moves s l t \<Longrightarrow> rank t + cost l \<le> rank s"
begin

lemma run_bounded: "run moves s ls t \<Longrightarrow> invar s \<Longrightarrow> sum_list (map cost ls) + rank t \<le> rank s"
proof (induction rule: run.induct)
  case (run_snoc s ls t l u)
  then have "rank u + cost l \<le> rank t" using rank_decreases run_invar by blast
  with run_snoc show ?case by simp
qed simp

end

text \<open>
  Executing a schedule: \<open>pick s c\<close> is the step that the choice \<open>c\<close> makes in \<open>s\<close>, if it can be made.
\<close>

fun exec :: "('s \<Rightarrow> 'c \<Rightarrow> ('l \<times> 's) option) \<Rightarrow> 's \<Rightarrow> 'c list \<Rightarrow> ('l list \<times> 's) option" where
  "exec pick s [] = Some ([], s)"
| "exec pick s (c # cs) =
     (case pick s c of
        None \<Rightarrow> None
      | Some (l, s') \<Rightarrow> (case exec pick s' cs of None \<Rightarrow> None | Some (ls, s'') \<Rightarrow> Some (l # ls, s'')))"

lemma exec_append:
  "exec pick s xs = Some (ls, s') \<Longrightarrow> exec pick s' ys = Some (ls', s'') \<Longrightarrow> exec pick s (xs @ ys) = Some (ls @ ls', s'')"
  by (induction xs arbitrary: s ls) (auto split: option.splits)

locale scheduler =
  fixes moves :: "'s \<Rightarrow> 'l \<Rightarrow> 's \<Rightarrow> bool"
    and pick :: "'s \<Rightarrow> 'c \<Rightarrow> ('l \<times> 's) option"
  assumes pick_moves: "pick s c = Some (l, t) \<Longrightarrow> moves s l t"
begin

lemma exec_run: "exec pick s cs = Some (ls, t) \<Longrightarrow> run moves s ls t"
proof (induction cs arbitrary: s ls)
  case (Cons c cs)
  then obtain l s' ls' where "pick s c = Some (l, s')" "exec pick s' cs = Some (ls', t)" "ls = l # ls'"
    by (auto split: option.splits)
  then show ?case using Cons.IH run_Cons pick_moves by metis
qed simp

end

end
