(* ===== verification/CircuitBreaker.thy ===== *)
theory CircuitBreaker
  imports Prelude
begin

text \<open>
  \<open>internal/circuitbreaker\<close>: the breaker's state machine (\<open>breaker.go\<close>) and the
  registry of one breaker per backend (\<open>registry.go\<close>), with every method run to
  completion. The interleaved executions are the subject of \<open>BreakerConcurrency\<close>.
\<close>

section \<open>The breaker\<close>

datatype cb_error = ErrCircuitOpen

text \<open>
  The \<open>int32\<close> field \<open>state\<close> only ever holds the three declared constants, so the default
  branches of \<open>String\<close> and \<open>Allow\<close> have no counterpart.
\<close>

datatype State = StateClosed | StateOpen | StateHalfOpen

fun State_String :: "State \<Rightarrow> string" where
  "State_String StateClosed = ''closed''"
| "State_String StateOpen = ''open''"
| "State_String StateHalfOpen = ''half-open''"

text \<open>Statements about all states are decided by evaluation: the names tell the states apart.\<close>

instantiation State :: enum
begin

definition enum_State :: "State list" where
  "enum_State = [StateClosed, StateOpen, StateHalfOpen]"

definition enum_all_State :: "(State \<Rightarrow> bool) \<Rightarrow> bool" where
  "enum_all_State P \<longleftrightarrow> P StateClosed \<and> P StateOpen \<and> P StateHalfOpen"

definition enum_ex_State :: "(State \<Rightarrow> bool) \<Rightarrow> bool" where
  "enum_ex_State P \<longleftrightarrow> P StateClosed \<or> P StateOpen \<or> P StateHalfOpen"

instance
proof
  show univ: "UNIV = set (enum_class.enum :: State list)"
    unfolding enum_State_def using State.exhaust by auto
  show "distinct (enum_class.enum :: State list)" by (simp add: enum_State_def)
  show "enum_class.enum_all P \<longleftrightarrow> Ball UNIV P" "enum_class.enum_ex P \<longleftrightarrow> Bex UNIV P" for P :: "State \<Rightarrow> bool"
    unfolding enum_all_State_def enum_ex_State_def univ enum_State_def by auto
qed

end

lemma State_String_inj: "\<forall>s t. State_String s = State_String t \<longrightarrow> s = t"
  by code_simp

record cb_config =
  FailureThreshold :: int
  OpenDuration :: duration
  HalfOpenProbes :: int

definition cb_DefaultConfig :: cb_config where
  "cb_DefaultConfig = \<lparr>FailureThreshold = 5, OpenDuration = 30 * second, HalfOpenProbes = 1\<rparr>"

text \<open>
  \<open>br_probe\<close> is the number of permits in the buffered channel \<open>probe\<close>, whose capacity is
  \<open>HalfOpenProbes\<close>.
\<close>

record breaker =
  br_cfg :: cb_config
  br_state :: State
  br_failures :: int64
  br_openedAt :: timestamp
  br_probe :: nat

text \<open>Making a channel of negative size panics.\<close>

definition Breaker_New :: "cb_config \<Rightarrow> breaker outcome" where
  "Breaker_New cfg =
     (if HalfOpenProbes cfg < 0 then Panic NegativeChannelSize
      else Return \<lparr>br_cfg = cfg, br_state = StateClosed, br_failures = 0, br_openedAt = 0,
                   br_probe = 0\<rparr>)"

text \<open>\<open>for len(b.probe) > 0 { <-b.probe }\<close>\<close>

fun drain_probe :: "nat \<Rightarrow> nat" where
  "drain_probe 0 = 0"
| "drain_probe (Suc n) = drain_probe n"

text \<open>
  Sending \<open>n\<close> permits into the channel; a send on a full channel blocks, which is
  \<open>None\<close>.
\<close>

fun fill_probe :: "nat \<Rightarrow> nat \<Rightarrow> nat \<Rightarrow> nat option" where
  "fill_probe capacity 0 len = Some len"
| "fill_probe capacity (Suc n) len = (if len < capacity then fill_probe capacity n (Suc len) else None)"

text \<open>The \<open>select\<close> on the probe channel with a default branch.\<close>

definition take_permit :: "breaker \<Rightarrow> cb_error option \<times> breaker" where
  "take_permit b =
     (if 0 < br_probe b then (None, b\<lparr>br_probe := br_probe b - 1\<rparr>) else (Some ErrCircuitOpen, b))"

text \<open>
  \<open>Allow\<close> at time \<open>now\<close>: the returned error (\<open>None\<close> is nil) and the new state, or
  \<open>None\<close> when the call blocks for ever.
\<close>

definition Breaker_Allow :: "timestamp \<Rightarrow> breaker \<Rightarrow> (cb_error option \<times> breaker) option" where
  "Breaker_Allow now b =
     (case br_state b of
        StateClosed \<Rightarrow> Some (None, b)
      | StateOpen \<Rightarrow>
          (if now - br_openedAt b \<ge> OpenDuration (br_cfg b) then
             (let b1 = b\<lparr>br_state := StateHalfOpen, br_probe := drain_probe (br_probe b)\<rparr>;
                  n = nat (HalfOpenProbes (br_cfg b))
              in map_option (\<lambda>len. take_permit (b1\<lparr>br_probe := len\<rparr>)) (fill_probe n n (br_probe b1)))
           else Some (Some ErrCircuitOpen, b))
      | StateHalfOpen \<Rightarrow> Some (take_permit b))"

definition RecordSuccess :: "breaker \<Rightarrow> breaker" where
  "RecordSuccess b =
     (let b = b\<lparr>br_failures := 0\<rparr>
      in if br_state b = StateHalfOpen then b\<lparr>br_state := StateClosed\<rparr> else b)"

definition RecordFailure :: "timestamp \<Rightarrow> breaker \<Rightarrow> breaker" where
  "RecordFailure now b =
     (let n = br_failures b + 1;
          b = b\<lparr>br_failures := n\<rparr>
      in if sint n \<ge> FailureThreshold (br_cfg b) \<or> br_state b = StateHalfOpen then
           (if br_state b \<noteq> StateOpen
            then b\<lparr>br_openedAt := now, br_state := StateOpen, br_failures := 0\<rparr>
            else b)
         else b)"

definition Breaker_State :: "breaker \<Rightarrow> State" where
  "Breaker_State b = br_state b"

section \<open>The registry\<close>

text \<open>
  Breakers are handed out by pointer: \<open>rg_heap\<close> holds the allocated breakers and the map
  the position of each backend's breaker.
\<close>

record registry =
  rg_cfg :: cb_config
  rg_breakers :: "string \<rightharpoonup> nat"
  rg_heap :: "breaker list"

definition NewRegistry :: "cb_config \<Rightarrow> registry" where
  "NewRegistry cfg = \<lparr>rg_cfg = cfg, rg_breakers = Map.empty, rg_heap = []\<rparr>"

definition Registry_Get :: "registry \<Rightarrow> string \<Rightarrow> (nat \<times> registry) outcome" where
  "Registry_Get rg backendID =
     (case rg_breakers rg backendID of
        Some b \<Rightarrow> Return (b, rg)
      | None \<Rightarrow>
          bind_outcome (Breaker_New (rg_cfg rg)) (\<lambda>b.
            Return (length (rg_heap rg),
                    rg\<lparr>rg_breakers := (rg_breakers rg)(backendID \<mapsto> length (rg_heap rg)),
                       rg_heap := rg_heap rg @ [b]\<rparr>)))"

definition Registry_States :: "registry \<Rightarrow> (string \<rightharpoonup> string)" where
  "Registry_States rg = (\<lambda>i. map_option (\<lambda>b. State_String (Breaker_State (rg_heap rg ! b))) (rg_breakers rg i))"

section \<open>Events and the specification\<close>

datatype cb_event = Allow timestamp | Success | Failure timestamp

text \<open>One method call; the output is the decision of an \<open>Allow\<close>: \<open>Some True\<close> admits.\<close>

fun cb_step :: "breaker \<Rightarrow> cb_event \<Rightarrow> (bool option \<times> breaker) option" where
  "cb_step b (Allow now) = map_option (\<lambda>(err, b'). (Some (err = None), b')) (Breaker_Allow now b)"
| "cb_step b Success = Some (None, RecordSuccess b)"
| "cb_step b (Failure now) = Some (None, RecordFailure now b)"

fun cb_run :: "breaker \<Rightarrow> cb_event list \<Rightarrow> (bool option list \<times> breaker) option" where
  "cb_run b [] = Some ([], b)"
| "cb_run b (e # es) =
     (case cb_step b e of
        None \<Rightarrow> None
      | Some (out, b') \<Rightarrow> map_option (\<lambda>(outs, b''). (out # outs, b'')) (cb_run b' es))"

text \<open>
  The abstract breaker: closed with the number of consecutive failures, open since a time,
  or half-open with the number of probes it may still admit.
\<close>

datatype fsm = Closed int | Open timestamp | HalfOpen nat

fun fsm_step :: "cb_config \<Rightarrow> fsm \<Rightarrow> cb_event \<Rightarrow> bool option \<times> fsm" where
  "fsm_step c (Closed n) (Allow now) = (Some True, Closed n)"
| "fsm_step c (Closed n) Success = (None, Closed 0)"
| "fsm_step c (Closed n) (Failure now) =
     (None, if n + 1 \<ge> FailureThreshold c then Open now else Closed (n + 1))"
| "fsm_step c (Open t) (Allow now) =
     (if now - t < OpenDuration c then (Some False, Open t)
      else if HalfOpenProbes c = 0 then (Some False, HalfOpen 0)
      else (Some True, HalfOpen (nat (HalfOpenProbes c) - 1)))"
| "fsm_step c (Open t) e = (None, Open t)"
| "fsm_step c (HalfOpen p) (Allow now) = (if p = 0 then (Some False, HalfOpen 0) else (Some True, HalfOpen (p - 1)))"
| "fsm_step c (HalfOpen p) Success = (None, Closed 0)"
| "fsm_step c (HalfOpen p) (Failure now) = (None, Open now)"

fun fsm_run :: "cb_config \<Rightarrow> fsm \<Rightarrow> cb_event list \<Rightarrow> bool option list \<times> fsm" where
  "fsm_run c s [] = ([], s)"
| "fsm_run c s (e # es) =
     (let (out, s') = fsm_step c s e; (outs, s'') = fsm_run c s' es in (out # outs, s''))"

definition fsm_of :: "breaker \<Rightarrow> fsm" where
  "fsm_of b = (case br_state b of
       StateClosed \<Rightarrow> Closed (sint (br_failures b))
     | StateOpen \<Rightarrow> Open (br_openedAt b)
     | StateHalfOpen \<Rightarrow> HalfOpen (br_probe b))"

definition cb_inv :: "breaker \<Rightarrow> bool" where
  "cb_inv b \<longleftrightarrow> 0 \<le> HalfOpenProbes (br_cfg b) \<and> FailureThreshold (br_cfg b) \<le> max_int64 \<and>
     br_probe b \<le> nat (HalfOpenProbes (br_cfg b)) \<and>
     (br_state b = StateClosed \<longrightarrow> 0 \<le> sint (br_failures b) \<and>
        (br_failures b = 0 \<or> sint (br_failures b) < FailureThreshold (br_cfg b)))"

section \<open>Lemmas\<close>

named_theorems breaker_defs \<open>definitions of the breaker's methods\<close>

declare take_permit_def [breaker_defs] Breaker_Allow_def [breaker_defs]
  RecordSuccess_def [breaker_defs] RecordFailure_def [breaker_defs]

lemma drain_probe_0 [simp]: "drain_probe n = 0"
  by (induction n) simp_all

lemma fill_probe_fits: "n + len \<le> capacity \<Longrightarrow> fill_probe capacity n len = Some (n + len)"
  by (induction n arbitrary: len) simp_all

lemma fill_probe_all [simp]: "fill_probe n n 0 = Some n"
  using fill_probe_fits [of n 0 n] by simp

lemma cb_inv_failures: "cb_inv b \<Longrightarrow> br_state b = StateClosed \<Longrightarrow> sint (br_failures b + 1) = sint (br_failures b) + 1"
  by (rule sint_add_one) (auto simp: cb_inv_def)

text \<open>Every call returns, keeps the invariant and the configuration, and is a step of the FSM.\<close>

lemma cb_step_cases:
  assumes "cb_inv b"
  shows "case cb_step b e of
      None \<Rightarrow> False
    | Some (out, b') \<Rightarrow> cb_inv b' \<and> br_cfg b' = br_cfg b \<and>
        fsm_step (br_cfg b) (fsm_of b) e = (out, fsm_of b')"
proof (cases e)
  case (Allow now)
  then show ?thesis
    using assms by (cases "br_state b") (auto simp: breaker_defs cb_inv_def fsm_of_def Let_def)
next
  case Success
  then show ?thesis
    using assms by (cases "br_state b") (auto simp: breaker_defs cb_inv_def fsm_of_def)
next
  case (Failure now)
  then show ?thesis
    using assms cb_inv_failures [OF assms]
    by (cases "br_state b") (auto simp: breaker_defs cb_inv_def fsm_of_def Let_def)
qed

lemma cb_step_simulates:
  assumes "cb_inv b"
  obtains out b' where "cb_step b e = Some (out, b')" and "cb_inv b'" and "br_cfg b' = br_cfg b"
    and "fsm_step (br_cfg b) (fsm_of b) e = (out, fsm_of b')"
  using cb_step_cases [OF assms, of e] by (auto split: option.splits)

lemma cb_run_simulates:
  "cb_inv b \<Longrightarrow> \<exists>b'. cb_run b es = Some (fst (fsm_run (br_cfg b) (fsm_of b) es), b') \<and>
     cb_inv b' \<and> br_cfg b' = br_cfg b \<and> fsm_of b' = snd (fsm_run (br_cfg b) (fsm_of b) es)"
proof (induction es arbitrary: b)
  case Nil
  then show ?case by simp
next
  case (Cons e es)
  from Cons.prems obtain out b1 where 1: "cb_step b e = Some (out, b1)" "cb_inv b1"
    "br_cfg b1 = br_cfg b" "fsm_step (br_cfg b) (fsm_of b) e = (out, fsm_of b1)"
    by (rule cb_step_simulates)
  from Cons.IH [OF 1(2)] 1 show ?case
    by (auto simp: Let_def split: prod.splits)
qed

lemma Breaker_New_Return:
  assumes "Breaker_New cfg = Return b" and "FailureThreshold cfg \<le> max_int64"
  shows "cb_inv b" and "br_cfg b = cfg" and "fsm_of b = Closed 0"
  using assms by (auto simp: Breaker_New_def cb_inv_def fsm_of_def split: if_splits)

lemma fsm_run_failures:
  assumes "ts \<noteq> []" and "n + int (length ts) \<le> FailureThreshold c"
  shows "snd (fsm_run c (Closed n) (map Failure ts)) =
    (if n + int (length ts) < FailureThreshold c then Closed (n + int (length ts)) else Open (last ts))"
  using assms
proof (induction ts arbitrary: n)
  case (Cons t ts)
  show ?case
  proof (cases "ts = []")
    case False
    then have "1 \<le> length ts" by (simp add: Suc_le_eq)
    with Cons.prems have "\<not> n + 1 \<ge> FailureThreshold c" by simp
    with Cons.IH [of "n + 1"] Cons.prems False show ?thesis by (auto simp: Let_def split: prod.splits)
  qed (use Cons.prems in simp)
qed simp

text \<open>The answers of an open breaker before its time is up: every \<open>Allow\<close> is refused.\<close>

fun shed :: "cb_event \<Rightarrow> bool option" where
  "shed (Allow t) = Some False"
| "shed e = None"

lemma fsm_run_open:
  "(\<And>now. Allow now \<in> set es \<Longrightarrow> now < t + OpenDuration c) \<Longrightarrow>
   fsm_run c (Open t) es = (map shed es, Open t)"
proof (induction es)
  case (Cons e es)
  have "fsm_step c (Open t) e = (shed e, Open t)"
    using Cons.prems [of "case e of Allow now \<Rightarrow> now"] by (cases e) auto
  with Cons show ?case by simp
qed simp

lemma fsm_run_halfopen:
  "fsm_run c (HalfOpen p) (map Allow ts) =
    (map (\<lambda>i. Some (i < p)) [0..<length ts], HalfOpen (p - length ts))"
proof (induction ts arbitrary: p)
  case (Cons t ts)
  have *: "map (\<lambda>i. Some (i < p)) [0..<length (t # ts)] =
      Some (0 < p) # map (\<lambda>i. Some (i < p - 1)) [0..<length ts]"
    by (simp add: map_upt_Suc less_diff_conv del: upt_Suc)
  show ?case unfolding * using Cons.IH [of "p - 1"] by (auto simp: Let_def)
qed simp

lemma fsm_of_iff [simp]:
  "fsm_of b = Open t \<longleftrightarrow> br_state b = StateOpen \<and> br_openedAt b = t"
  "fsm_of b = HalfOpen p \<longleftrightarrow> br_state b = StateHalfOpen \<and> br_probe b = p"
  "fsm_of b = Closed n \<longleftrightarrow> br_state b = StateClosed \<and> sint (br_failures b) = n"
  by (auto simp: fsm_of_def split: State.splits)

lemma Allow_no_permit:
  "br_state b = StateHalfOpen \<Longrightarrow> br_probe b = 0 \<Longrightarrow>
   cb_run b (map Allow ts) = Some (replicate (length ts) (Some False), b)"
  by (induction ts) (simp_all add: breaker_defs)

section \<open>Lemmas on the registry\<close>

definition rg_inv :: "registry \<Rightarrow> bool" where
  "rg_inv rg \<longleftrightarrow> 0 \<le> HalfOpenProbes (rg_cfg rg) \<and> ran (rg_breakers rg) \<subseteq> {..<length (rg_heap rg)} \<and>
     inj_on (rg_breakers rg) (dom (rg_breakers rg))"

text \<open>\<open>Get\<close> on a registry whose configuration can make a breaker.\<close>

definition registry_get :: "registry \<Rightarrow> string \<Rightarrow> nat \<times> registry" where
  "registry_get rg i = (case Registry_Get rg i of Return x \<Rightarrow> x | Panic _ \<Rightarrow> (0, rg))"

lemma Registry_Get_returns: "rg_inv rg \<Longrightarrow> Registry_Get rg i = Return (registry_get rg i)"
  by (auto simp: registry_get_def Registry_Get_def Breaker_New_def rg_inv_def split: option.splits)

lemma Registry_Get_inv: "rg_inv rg \<Longrightarrow> rg_inv (snd (registry_get rg i))"
proof (cases "rg_breakers rg i")
  case None
  assume inv: "rg_inv rg"
  then have "length (rg_heap rg) \<notin> ran (rg_breakers rg)" by (auto simp: rg_inv_def)
  then have "inj_on ((rg_breakers rg)(i \<mapsto> length (rg_heap rg))) (insert i (dom (rg_breakers rg)))"
    using inv None by (auto simp: rg_inv_def inj_on_def ran_def domIff)
  then show ?thesis
    using inv None by (auto simp: registry_get_def Registry_Get_def Breaker_New_def rg_inv_def)
qed (simp add: registry_get_def Registry_Get_def)

interpretation reg: get_or_create registry_get rg_breakers "\<lambda>rg. length (rg_heap rg)" rg_inv
proof unfold_locales
  show "rg_inv (snd (registry_get rg i))" if "rg_inv rg" for rg i
    using that by (rule Registry_Get_inv)
qed (auto simp: registry_get_def Registry_Get_def Breaker_New_def rg_inv_def)

text \<open>A snapshot shows the state of every breaker.\<close>

lemma Registry_States_exact:
  "Registry_States rg i = Some (State_String st) \<longleftrightarrow> (\<exists>b. rg_breakers rg i = Some b \<and> Breaker_State (rg_heap rg ! b) = st)"
  using State_String_inj by (auto simp: Registry_States_def)

section \<open>Properties\<close>

text \<open>C4: the breaker refines its specification. From a newly made breaker, every sequence of
  \<open>Allow\<close>, \<open>RecordSuccess\<close> and \<open>RecordFailure\<close> calls returns (no send on the probe channel
  blocks), gives the decisions of the three-state machine, and ends in the state of that
  machine.\<close>

theorem Breaker_refines_fsm:
  assumes "Breaker_New cfg = Return b" and "FailureThreshold cfg \<le> max_int64"
  shows "\<exists>b'. cb_run b es = Some (fst (fsm_run cfg (Closed 0) es), b') \<and>
    fsm_of b' = snd (fsm_run cfg (Closed 0) es)"
  using cb_run_simulates [OF Breaker_New_Return(1) [OF assms], of es] Breaker_New_Return [OF assms]
  by auto

theorem Breaker_refines_fsm_witness:
  "\<exists>b b'. Breaker_New cb_DefaultConfig = Return b \<and>
     cb_run b [Allow 1, Failure 2] = Some (fst (fsm_run cb_DefaultConfig (Closed 0) [Allow 1, Failure 2]), b') \<and>
     fsm_of b' = snd (fsm_run cb_DefaultConfig (Closed 0) [Allow 1, Failure 2])"
proof -
  obtain b where b: "Breaker_New cb_DefaultConfig = Return b"
    by (simp add: Breaker_New_def cb_DefaultConfig_def)
  show ?thesis
    using b Breaker_refines_fsm [OF b, of "[Allow 1, Failure 2]"] by (simp add: cb_DefaultConfig_def)
qed

text \<open>A closed breaker with no recorded failure stays closed through fewer consecutive
  failures than the threshold and opens at exactly the threshold, at the time of the last one.\<close>

theorem Breaker_trips_at_threshold:
  assumes "cb_inv b" and "br_state b = StateClosed" and "br_failures b = 0"
    and "ts \<noteq> []" and "int (length ts) \<le> FailureThreshold (br_cfg b)"
  shows "\<exists>outs b'. cb_run b (map Failure ts) = Some (outs, b') \<and>
    (if int (length ts) < FailureThreshold (br_cfg b)
     then br_state b' = StateClosed \<and> sint (br_failures b') = int (length ts)
     else br_state b' = StateOpen \<and> br_openedAt b' = last ts)"
proof -
  have "fsm_of b = Closed 0" using assms(2,3) by simp
  with cb_run_simulates [OF assms(1), of "map Failure ts"]
    fsm_run_failures [OF assms(4), of 0 "br_cfg b"] assms(5)
  show ?thesis by (auto split: if_splits)
qed

theorem Breaker_trips_at_threshold_witness:
  "\<exists>outs b'. cb_run \<lparr>br_cfg = cb_DefaultConfig, br_state = StateClosed, br_failures = 0,
       br_openedAt = 0, br_probe = 0\<rparr> (map Failure [1, 2, 3, 4, 5]) = Some (outs, b') \<and>
     br_state b' = StateOpen \<and> br_openedAt b' = 5"
  using Breaker_trips_at_threshold [of "\<lparr>br_cfg = cb_DefaultConfig, br_state = StateClosed,
      br_failures = 0, br_openedAt = 0, br_probe = 0\<rparr>" "[1, 2, 3, 4, 5]"]
  by (simp add: cb_inv_def cb_DefaultConfig_def)

text \<open>Fail fast. An open breaker refuses every request until \<open>OpenDuration\<close> has passed
  since it opened, and nothing that is reported meanwhile (late successes or failures of
  requests in flight) closes it or moves its opening time.\<close>

theorem Breaker_open_sheds:
  assumes "cb_inv b" and "br_state b = StateOpen"
    and "\<And>now. Allow now \<in> set es \<Longrightarrow> now < br_openedAt b + OpenDuration (br_cfg b)"
  shows "\<exists>b'. cb_run b es = Some (map shed es, b') \<and> br_state b' = StateOpen \<and>
    br_openedAt b' = br_openedAt b"
proof -
  have "fsm_of b = Open (br_openedAt b)" using assms(2) by simp
  with cb_run_simulates [OF assms(1), of es]
    fsm_run_open [of es "br_openedAt b" "br_cfg b", OF assms(3)]
  show ?thesis by auto
qed

theorem Breaker_open_sheds_witness:
  "\<exists>b'. cb_run \<lparr>br_cfg = cb_DefaultConfig, br_state = StateOpen, br_failures = 0,
       br_openedAt = 0, br_probe = 0\<rparr> [Allow 1, Success, Allow 2, Failure 3] =
       Some (map shed [Allow 1, Success, Allow 2, Failure 3], b') \<and>
     br_state b' = StateOpen \<and> br_openedAt b' = 0"
  by (rule Breaker_open_sheds [of "\<lparr>br_cfg = cb_DefaultConfig, br_state = StateOpen,
      br_failures = 0, br_openedAt = 0, br_probe = 0\<rparr>", simplified breaker.simps])
    (auto simp: cb_inv_def cb_DefaultConfig_def)

text \<open>After the open duration exactly the first \<open>HalfOpenProbes\<close> requests are admitted
  and all later ones are refused while no outcome is reported; a half-open breaker whose permits
  are used up refuses every request at every later time, so a probe whose outcome is never
  reported keeps the breaker half-open for ever.\<close>

theorem Breaker_half_open_permits:
  assumes "cb_inv b" and "br_state b = StateOpen"
    and "\<And>t. t \<in> set ts \<Longrightarrow> br_openedAt b + OpenDuration (br_cfg b) \<le> t" and "ts \<noteq> []"
  shows "\<exists>b'. cb_run b (map Allow ts) =
      Some (map (\<lambda>i. Some (i < nat (HalfOpenProbes (br_cfg b)))) [0..<length ts], b') \<and>
    br_state b' = StateHalfOpen \<and>
    (br_probe b' = 0 \<longrightarrow>
      (\<forall>later. cb_run b' (map Allow later) = Some (replicate (length later) (Some False), b')))"
proof -
  let ?c = "br_cfg b"
  have "0 \<le> HalfOpenProbes ?c" using assms(1) by (simp add: cb_inv_def)
  obtain t us where ts: "ts = t # us" using assms(4) by (cases ts) auto
  have "fsm_run ?c (Open (br_openedAt b)) (map Allow ts) = fsm_run ?c (HalfOpen (nat (HalfOpenProbes ?c))) (map Allow ts)"
    using assms(3) [of t] \<open>0 \<le> HalfOpenProbes ?c\<close> by (auto simp: ts Let_def)
  then have run: "fsm_run ?c (fsm_of b) (map Allow ts) = fsm_run ?c (HalfOpen (nat (HalfOpenProbes ?c))) (map Allow ts)"
    using assms(2) by (simp add: fsm_of_def)
  obtain b' where b': "cb_run b (map Allow ts) =
      Some (map (\<lambda>i. Some (i < nat (HalfOpenProbes ?c))) [0..<length ts], b')"
    "br_state b' = StateHalfOpen"
    using cb_run_simulates [OF assms(1), of "map Allow ts"] by (auto simp: run fsm_run_halfopen)
  with Allow_no_permit [OF b'(2)] show ?thesis by blast
qed

theorem Breaker_half_open_permits_witness:
  "\<exists>b b'. br_state b = StateOpen \<and> cb_run b (map Allow [30 * second, 31 * second]) =
       Some (map (\<lambda>i. Some (i < nat (HalfOpenProbes cb_DefaultConfig))) [0..<2], b') \<and>
     br_state b' = StateHalfOpen"
proof -
  define b where "b = \<lparr>br_cfg = cb_DefaultConfig, br_state = StateOpen, br_failures = 0,
      br_openedAt = 0, br_probe = 0\<rparr>"
  have inv: "cb_inv b" and st: "br_state b = StateOpen" and cfg: "br_cfg b = cb_DefaultConfig"
    by (simp_all add: b_def cb_inv_def cb_DefaultConfig_def)
  have late: "br_openedAt b + OpenDuration (br_cfg b) \<le> t" if "t \<in> set [30 * second, 31 * second]" for t
    using that by (auto simp: b_def cb_DefaultConfig_def)
  obtain b' where "cb_run b (map Allow [30 * second, 31 * second]) =
      Some (map (\<lambda>i. Some (i < nat (HalfOpenProbes (br_cfg b)))) [0..<length [30 * second, 31 * second]], b')"
    "br_state b' = StateHalfOpen"
    using Breaker_half_open_permits [where ts = "[30 * second, 31 * second]", OF inv st late] by auto
  then have "br_state b = StateOpen \<and> cb_run b (map Allow [30 * second, 31 * second]) =
      Some (map (\<lambda>i. Some (i < nat (HalfOpenProbes cb_DefaultConfig))) [0..<2], b') \<and>
    br_state b' = StateHalfOpen"
    using st by (simp add: cfg numeral_2_eq_2)
  then show ?thesis by blast
qed

text \<open>One breaker per backend. In a well-formed registry \<open>Get\<close> returns, keeps the registry
  well-formed, gives different backends different breakers, and gives a backend the same breaker
  again whatever other backends are looked up in between.\<close>

theorem Registry_one_breaker_per_backend:
  assumes "rg_inv rg" and "Registry_Get rg i = Return (p, rg1)"
  shows "rg_inv rg1 \<and> p < length (rg_heap rg1) \<and>
    fst (registry_get (foldl (\<lambda>r j. snd (registry_get r j)) rg1 js) i) = p \<and>
    (\<forall>j q. j \<noteq> i \<longrightarrow> rg_breakers rg1 j = Some q \<longrightarrow> q \<noteq> p)"
proof -
  have get: "registry_get rg i = (p, rg1)" using assms(2) by (simp add: registry_get_def)
  have inv: "rg_inv rg1" using reg.get_ok [OF assms(1), of i] get by simp
  have ent: "rg_breakers rg1 i = Some p" using reg.entry_after_get [OF assms(1), of i] get by simp
  then have "p < length (rg_heap rg1)" using inv by (auto simp: rg_inv_def ran_def)
  moreover have "\<forall>j q. j \<noteq> i \<longrightarrow> rg_breakers rg1 j = Some q \<longrightarrow> q \<noteq> p"
    using inv ent by (auto simp: rg_inv_def inj_on_def domIff)
  ultimately show ?thesis using inv reg.get_stable [OF inv ent] by simp
qed

theorem Registry_one_breaker_per_backend_witness:
  "\<exists>p rg1. Registry_Get (NewRegistry cb_DefaultConfig) ''b1'' = Return (p, rg1) \<and> rg_inv rg1 \<and>
     fst (registry_get (foldl (\<lambda>r j. snd (registry_get r j)) rg1 [''b2'', ''b3'']) ''b1'') = p"
proof -
  let ?rg = "NewRegistry cb_DefaultConfig"
  have inv: "rg_inv ?rg" by (simp add: rg_inv_def NewRegistry_def cb_DefaultConfig_def)
  obtain p rg1 where get: "Registry_Get ?rg ''b1'' = Return (p, rg1)"
    using Registry_Get_returns [OF inv] by (metis surj_pair)
  show ?thesis
    using get Registry_one_breaker_per_backend [OF inv get, of "[''b2'', ''b3'']"] by blast
qed

end
