(* ===== verification/BreakerConcurrency.thy ===== *)
theory BreakerConcurrency
  imports CircuitBreaker
begin

text \<open>
  The methods of \<open>breaker.go\<close> at the grain of their atomic operations: loads and stores of
  the atomic fields, lock and unlock of \<open>mu\<close>, and operations on the probe channel. Any number
  of goroutines run the methods at the same time; a run is any interleaving of their steps
  and of the clock. The program counters name the operation a goroutine does next.
\<close>

section \<open>Shared state and program counters\<close>

record shared =
  sh_state :: State
  sh_failures :: int64
  sh_openedAt :: timestamp
  sh_probe :: nat
  sh_mu :: "nat option"

datatype pc =
    Idle
  | A_Load | A_LoadTime | A_Since timestamp | A_Lock | A_Check | A_StoreHalf | A_DrainLen
  | A_DrainRecv | A_Fill nat | A_Unlock | A_Reload | A_Select
  | S_Reset | S_Load | S_Lock | S_Store | S_Unlock
  | F_Add | F_Test int64 | F_Lock | F_Check | F_StoreTime | F_StoreOpen | F_Reset | F_Unlock

text \<open>What a step lets an observer see: an admission, a refusal, a half-open transition.\<close>

datatype obs = Tau | EnterHalf | Permit | AdmitClosed | Refuse

abbreviation permits_max :: "cb_config \<Rightarrow> nat" where
  "permits_max cfg \<equiv> nat (HalfOpenProbes cfg)"

text \<open>
  One atomic operation of goroutine \<open>t\<close> at time \<open>now\<close>. \<open>None\<close>: the operation blocks
  (the lock is taken, a receive finds the channel empty, a send finds it full), or the
  goroutine is idle.
\<close>

fun thread_step :: "cb_config \<Rightarrow> nat \<Rightarrow> timestamp \<Rightarrow> shared \<Rightarrow> pc \<Rightarrow> (shared \<times> pc \<times> obs) option" where
  "thread_step cfg t now sh Idle = None"
| "thread_step cfg t now sh A_Load =
     (case sh_state sh of
        StateClosed \<Rightarrow> Some (sh, Idle, AdmitClosed)
      | StateOpen \<Rightarrow> Some (sh, A_LoadTime, Tau)
      | StateHalfOpen \<Rightarrow> Some (sh, A_Select, Tau))"
| "thread_step cfg t now sh A_LoadTime = Some (sh, A_Since (sh_openedAt sh), Tau)"
| "thread_step cfg t now sh (A_Since opened) =
     Some (sh, if now - opened \<ge> OpenDuration cfg then A_Lock else A_Reload, Tau)"
| "thread_step cfg t now sh A_Lock =
     (if sh_mu sh = None then Some (sh\<lparr>sh_mu := Some t\<rparr>, A_Check, Tau) else None)"
| "thread_step cfg t now sh A_Check =
     Some (sh, if sh_state sh = StateOpen then A_StoreHalf else A_Unlock, Tau)"
| "thread_step cfg t now sh A_StoreHalf = Some (sh\<lparr>sh_state := StateHalfOpen\<rparr>, A_DrainLen, EnterHalf)"
| "thread_step cfg t now sh A_DrainLen =
     Some (sh, if sh_probe sh > 0 then A_DrainRecv else A_Fill 0, Tau)"
| "thread_step cfg t now sh A_DrainRecv =
     (if sh_probe sh > 0 then Some (sh\<lparr>sh_probe := sh_probe sh - 1\<rparr>, A_DrainLen, Tau) else None)"
| "thread_step cfg t now sh (A_Fill i) =
     (if i < permits_max cfg then
        (if sh_probe sh < permits_max cfg
         then Some (sh\<lparr>sh_probe := sh_probe sh + 1\<rparr>, A_Fill (i + 1), Tau) else None)
      else Some (sh, A_Unlock, Tau))"
| "thread_step cfg t now sh A_Unlock = Some (sh\<lparr>sh_mu := None\<rparr>, A_Reload, Tau)"
| "thread_step cfg t now sh A_Reload =
     (if sh_state sh = StateOpen then Some (sh, Idle, Refuse) else Some (sh, A_Select, Tau))"
| "thread_step cfg t now sh A_Select =
     (if sh_probe sh > 0 then Some (sh\<lparr>sh_probe := sh_probe sh - 1\<rparr>, Idle, Permit)
      else Some (sh, Idle, Refuse))"
| "thread_step cfg t now sh S_Reset = Some (sh\<lparr>sh_failures := 0\<rparr>, S_Load, Tau)"
| "thread_step cfg t now sh S_Load =
     Some (sh, if sh_state sh = StateHalfOpen then S_Lock else Idle, Tau)"
| "thread_step cfg t now sh S_Lock =
     (if sh_mu sh = None then Some (sh\<lparr>sh_mu := Some t\<rparr>, S_Store, Tau) else None)"
| "thread_step cfg t now sh S_Store = Some (sh\<lparr>sh_state := StateClosed\<rparr>, S_Unlock, Tau)"
| "thread_step cfg t now sh S_Unlock = Some (sh\<lparr>sh_mu := None\<rparr>, Idle, Tau)"
| "thread_step cfg t now sh F_Add =
     (let n = sh_failures sh + 1 in Some (sh\<lparr>sh_failures := n\<rparr>, F_Test n, Tau))"
| "thread_step cfg t now sh (F_Test n) =
     Some (sh, if sint n \<ge> FailureThreshold cfg \<or> sh_state sh = StateHalfOpen then F_Lock else Idle, Tau)"
| "thread_step cfg t now sh F_Lock =
     (if sh_mu sh = None then Some (sh\<lparr>sh_mu := Some t\<rparr>, F_Check, Tau) else None)"
| "thread_step cfg t now sh F_Check =
     Some (sh, if sh_state sh \<noteq> StateOpen then F_StoreTime else F_Unlock, Tau)"
| "thread_step cfg t now sh F_StoreTime = Some (sh\<lparr>sh_openedAt := now\<rparr>, F_StoreOpen, Tau)"
| "thread_step cfg t now sh F_StoreOpen = Some (sh\<lparr>sh_state := StateOpen\<rparr>, F_Reset, Tau)"
| "thread_step cfg t now sh F_Reset = Some (sh\<lparr>sh_failures := 0\<rparr>, F_Unlock, Tau)"
| "thread_step cfg t now sh F_Unlock = Some (sh\<lparr>sh_mu := None\<rparr>, Idle, Tau)"

text \<open>The goroutines holding \<open>mu\<close> by their program counters.\<close>

fun critical :: "pc \<Rightarrow> bool" where
  "critical A_Check = True" | "critical A_StoreHalf = True" | "critical A_DrainLen = True"
| "critical A_DrainRecv = True" | "critical (A_Fill i) = True" | "critical A_Unlock = True"
| "critical S_Store = True" | "critical S_Unlock = True" | "critical F_Check = True"
| "critical F_StoreTime = True" | "critical F_StoreOpen = True" | "critical F_Reset = True"
| "critical F_Unlock = True" | "critical _ = False"

datatype cb_call = CallAllow | CallSuccess | CallFailure

fun entry_pc :: "cb_call \<Rightarrow> pc" where
  "entry_pc CallAllow = A_Load"
| "entry_pc CallSuccess = S_Reset"
| "entry_pc CallFailure = F_Add"

record cstate =
  c_sh :: shared
  c_pc :: "nat \<Rightarrow> pc"
  c_now :: timestamp

datatype clabel = Start nat cb_call | Step nat obs | Tick duration

inductive cstep :: "cb_config \<Rightarrow> cstate \<Rightarrow> clabel \<Rightarrow> cstate \<Rightarrow> bool" for cfg where
  start: "c_pc s t = Idle \<Longrightarrow> cstep cfg s (Start t c) (s\<lparr>c_pc := (c_pc s)(t := entry_pc c)\<rparr>)"
| step: "thread_step cfg t (c_now s) (c_sh s) (c_pc s t) = Some (sh, p, ob) \<Longrightarrow>
     cstep cfg s (Step t ob) (s\<lparr>c_sh := sh, c_pc := (c_pc s)(t := p)\<rparr>)"
| tick: "0 \<le> d \<Longrightarrow> cstep cfg s (Tick d) (s\<lparr>c_now := c_now s + d\<rparr>)"

inductive_cases cstep_StepE: "cstep cfg s (Step t ob) s'"

definition cinit :: cstate where
  "cinit = \<lparr>c_sh = \<lparr>sh_state = StateClosed, sh_failures = 0, sh_openedAt = 0, sh_probe = 0, sh_mu = None\<rparr>,
            c_pc = (\<lambda>_. Idle), c_now = 0\<rparr>"

section \<open>The invariant\<close>

text \<open>
  The lock is held by the goroutine in a critical section and by no other; the channel never
  holds more permits than its capacity, and a goroutine filling it has sent at least as many as
  are still there.
\<close>

definition cinv :: "cb_config \<Rightarrow> cstate \<Rightarrow> bool" where
  "cinv cfg s \<longleftrightarrow>
     (\<forall>t. critical (c_pc s t) \<longleftrightarrow> sh_mu (c_sh s) = Some t) \<and>
     sh_probe (c_sh s) \<le> permits_max cfg \<and>
     (\<forall>t i. c_pc s t = A_Fill i \<longrightarrow> sh_probe (c_sh s) \<le> i \<and> i \<le> permits_max cfg)"

lemma cinv_init: "cinv cfg cinit"
  by (simp add: cinv_def cinit_def)

lemma critical_step:
  assumes "thread_step cfg t now sh p = Some (sh', p', ob)" and "critical p \<longleftrightarrow> sh_mu sh = Some t"
  shows "critical p' \<longleftrightarrow> sh_mu sh' = Some t"
  using assms by (cases p) (auto simp: Let_def split: if_splits State.splits)

lemma other_lock_step:
  assumes "thread_step cfg t now sh p = Some (sh', p', ob)" and "critical p \<longleftrightarrow> sh_mu sh = Some t"
    and "u \<noteq> t"
  shows "sh_mu sh' = Some u \<longleftrightarrow> sh_mu sh = Some u"
  using assms by (cases p) (auto simp: Let_def split: if_splits State.splits)

lemma probe_step:
  assumes "thread_step cfg t now sh p = Some (sh', p', ob)"
  shows "sh_probe sh' \<le> sh_probe sh \<or> (\<exists>i. p = A_Fill i \<and> sh_probe sh' = sh_probe sh + 1 \<and>
      p' = A_Fill (i + 1) \<and> i < permits_max cfg \<and> sh_probe sh < permits_max cfg)"
  using assms by (cases p) (auto simp: Let_def split: if_splits State.splits)

lemma fill_step:
  assumes "thread_step cfg t now sh p = Some (sh', A_Fill j, ob)"
  shows "(p = A_DrainLen \<and> j = 0 \<and> sh_probe sh' = 0) \<or>
    (\<exists>i. p = A_Fill i \<and> j = i + 1 \<and> sh_probe sh' = sh_probe sh + 1 \<and> i < permits_max cfg)"
  using assms by (cases p) (auto simp: Let_def split: if_splits State.splits)

lemma cinv_thread_step:
  assumes inv: "cinv cfg s" and st: "thread_step cfg t (c_now s) (c_sh s) (c_pc s t) = Some (sh, p, ob)"
  shows "cinv cfg (s\<lparr>c_sh := sh, c_pc := (c_pc s)(t := p)\<rparr>)"
proof -
  have mu: "critical (c_pc s u) \<longleftrightarrow> sh_mu (c_sh s) = Some u" for u
    using inv by (simp add: cinv_def)
  have fill: "c_pc s u = A_Fill i \<Longrightarrow> sh_probe (c_sh s) \<le> i \<and> i \<le> permits_max cfg" for u i
    using inv by (simp add: cinv_def)
  have lock: "critical (((c_pc s)(t := p)) u) \<longleftrightarrow> sh_mu sh = Some u" for u
    using critical_step [OF st mu] other_lock_step [OF st mu, of u] mu [of u] by (cases "u = t") auto
  moreover have "sh_probe sh \<le> permits_max cfg"
    using probe_step [OF st] inv by (auto simp: cinv_def)
  moreover have "sh_probe sh \<le> i \<and> i \<le> permits_max cfg" if "((c_pc s)(t := p)) u = A_Fill i" for u i
  proof (cases "u = t")
    case True
    with that have "p = A_Fill i" by simp
    with st fill_step [of cfg t "c_now s" "c_sh s" "c_pc s t" sh i ob] fill [of t] show ?thesis by auto
  next
    case False
    with that have u: "c_pc s u = A_Fill i" by simp
    then have "sh_mu (c_sh s) = Some u" using mu [of u] by simp
    then have "\<not> critical (c_pc s t)" using mu [of t] False by simp
    then have "sh_probe sh \<le> sh_probe (c_sh s)" using probe_step [OF st] by auto
    with fill [OF u] show ?thesis by simp
  qed
  ultimately show ?thesis by (simp add: cinv_def)
qed

lemma cinv_step: "cinv cfg s \<Longrightarrow> cstep cfg s l s' \<Longrightarrow> cinv cfg s'"
proof (erule cstep.cases)
  fix u t c
  assume "cinv cfg s" and "s = u" "c_pc u t = Idle" "s' = u\<lparr>c_pc := (c_pc u)(t := entry_pc c)\<rparr>"
  moreover from this have "sh_mu (c_sh u) \<noteq> Some t" by (metis cinv_def critical.simps(14))
  ultimately show "cinv cfg s'" by (cases c) (auto simp: cinv_def)
next
  fix t u sh p ob
  assume "cinv cfg s" "s = u" "s' = u\<lparr>c_sh := sh, c_pc := (c_pc u)(t := p)\<rparr>"
    "thread_step cfg t (c_now u) (c_sh u) (c_pc u t) = Some (sh, p, ob)"
  then show "cinv cfg s'" by (simp add: cinv_thread_step)
qed (simp add: cinv_def)

interpretation bc: transition_system "\<lambda>s. s = cinit" "cstep cfg" "cinv cfg" for cfg
  by unfold_locales (auto simp: cinv_init intro: cinv_step)

section \<open>Counting permits\<close>

text \<open>The permits the goroutine in the half-open transition has still to send.\<close>

definition pending :: "cb_config \<Rightarrow> cstate \<Rightarrow> nat" where
  "pending cfg s = (case sh_mu (c_sh s) of None \<Rightarrow> 0 | Some t \<Rightarrow>
     (case c_pc s t of A_DrainLen \<Rightarrow> permits_max cfg | A_DrainRecv \<Rightarrow> permits_max cfg
      | A_Fill i \<Rightarrow> permits_max cfg - i | _ \<Rightarrow> 0))"

fun is_permit :: "clabel \<Rightarrow> bool" where
  "is_permit (Step t ob) = (ob = Permit)"
| "is_permit _ = False"

fun is_enter :: "clabel \<Rightarrow> bool" where
  "is_enter (Step t ob) = (ob = EnterHalf)"
| "is_enter _ = False"

definition pend_pc :: "cb_config \<Rightarrow> pc \<Rightarrow> nat" where
  "pend_pc cfg p = (case p of A_DrainLen \<Rightarrow> permits_max cfg | A_DrainRecv \<Rightarrow> permits_max cfg
      | A_Fill i \<Rightarrow> permits_max cfg - i | _ \<Rightarrow> 0)"

lemma pending_owner: "cinv cfg s \<Longrightarrow> critical (c_pc s t) \<Longrightarrow> pending cfg s = pend_pc cfg (c_pc s t)"
  by (auto simp: cinv_def pending_def pend_pc_def)

lemma pend_pc_critical: "\<not> critical p \<Longrightarrow> pend_pc cfg p = 0"
  by (cases p) (simp_all add: pend_pc_def)

text \<open>The balance of one operation of a goroutine.\<close>

lemma permit_balance:
  assumes "thread_step cfg t now sh p = Some (sh', p', ob)"
  shows "(if ob = Permit then 1 else 0) + sh_probe sh' + pend_pc cfg p' \<le>
    (if ob = EnterHalf then permits_max cfg else 0) + sh_probe sh + pend_pc cfg p"
  using assms by (cases p) (auto simp: Let_def pend_pc_def split: if_splits State.splits)

lemma pending_thread_step:
  assumes inv: "cinv cfg s" and st: "thread_step cfg t (c_now s) (c_sh s) (c_pc s t) = Some (sh, p, ob)"
  shows "(if ob = Permit then 1 else 0) + sh_probe sh + pending cfg (s\<lparr>c_sh := sh, c_pc := (c_pc s)(t := p)\<rparr>) \<le>
    (if ob = EnterHalf then permits_max cfg else 0) + sh_probe (c_sh s) + pending cfg s"
proof -
  let ?s' = "s\<lparr>c_sh := sh, c_pc := (c_pc s)(t := p)\<rparr>"
  have inv': "cinv cfg ?s'" using inv st by (rule cinv_thread_step)
  show ?thesis
  proof (cases "\<exists>u. u \<noteq> t \<and> critical (c_pc s u)")
    case True
    then obtain u where u: "u \<noteq> t" "critical (c_pc s u)" by blast
    then have "\<not> critical (c_pc s t)" using inv by (auto simp: cinv_def)
    moreover have "pending cfg ?s' = pending cfg s"
      using pending_owner [OF inv u(2)] pending_owner [OF inv', of u] u by simp
    moreover have "\<not> critical p"
      using inv' u by (simp add: cinv_def) (metis option.inject)
    ultimately show ?thesis using permit_balance [OF st] by (simp add: pend_pc_critical)
  next
    case False
    have "pending cfg v = pend_pc cfg (c_pc v t)" if "cinv cfg v" "\<And>u. u \<noteq> t \<Longrightarrow> \<not> critical (c_pc v u)" for v
    proof (cases "critical (c_pc v t)")
      case True
      with that(1) show ?thesis by (rule pending_owner)
    next
      case False
      with that have "sh_mu (c_sh v) = None" by (metis cinv_def option.exhaust)
      then show ?thesis using False by (simp add: pending_def pend_pc_critical)
    qed
    then have "pending cfg s = pend_pc cfg (c_pc s t)" "pending cfg ?s' = pend_pc cfg p"
      using inv inv' False by (metis, fastforce)
    with permit_balance [OF st] show ?thesis by simp
  qed
qed

lemma permit_step:
  assumes "cinv cfg s" and "cstep cfg s l s'"
  shows "(if is_permit l then 1 else 0) + sh_probe (c_sh s') + pending cfg s' \<le>
    (if is_enter l then permits_max cfg else 0) + sh_probe (c_sh s) + pending cfg s"
  using assms(2)
proof cases
  case (start t c)
  then have "sh_mu (c_sh s) \<noteq> Some t" using assms(1) by (metis cinv_def critical.simps(14))
  with start show ?thesis by (auto simp: pending_def split: option.splits)
next
  case (step t sh p ob)
  with pending_thread_step [OF assms(1) step(3)] show ?thesis by simp
qed (auto simp: pending_def split: option.split)

lemma permits_run:
  "run (cstep cfg) s ls s' \<Longrightarrow> cinv cfg s \<Longrightarrow>
   length (filter is_permit ls) + sh_probe (c_sh s') + pending cfg s' \<le>
   permits_max cfg * length (filter is_enter ls) + sh_probe (c_sh s) + pending cfg s"
proof (induction rule: run.induct)
  case (run_snoc s ls t l u)
  have "cinv cfg t" using bc.run_invar run_snoc by blast
  from permit_step [OF this run_snoc(2)] run_snoc show ?case by (auto split: if_splits)
qed simp

section \<open>A goroutine that waits for a permit while holding the lock\<close>

text \<open>
  \<open>len(b.probe) > 0\<close> and the receive that follows are two operations: a permit taken by
  another goroutine in between leaves the first one blocked inside its critical section.
\<close>

definition wedged :: "nat \<Rightarrow> cstate \<Rightarrow> bool" where
  "wedged t s \<longleftrightarrow> c_pc s t = A_DrainRecv \<and> sh_probe (c_sh s) = 0 \<and> sh_state (c_sh s) = StateHalfOpen"

fun admits :: "clabel \<Rightarrow> bool" where
  "admits (Step t ob) = (ob = Permit \<or> ob = AdmitClosed)"
| "admits _ = False"

lemma state_step_critical:
  assumes "thread_step cfg t now sh p = Some (sh', p', ob)" and "\<not> critical p"
  shows "sh_state sh' = sh_state sh" and "sh_probe sh' \<le> sh_probe sh"
    and "ob = Permit \<Longrightarrow> 0 < sh_probe sh" and "ob = AdmitClosed \<Longrightarrow> sh_state sh = StateClosed"
  using assms by (cases p; auto simp: Let_def split: if_splits State.splits; fail)+

lemma wedged_step:
  assumes "cinv cfg s \<and> wedged t s" and "cstep cfg s l s'"
  shows "cinv cfg s' \<and> wedged t s'" and "\<not> admits l"
proof -
  have inv': "cinv cfg s'" using assms cinv_step by blast
  have mu: "sh_mu (c_sh s) = Some t" using assms(1) by (auto simp: cinv_def wedged_def)
  have "wedged t s' \<and> \<not> admits l"
    using assms(2)
  proof cases
    case (step u sh p ob)
    have "u \<noteq> t" using step assms(1) by (auto simp: wedged_def)
    then have "\<not> critical (c_pc s u)" using mu assms(1) by (simp add: cinv_def)
    note keep = state_step_critical [OF step(3) this]
    show ?thesis using step keep \<open>u \<noteq> t\<close> assms(1) by (auto simp: wedged_def)
  qed (use assms(1) in \<open>auto simp: wedged_def\<close>)
  with inv' show "cinv cfg s' \<and> wedged t s'" and "\<not> admits l" by auto
qed

interpretation wedge: transition_system "\<lambda>s. cinv cfg s \<and> wedged t s" "cstep cfg"
  "\<lambda>s. cinv cfg s \<and> wedged t s" for cfg t
  by unfold_locales (assumption, rule wedged_step(1))

section \<open>Schedules\<close>

text \<open>A schedule: which goroutine begins a call or does its next operation, or time passing.\<close>

datatype choice = Begin nat cb_call | Go nat | Wait duration

fun sched1 :: "cb_config \<Rightarrow> cstate \<Rightarrow> choice \<Rightarrow> (clabel \<times> cstate) option" where
  "sched1 cfg s (Begin t c) =
     (if c_pc s t = Idle then Some (Start t c, s\<lparr>c_pc := (c_pc s)(t := entry_pc c)\<rparr>) else None)"
| "sched1 cfg s (Go t) =
     (case thread_step cfg t (c_now s) (c_sh s) (c_pc s t) of
        None \<Rightarrow> None
      | Some (sh, p, ob) \<Rightarrow> Some (Step t ob, s\<lparr>c_sh := sh, c_pc := (c_pc s)(t := p)\<rparr>))"
| "sched1 cfg s (Wait d) = (if 0 \<le> d then Some (Tick d, s\<lparr>c_now := c_now s + d\<rparr>) else None)"

definition sched :: "cb_config \<Rightarrow> cstate \<Rightarrow> choice list \<Rightarrow> cstate option" where
  "sched cfg s cs = map_option snd (exec (sched1 cfg) s cs)"

interpretation bsched: scheduler "cstep cfg" "sched1 cfg" for cfg
proof unfold_locales
  show "cstep cfg s l s'" if "sched1 cfg s c = Some (l, s')" for s c l s'
    using that by (cases c) (auto intro: cstep.intros split: if_splits option.splits)
qed

lemma sched_simps [simp]:
  "sched cfg s [] = Some s"
  "sched cfg s (c # cs) = (case sched1 cfg s c of None \<Rightarrow> None | Some (l, s') \<Rightarrow> sched cfg s' cs)"
  by (auto simp: sched_def split: option.split)

lemma sched_run: "sched cfg s cs = Some s' \<Longrightarrow> \<exists>ls. run (cstep cfg) s ls s'"
  using bsched.exec_run by (fastforce simp: sched_def)

lemma sched_append: "sched cfg s (xs @ ys) = (case sched cfg s xs of None \<Rightarrow> None | Some s' \<Rightarrow> sched cfg s' ys)"
  by (induction xs arbitrary: s) (auto split: option.splits)

text \<open>The configuration of the repository's own breaker tests.\<close>

definition test_cfg :: cb_config where
  "test_cfg = \<lparr>FailureThreshold = 1, OpenDuration = 10 * millisecond, HalfOpenProbes = 1\<rparr>"

text \<open>
  Requests 0 and 1 are admitted while the breaker is closed; 0 fails and opens it; when the
  open duration is over, requests 2 and 3 both see that and 2 makes the breaker half-open and
  is about to take the permit.
\<close>

definition recovery :: "choice list" where
  "recovery =
     [Begin 0 CallAllow, Go 0, Begin 1 CallAllow, Go 1] @
     Begin 0 CallFailure # replicate 8 (Go 0) @ [Wait (10 * millisecond)] @
     Begin 2 CallAllow # replicate 3 (Go 2) @ Begin 3 CallAllow # replicate 3 (Go 3) @ replicate 8 (Go 2)"

lemma replicate_num: "replicate (numeral k) x = x # replicate (pred_numeral k) x"
  by (simp add: numeral_eq_Suc)

definition after_recovery :: cstate where
  "after_recovery = \<lparr>c_sh = \<lparr>sh_state = StateHalfOpen, sh_failures = 0, sh_openedAt = 0, sh_probe = 1,
       sh_mu = None\<rparr>, c_pc = (\<lambda>_. Idle)(2 := A_Select, 3 := A_Lock), c_now = 10 * millisecond\<rparr>"

lemma sched_recovery: "sched test_cfg cinit recovery = Some after_recovery"
  by (simp add: recovery_def after_recovery_def cinit_def test_cfg_def replicate_num fun_eq_iff)

lemma sched_after: "sched test_cfg cinit (recovery @ cs) = sched test_cfg after_recovery cs"
  by (simp only: sched_append sched_recovery option.case)

lemmas sched_eval = after_recovery_def test_cfg_def replicate_num

lemma sched_reaches:
  assumes "sched test_cfg cinit (recovery @ cs) = Some s"
  shows "\<exists>ls. run (cstep test_cfg) cinit ls s"
  using sched_run [OF assms] .

section \<open>Properties\<close>

text \<open>C6: in every interleaving of any number of goroutines, at most one is in a critical
  section of \<open>mu\<close>, the probe channel never exceeds its capacity, and the sends that refill it
  never block.\<close>

theorem Breaker_mutex_and_fill:
  assumes "run (cstep cfg) cinit ls s"
  shows "(critical (c_pc s t) \<longrightarrow> critical (c_pc s u) \<longrightarrow> t = u) \<and>
    sh_probe (c_sh s) \<le> permits_max cfg \<and>
    (c_pc s t = A_Fill i \<longrightarrow> thread_step cfg t (c_now s) (c_sh s) (c_pc s t) \<noteq> None)"
proof -
  have inv: "cinv cfg s" using bc.reachable_invar [OF refl assms] .
  then have "critical (c_pc s t) \<longrightarrow> critical (c_pc s u) \<longrightarrow> t = u"
    by (metis cinv_def option.inject)
  moreover have "thread_step cfg t (c_now s) (c_sh s) (A_Fill i) \<noteq> None" if "c_pc s t = A_Fill i"
  proof -
    have "sh_probe (c_sh s) \<le> i" using inv that by (auto simp: cinv_def)
    then show ?thesis by simp
  qed
  ultimately show ?thesis using inv by (simp add: cinv_def)
qed

theorem Breaker_mutex_and_fill_witness:
  "\<exists>ls s. run (cstep test_cfg) cinit ls s \<and> sh_probe (c_sh s) = 1 \<and> sh_probe (c_sh s) \<le> permits_max test_cfg"
proof -
  obtain ls where r: "run (cstep test_cfg) cinit ls after_recovery"
    using sched_reaches [of "[]"] by (auto simp: sched_recovery)
  show ?thesis
    using r Breaker_mutex_and_fill [OF r] by (intro exI [of _ ls] exI [of _ after_recovery])
      (simp add: after_recovery_def)
qed

text \<open>C7: no thundering herd. In every interleaving, the number of requests admitted as probes
  is at most \<open>HalfOpenProbes\<close> times the number of transitions to half-open.\<close>

theorem Breaker_probe_permits_bounded:
  assumes "run (cstep cfg) cinit ls s"
  shows "length (filter is_permit ls) \<le> permits_max cfg * length (filter is_enter ls)"
  using permits_run [OF assms cinv_init] by (simp add: cinit_def pending_def)

theorem Breaker_probe_permits_bounded_witness:
  "\<exists>ls. run (cstep test_cfg) cinit ls after_recovery \<and>
     length (filter is_permit ls) \<le> permits_max test_cfg * length (filter is_enter ls)"
proof -
  obtain ls where r: "run (cstep test_cfg) cinit ls after_recovery"
    using sched_reaches [of "[]"] by (auto simp: sched_recovery)
  show ?thesis using r Breaker_probe_permits_bounded [OF r] by blast
qed

text \<open>C36: the breaker can deadlock. There is an interleaving (with the configuration of the
  repository's tests) in which the goroutine that drains the probe channel waits for a permit
  another goroutine has taken, holding \<open>mu\<close>; from then on, in every continuation, the lock is
  never released, the breaker stays half-open and no request is admitted any more.\<close>

theorem Breaker_can_wedge:
  "\<exists>ls s. run (cstep test_cfg) cinit ls s \<and>
     (\<forall>ls' s'. run (cstep test_cfg) s ls' s' \<longrightarrow>
        sh_mu (c_sh s') = Some 3 \<and> sh_state (c_sh s') = StateHalfOpen \<and> (\<forall>l\<in>set ls'. \<not> admits l))"
proof -
  let ?cs = "recovery @ Begin 1 CallFailure # replicate 8 (Go 1) @ replicate 4 (Go 3) @ [Go 2]"
  obtain s where s: "sched test_cfg cinit ?cs = Some s" and w: "wedged 3 s"
    unfolding sched_after by (simp add: sched_eval wedged_def)
  obtain ls where r: "run (cstep test_cfg) cinit ls s" using sched_run [OF s] by blast
  have inv: "cinv test_cfg s \<and> wedged 3 s" using bc.reachable_invar [OF refl r] w by simp
  have "sh_mu (c_sh s') = Some 3 \<and> sh_state (c_sh s') = StateHalfOpen \<and> (\<forall>l\<in>set ls'. \<not> admits l)"
    if r': "run (cstep test_cfg) s ls' s'" for ls' s'
  proof -
    have "cinv test_cfg s' \<and> wedged 3 s'" by (rule wedge.run_invar [OF r' inv])
    moreover have "\<forall>l\<in>set ls'. \<not> admits l"
      by (rule wedge.run_labels [OF r' inv]) (rule wedged_step(2))
    ultimately show ?thesis by (auto simp: cinv_def wedged_def)
  qed
  with r show ?thesis by blast
qed

theorem Breaker_can_wedge_witness:
  "\<exists>ls s. run (cstep test_cfg) cinit ls s \<and> sh_mu (c_sh s) = Some 3 \<and> sh_state (c_sh s) = StateHalfOpen"
proof -
  obtain ls s where r: "run (cstep test_cfg) cinit ls s"
    and w: "\<And>ls' s'. run (cstep test_cfg) s ls' s' \<Longrightarrow>
      sh_mu (c_sh s') = Some 3 \<and> sh_state (c_sh s') = StateHalfOpen \<and> (\<forall>l\<in>set ls'. \<not> admits l)"
    using Breaker_can_wedge by blast
  show ?thesis using r w [OF run_Nil] by blast
qed

text \<open>A success report can close a circuit that has just been opened. \<open>RecordSuccess\<close> does
  not look at the state again after it has the lock: there is an interleaving in which a step
  takes the breaker from open directly to closed at the very time it was opened.\<close>

theorem RecordSuccess_closes_open:
  "\<exists>ls s l s'. run (cstep test_cfg) cinit ls s \<and> cstep test_cfg s l s' \<and>
     sh_state (c_sh s) = StateOpen \<and> sh_openedAt (c_sh s) = c_now s \<and>
     sh_state (c_sh s') = StateClosed"
proof -
  let ?cs = "recovery @ Go 2 # Begin 2 CallSuccess # replicate 2 (Go 2) @
      Begin 1 CallFailure # replicate 8 (Go 1) @ [Go 2]"
  obtain s where s: "sched test_cfg cinit ?cs = Some s" and st: "sh_state (c_sh s) = StateOpen"
    "sh_openedAt (c_sh s) = c_now s" "c_pc s 2 = S_Store"
    unfolding sched_after by (simp add: sched_eval)
  obtain l s' where "sched1 test_cfg s (Go 2) = Some (l, s')" and "sh_state (c_sh s') = StateClosed"
    using st(3) by simp
  with sched_run [OF s] bsched.pick_moves st show ?thesis by meson
qed

text \<open>The open duration can be cut short. \<open>Allow\<close> checks the elapsed time before it takes
  the lock and not again after: there is an interleaving in which the breaker becomes half-open
  at the time it was opened.\<close>

theorem Allow_half_opens_early:
  "\<exists>ls s t s'. run (cstep test_cfg) cinit ls s \<and> cstep test_cfg s (Step t EnterHalf) s' \<and>
     c_now s - sh_openedAt (c_sh s) < OpenDuration test_cfg"
proof -
  let ?cs = "recovery @ Go 2 # Begin 2 CallFailure # replicate 8 (Go 2) @ replicate 2 (Go 3)"
  obtain s where s: "sched test_cfg cinit ?cs = Some s" and st: "c_pc s 3 = A_StoreHalf"
    "c_now s - sh_openedAt (c_sh s) < OpenDuration test_cfg"
    unfolding sched_after by (simp add: sched_eval)
  have "cstep test_cfg s (Step 3 EnterHalf)
      (s\<lparr>c_sh := (c_sh s)\<lparr>sh_state := StateHalfOpen\<rparr>, c_pc := (c_pc s)(3 := A_DrainLen)\<rparr>)"
    using st(1) by (intro cstep.step) simp
  with sched_run [OF s] st(2) show ?thesis by blast
qed

end
