(* ===== verification/BreakerAtomic.thy ===== *)
theory BreakerAtomic
  imports BreakerConcurrency
begin

text \<open>
  The two models of \<open>breaker.go\<close> agree: a method call whose atomic operations are not
  interrupted by other goroutines (\<open>BreakerConcurrency\<close>) ends, after a bounded number of steps, in
  the state and with the decision of the sequential method (\<open>CircuitBreaker\<close>).
\<close>

section \<open>Operations of one goroutine\<close>

definition solo :: "cb_config \<Rightarrow> nat \<Rightarrow> timestamp \<Rightarrow> shared \<times> pc \<Rightarrow> obs \<Rightarrow> shared \<times> pc \<Rightarrow> bool" where
  "solo cfg t now x ob y \<longleftrightarrow> thread_step cfg t now (fst x) (snd x) = Some (fst y, snd y, ob)"

text \<open>The breaker as the goroutines see it while nobody holds the lock.\<close>

definition shared_of :: "breaker \<Rightarrow> shared" where
  "shared_of b = \<lparr>sh_state = br_state b, sh_failures = br_failures b, sh_openedAt = br_openedAt b,
     sh_probe = br_probe b, sh_mu = None\<rparr>"

fun call_event :: "cb_call \<Rightarrow> timestamp \<Rightarrow> cb_event" where
  "call_event CallAllow now = Allow now"
| "call_event CallSuccess now = Success"
| "call_event CallFailure now = Failure now"

text \<open>The answer an observer sees: that of the last operation of \<open>Allow\<close>.\<close>

fun answer_of :: "cb_call \<Rightarrow> obs list \<Rightarrow> bool option" where
  "answer_of CallAllow obs = Some (last obs = Permit \<or> last obs = AdmitClosed)"
| "answer_of _ obs = None"

lemma solo_step [intro]:
  "thread_step cfg t now sh p = Some (sh', p', ob) \<Longrightarrow> solo cfg t now (sh, p) ob (sh', p')"
  by (simp add: solo_def)

lemma solo_lift:
  assumes "run (solo cfg t (c_now s)) (c_sh s, c_pc s t) obs (sh, p)"
  shows "run (cstep cfg) s (map (Step t) obs) (s\<lparr>c_sh := sh, c_pc := (c_pc s)(t := p)\<rparr>)"
proof -
  let ?f = "\<lambda>x. s\<lparr>c_sh := fst x, c_pc := (c_pc s)(t := snd x)\<rparr>"
  have "cstep cfg (?f x) (Step t ob) (?f y)" if "solo cfg t (c_now s) x ob y" for x ob y
    using cstep.step [of cfg t "?f x" "fst y" "snd y" ob] that by (simp add: solo_def)
  from run_map [OF assms, of "cstep cfg" ?f "Step t"] this show ?thesis by simp
qed

section \<open>The loops of the half-open transition\<close>

lemma solo_drain:
  "sh_probe sh = k \<Longrightarrow>
   run (solo cfg t now) (sh, A_DrainLen) (replicate (2 * k + 1) Tau) (sh\<lparr>sh_probe := 0\<rparr>, A_Fill 0)"
proof (induction k arbitrary: sh)
  case 0
  then show ?case by (auto intro!: run_single)
next
  case (Suc k)
  let ?sh = "sh\<lparr>sh_probe := k\<rparr>"
  have rest: "run (solo cfg t now) (?sh, A_DrainLen) (replicate (2 * k + 1) Tau) (sh\<lparr>sh_probe := 0\<rparr>, A_Fill 0)"
    using Suc.IH [of ?sh] by simp
  have "solo cfg t now (sh, A_DrainRecv) Tau (?sh, A_DrainLen)"
    "solo cfg t now (sh, A_DrainLen) Tau (sh, A_DrainRecv)"
    using Suc.prems by auto
  from run_Cons [OF run_Cons [OF rest this(1)] this(2)] show ?case by simp
qed

lemma solo_fill:
  "sh_probe sh = i \<Longrightarrow> i + k = permits_max cfg \<Longrightarrow>
   run (solo cfg t now) (sh, A_Fill i) (replicate (k + 1) Tau) (sh\<lparr>sh_probe := permits_max cfg\<rparr>, A_Unlock)"
proof (induction k arbitrary: sh i)
  case 0
  then have "sh\<lparr>sh_probe := permits_max cfg\<rparr> = sh" by (cases sh) simp
  with 0 show ?case by (auto intro!: run_single)
next
  case (Suc k)
  let ?sh = "sh\<lparr>sh_probe := i + 1\<rparr>"
  have rest: "run (solo cfg t now) (?sh, A_Fill (i + 1)) (replicate (k + 1) Tau)
      (sh\<lparr>sh_probe := permits_max cfg\<rparr>, A_Unlock)"
    using Suc.IH [of ?sh "i + 1"] Suc.prems by simp
  have "solo cfg t now (sh, A_Fill i) Tau (?sh, A_Fill (i + 1))"
    using Suc.prems by auto
  from run_Cons [OF rest this] show ?case by simp
qed

section \<open>Whole calls\<close>

lemma solo_run_Cons:
  "thread_step cfg t now sh p = Some (sh', p', ob) \<Longrightarrow> run (solo cfg t now) (sh', p') obs y \<Longrightarrow>
   run (solo cfg t now) (sh, p) (ob # obs) y"
  by (rule run_Cons) auto

lemma solo_half_open:
  assumes "sh_mu sh = Some t" and "sh_state sh = StateOpen"
  shows "run (solo cfg t now) (sh, A_Check)
    ([Tau, EnterHalf] @ replicate (2 * sh_probe sh + 1) Tau @ replicate (permits_max cfg + 1) Tau @ [Tau])
    (sh\<lparr>sh_state := StateHalfOpen, sh_probe := permits_max cfg, sh_mu := None\<rparr>, A_Reload)"
proof -
  let ?sh = "sh\<lparr>sh_state := StateHalfOpen\<rparr>"
  let ?full = "sh\<lparr>sh_state := StateHalfOpen, sh_probe := permits_max cfg\<rparr>"
  have 1: "run (solo cfg t now) (sh, A_Check) [Tau, EnterHalf] (?sh, A_DrainLen)"
    using assms by (auto intro!: solo_run_Cons)
  have 2: "run (solo cfg t now) (?sh, A_DrainLen) (replicate (2 * sh_probe sh + 1) Tau) (?sh\<lparr>sh_probe := 0\<rparr>, A_Fill 0)"
    by (rule solo_drain) simp
  have 3: "run (solo cfg t now) (?sh\<lparr>sh_probe := 0\<rparr>, A_Fill 0) (replicate (permits_max cfg + 1) Tau) (?full, A_Unlock)"
    using solo_fill [of "?sh\<lparr>sh_probe := 0\<rparr>" 0 "permits_max cfg" cfg] by simp
  have 4: "run (solo cfg t now) (?full, A_Unlock) [Tau] (?full\<lparr>sh_mu := None\<rparr>, A_Reload)"
    by (auto intro!: solo_run_Cons)
  show ?thesis using run_trans [OF run_trans [OF run_trans [OF 4 3] 2] 1] by simp
qed

definition step_bound :: "breaker \<Rightarrow> nat" where
  "step_bound b = 11 + 2 * br_probe b + permits_max (br_cfg b)"

definition call_result :: "breaker \<Rightarrow> nat \<Rightarrow> timestamp \<Rightarrow> cb_call \<Rightarrow> bool" where
  "call_result b t now call \<longleftrightarrow>
     (\<exists>obs b'. run (solo (br_cfg b) t now) (shared_of b, entry_pc call) obs (shared_of b', Idle) \<and>
        cb_step b (call_event call now) = Some (answer_of call obs, b') \<and> length obs \<le> step_bound b)"

lemma call_resultI:
  assumes "run (solo (br_cfg b) t now) (shared_of b, entry_pc call) obs (shared_of b', Idle)"
    and "cb_step b (call_event call now) = Some (answer_of call obs, b')" and "length obs \<le> step_bound b"
  shows "call_result b t now call"
  using assms unfolding call_result_def by blast

lemma solo_Success: "call_result b t now CallSuccess"
proof (cases "br_state b = StateHalfOpen")
  case True
  have "run (solo (br_cfg b) t now) (shared_of b, S_Reset) (replicate 5 Tau) (shared_of (RecordSuccess b), Idle)"
    using True by (auto intro!: solo_run_Cons simp: shared_of_def RecordSuccess_def replicate_num)
  then show ?thesis by (rule call_resultI [where call = CallSuccess, simplified]) (simp_all add: step_bound_def)
next
  case False
  have "run (solo (br_cfg b) t now) (shared_of b, S_Reset) (replicate 2 Tau) (shared_of (RecordSuccess b), Idle)"
    using False by (auto intro!: solo_run_Cons simp: shared_of_def RecordSuccess_def replicate_num)
  then show ?thesis by (rule call_resultI [where call = CallSuccess, simplified]) (simp_all add: step_bound_def)
qed

lemma solo_Failure: "call_result b t now CallFailure"
proof -
  let ?trip = "sint (br_failures b + 1) \<ge> FailureThreshold (br_cfg b) \<or> br_state b = StateHalfOpen"
  let ?n = "if \<not> ?trip then 2 else if br_state b = StateOpen then 5 else 8"
  have "run (solo (br_cfg b) t now) (shared_of b, F_Add) (replicate ?n Tau) (shared_of (RecordFailure now b), Idle)"
    by (auto intro!: solo_run_Cons simp: shared_of_def RecordFailure_def replicate_num Let_def)
  then show ?thesis by (intro call_resultI) (auto simp: step_bound_def)
qed

lemma solo_Allow: "call_result b t now CallAllow"
proof (cases "br_state b = StateOpen \<and> now - br_openedAt b \<ge> OpenDuration (br_cfg b)")
  case True
  let ?cfg = "br_cfg b" and ?sh = "(shared_of b)\<lparr>sh_mu := Some t\<rparr>"
  let ?b = "b\<lparr>br_state := StateHalfOpen, br_probe := permits_max (br_cfg b)\<rparr>"
  let ?obs = "if 0 < permits_max ?cfg then Permit else Refuse"
  have 1: "run (solo ?cfg t now) (shared_of b, A_Load) (replicate 4 Tau) (?sh, A_Check)"
    using True by (auto intro!: solo_run_Cons simp: shared_of_def replicate_num)
  have 2: "run (solo ?cfg t now) (?sh, A_Check)
      ([Tau, EnterHalf] @ replicate (2 * br_probe b + 1) Tau @ replicate (permits_max ?cfg + 1) Tau @ [Tau])
      (shared_of ?b, A_Reload)"
    using solo_half_open [of ?sh t ?cfg now] True by (simp add: shared_of_def)
  have 3: "run (solo ?cfg t now) (shared_of ?b, A_Reload) [Tau, ?obs] (shared_of (snd (take_permit ?b)), Idle)"
    by (auto intro!: solo_run_Cons simp: shared_of_def take_permit_def)
  show ?thesis
    by (rule call_resultI [of b t now CallAllow _ "snd (take_permit ?b)"])
      (use run_trans [OF run_trans [OF 3 2] 1] True in
        \<open>auto simp: Breaker_Allow_def take_permit_def step_bound_def Let_def\<close>)
next
  case False
  let ?obs = "case br_state b of StateClosed \<Rightarrow> [AdmitClosed] | StateOpen \<Rightarrow> [Tau, Tau, Tau, Refuse]
    | StateHalfOpen \<Rightarrow> [Tau, if 0 < br_probe b then Permit else Refuse]"
  have "run (solo (br_cfg b) t now) (shared_of b, A_Load) ?obs
      (shared_of (if br_state b = StateHalfOpen then snd (take_permit b) else b), Idle)"
    using False by (auto intro!: solo_run_Cons simp: shared_of_def take_permit_def split: State.split)
  then show ?thesis using False
    by (intro call_resultI) (auto simp: Breaker_Allow_def take_permit_def step_bound_def split: State.splits)
qed

lemma call_result_all: "call_result b t now call"
  by (cases call) (simp_all add: solo_Allow solo_Success solo_Failure)

section \<open>Properties\<close>

text \<open>C8: the atomic operations implement the method. In any state of the concurrent breaker in which
  the lock is free, a goroutine that is about to run a method and is not interrupted gets to the
  end of it: in at most \<open>11 + 2 * p + HalfOpenProbes\<close> operations, where \<open>p\<close> is the number of permits in
  the channel, it is idle again, the breaker is in the state of the sequential method, and the
  answer is that of the sequential method.\<close>

theorem Breaker_atomic_equivalent:
  assumes "c_sh s = shared_of b" and "c_pc s t = entry_pc call"
  shows "\<exists>obs b'. run (cstep (br_cfg b)) s (map (Step t) obs) (s\<lparr>c_sh := shared_of b', c_pc := (c_pc s)(t := Idle)\<rparr>) \<and>
    cb_step b (call_event call (c_now s)) = Some (answer_of call obs, b') \<and>
    length obs \<le> 11 + 2 * br_probe b + nat (HalfOpenProbes (br_cfg b))"
proof -
  obtain obs b' where "run (solo (br_cfg b) t (c_now s)) (c_sh s, c_pc s t) obs (shared_of b', Idle)"
    and "cb_step b (call_event call (c_now s)) = Some (answer_of call obs, b')" and "length obs \<le> step_bound b"
    using call_result_all [of b t "c_now s" call] assms unfolding call_result_def by auto
  with solo_lift show ?thesis unfolding step_bound_def by blast
qed

theorem Breaker_atomic_equivalent_witness:
  "\<exists>obs b'. run (cstep test_cfg) (after_recovery\<lparr>c_pc := (c_pc after_recovery)(4 := A_Load)\<rparr>) (map (Step 4) obs)
      (after_recovery\<lparr>c_sh := shared_of b', c_pc := (c_pc after_recovery)(4 := Idle)\<rparr>) \<and>
    answer_of CallAllow obs = Some True \<and> br_probe b' = 0 \<and> length obs \<le> 14"
proof -
  let ?b = "\<lparr>br_cfg = test_cfg, br_state = StateHalfOpen, br_failures = 0, br_openedAt = 0, br_probe = 1\<rparr>"
  let ?s = "after_recovery\<lparr>c_pc := (c_pc after_recovery)(4 := A_Load)\<rparr>"
  obtain obs b' where "run (cstep test_cfg) ?s (map (Step 4) obs)
      (?s\<lparr>c_sh := shared_of b', c_pc := (c_pc ?s)(4 := Idle)\<rparr>)"
    and "cb_step ?b (call_event CallAllow (c_now ?s)) = Some (answer_of CallAllow obs, b')"
    and "length obs \<le> 14"
    using Breaker_atomic_equivalent [of ?s ?b 4 CallAllow]
    by (auto simp: shared_of_def after_recovery_def test_cfg_def)
  then show ?thesis
    by (intro exI [of _ obs] exI [of _ b'])
      (auto simp: Breaker_Allow_def take_permit_def after_recovery_def)
qed

end
