(* ===== verification/RegistryConcurrency.thy ===== *)
theory RegistryConcurrency
  imports CircuitBreaker
begin

text \<open>
  \<open>registry.go\<close> at the grain of its lock and map operations: any number of goroutines call
  \<open>Get\<close> and \<open>States\<close> while others use the breakers they were handed. The read-write mutex is that of
  \<open>sync\<close>: a writer first announces itself, which keeps other writers out and makes new readers wait, and
  has the lock when the readers of that time are gone; its unlock lets all waiting readers in.
\<close>

section \<open>The lock, the map and the program counters\<close>

record rmem =
  rm_rg :: registry
  rm_readers :: "nat set"
  rm_queue :: "nat set"
  rm_pending :: "nat option"
  rm_writer :: "nat option"

text \<open>
  \<open>rm_readers\<close> have the lock for reading, \<open>rm_queue\<close> are the readers that wait, \<open>rm_pending\<close> is the
  writer that has announced itself and \<open>rm_writer\<close> the one that has the lock.
\<close>

definition RLock :: "nat \<Rightarrow> rmem \<Rightarrow> rmem \<times> bool" where
  "RLock t m =
     (if rm_writer m = None \<and> rm_pending m = None then (m\<lparr>rm_readers := insert t (rm_readers m)\<rparr>, True)
      else (m\<lparr>rm_queue := insert t (rm_queue m)\<rparr>, False))"

definition RUnlock :: "nat \<Rightarrow> rmem \<Rightarrow> rmem" where
  "RUnlock t m = m\<lparr>rm_readers := rm_readers m - {t}\<rparr>"

definition Unlock :: "rmem \<Rightarrow> rmem" where
  "Unlock m = m\<lparr>rm_writer := None, rm_readers := rm_readers m \<union> rm_queue m, rm_queue := {}\<rparr>"

lemmas rw_defs = RLock_def RUnlock_def Unlock_def

text \<open>
  \<open>G_Unlock i None\<close> is the deferred unlock while the panic of \<open>New\<close> unwinds. In \<open>St_Range\<close> are
  the keys the loop has still to visit and the snapshot so far.
\<close>

datatype gpc =
    G_Idle
  | G_RLock string | G_RWait string | G_Read string | G_RUnlock string "nat option"
  | G_Lock string | G_LockWait string | G_Recheck string | G_New string | G_Unlock string "nat option"
  | St_RLock | St_RWait | St_Start | St_Range "string list" "string \<rightharpoonup> string" | St_RUnlock "string \<rightharpoonup> string"

datatype gobs = G_Tau | G_Return string nat | G_Panic string | St_Return "string \<rightharpoonup> string"

text \<open>
  One operation of goroutine \<open>t\<close>; \<open>ids\<close> is the order in which a loop over the map that starts now
  visits its keys. \<open>None\<close>: the operation blocks, or the goroutine is idle.
\<close>

fun reg_thread :: "nat \<Rightarrow> string list \<Rightarrow> rmem \<Rightarrow> gpc \<Rightarrow> (rmem \<times> gpc \<times> gobs) option" where
  "reg_thread t ids m G_Idle = None"
| "reg_thread t ids m (G_RLock i) = (let (m, ok) = RLock t m in Some (m, if ok then G_Read i else G_RWait i, G_Tau))"
| "reg_thread t ids m (G_RWait i) = (if t \<in> rm_readers m then Some (m, G_Read i, G_Tau) else None)"
| "reg_thread t ids m (G_Read i) = Some (m, G_RUnlock i (rg_breakers (rm_rg m) i), G_Tau)"
| "reg_thread t ids m (G_RUnlock i (Some b)) =
     Some (RUnlock t m, G_Idle, G_Return i b)"
| "reg_thread t ids m (G_RUnlock i None) = Some (RUnlock t m, G_Lock i, G_Tau)"
| "reg_thread t ids m (G_Lock i) =
     (if rm_writer m = None \<and> rm_pending m = None then Some (m\<lparr>rm_pending := Some t\<rparr>, G_LockWait i, G_Tau) else None)"
| "reg_thread t ids m (G_LockWait i) =
     (if rm_readers m = {} then Some (m\<lparr>rm_pending := None, rm_writer := Some t\<rparr>, G_Recheck i, G_Tau) else None)"
| "reg_thread t ids m (G_Recheck i) =
     (case rg_breakers (rm_rg m) i of
        Some b \<Rightarrow> Some (m, G_Unlock i (Some b), G_Tau)
      | None \<Rightarrow> Some (m, G_New i, G_Tau))"
| "reg_thread t ids m (G_New i) =
     (let rg = rm_rg m in
      case Breaker_New (rg_cfg rg) of
        Panic p \<Rightarrow> Some (m, G_Unlock i None, G_Tau)
      | Return b \<Rightarrow>
          Some (m\<lparr>rm_rg := rg\<lparr>rg_breakers := (rg_breakers rg)(i \<mapsto> length (rg_heap rg)), rg_heap := rg_heap rg @ [b]\<rparr>\<rparr>,
                G_Unlock i (Some (length (rg_heap rg))), G_Tau))"
| "reg_thread t ids m (G_Unlock i (Some b)) = Some (Unlock m, G_Idle, G_Return i b)"
| "reg_thread t ids m (G_Unlock i None) = Some (Unlock m, G_Idle, G_Panic i)"
| "reg_thread t ids m St_RLock = (let (m, ok) = RLock t m in Some (m, if ok then St_Start else St_RWait, G_Tau))"
| "reg_thread t ids m St_RWait = (if t \<in> rm_readers m then Some (m, St_Start, G_Tau) else None)"
| "reg_thread t ids m St_Start =
     (if distinct ids \<and> set ids = dom (rg_breakers (rm_rg m)) then Some (m, St_Range ids Map.empty, G_Tau) else None)"
| "reg_thread t ids m (St_Range [] out) = Some (m, St_RUnlock out, G_Tau)"
| "reg_thread t ids m (St_Range (i # is) out) =
     (case rg_breakers (rm_rg m) i of
        Some b \<Rightarrow> Some (m, St_Range is (out(i \<mapsto> State_String (Breaker_State (rg_heap (rm_rg m) ! b)))), G_Tau)
      | None \<Rightarrow> None)"
| "reg_thread t ids m (St_RUnlock out) = Some (RUnlock t m, G_Idle, St_Return out)"

datatype gcall = CallGet string | CallStates

fun reg_entry :: "gcall \<Rightarrow> gpc" where
  "reg_entry (CallGet i) = G_RLock i"
| "reg_entry CallStates = St_RLock"

record gstate =
  gs_mem :: rmem
  gs_pc :: "nat \<Rightarrow> gpc"

datatype glabel = GStart nat gcall | GStep nat gobs | GUse nat cb_event

text \<open>\<open>GUse\<close>: somebody calls a method of a breaker that exists.\<close>

inductive rstep :: "gstate \<Rightarrow> glabel \<Rightarrow> gstate \<Rightarrow> bool" where
  start: "gs_pc s t = G_Idle \<Longrightarrow> rstep s (GStart t c) (s\<lparr>gs_pc := (gs_pc s)(t := reg_entry c)\<rparr>)"
| step: "reg_thread t ids (gs_mem s) (gs_pc s t) = Some (m, p, ob) \<Longrightarrow>
     rstep s (GStep t ob) (s\<lparr>gs_mem := m, gs_pc := (gs_pc s)(t := p)\<rparr>)"
| use: "rg = rm_rg (gs_mem s) \<Longrightarrow> b < length (rg_heap rg) \<Longrightarrow> cb_step (rg_heap rg ! b) ev = Some (r, br) \<Longrightarrow>
     rstep s (GUse b ev) (s\<lparr>gs_mem := (gs_mem s)\<lparr>rm_rg := rg\<lparr>rg_heap := (rg_heap rg)[b := br]\<rparr>\<rparr>\<rparr>)"

definition rinit :: "cb_config \<Rightarrow> gstate" where
  "rinit cfg = \<lparr>gs_mem = \<lparr>rm_rg = NewRegistry cfg, rm_readers = {}, rm_queue = {}, rm_pending = None, rm_writer = None\<rparr>, gs_pc = (\<lambda>_. G_Idle)\<rparr>"

section \<open>The invariant\<close>

fun holds_read :: "gpc \<Rightarrow> bool" where
  "holds_read (G_Read i) = True" | "holds_read (G_RUnlock i b) = True" | "holds_read St_Start = True"
| "holds_read (St_Range ids out) = True" | "holds_read (St_RUnlock out) = True" | "holds_read _ = False"

fun holds_write :: "gpc \<Rightarrow> bool" where
  "holds_write (G_Recheck i) = True" | "holds_write (G_New i) = True" | "holds_write (G_Unlock i b) = True"
| "holds_write _ = False"

fun waits_read :: "gpc \<Rightarrow> bool" where
  "waits_read (G_RWait i) = True" | "waits_read St_RWait = True" | "waits_read _ = False"

fun waits_write :: "gpc \<Rightarrow> bool" where
  "waits_write (G_LockWait i) = True" | "waits_write _ = False"

text \<open>What a goroutine knows of the map at each point.\<close>

fun knows :: "(string \<rightharpoonup> nat) \<Rightarrow> gpc \<Rightarrow> bool" where
  "knows bs (G_RUnlock i b) = (b \<noteq> None \<longrightarrow> bs i = b)"
| "knows bs (G_New i) = (bs i = None)"
| "knows bs (G_Unlock i b) = (b \<noteq> None \<longrightarrow> bs i = b)"
| "knows bs (St_Range ids out) = (distinct ids \<and> set ids \<inter> dom out = {} \<and> set ids \<union> dom out = dom bs)"
| "knows bs (St_RUnlock out) = (dom out = dom bs)"
| "knows bs _ = True"

definition bs_ok :: "registry \<Rightarrow> bool" where
  "bs_ok rg \<longleftrightarrow> ran (rg_breakers rg) \<subseteq> {..<length (rg_heap rg)} \<and> inj_on (rg_breakers rg) (dom (rg_breakers rg))"

abbreviation gs_map :: "gstate \<Rightarrow> string \<rightharpoonup> nat" where
  "gs_map s \<equiv> rg_breakers (rm_rg (gs_mem s))"

text \<open>The lock as a goroutine sees it that is at \<open>p\<close>, and the lock itself.\<close>

definition lock_view :: "nat \<Rightarrow> gpc \<Rightarrow> rmem \<Rightarrow> bool" where
  "lock_view t p m \<longleftrightarrow> (t \<in> rm_readers m \<longleftrightarrow> holds_read p \<or> waits_read p \<and> t \<notin> rm_queue m) \<and>
     (t \<in> rm_queue m \<longrightarrow> waits_read p) \<and> (holds_write p \<longleftrightarrow> rm_writer m = Some t) \<and> (waits_write p \<longleftrightarrow> rm_pending m = Some t)"

definition lock_mem :: "rmem \<Rightarrow> bool" where
  "lock_mem m \<longleftrightarrow> (rm_writer m \<noteq> None \<longrightarrow> rm_readers m = {} \<and> rm_pending m = None) \<and>
     (rm_queue m \<noteq> {} \<longrightarrow> rm_writer m \<noteq> None \<or> rm_pending m \<noteq> None)"

definition lock_ok :: "gstate \<Rightarrow> bool" where
  "lock_ok s \<longleftrightarrow> (\<forall>t. lock_view t (gs_pc s t) (gs_mem s)) \<and> lock_mem (gs_mem s)"

definition rinv :: "gstate \<Rightarrow> bool" where
  "rinv s \<longleftrightarrow> lock_ok s \<and> bs_ok (rm_rg (gs_mem s)) \<and> (\<forall>t. knows (gs_map s) (gs_pc s t))"

lemma rinv_init: "rinv (rinit cfg)"
  by (simp add: rinv_def rinit_def lock_ok_def lock_view_def lock_mem_def bs_ok_def NewRegistry_def)

text \<open>Only the goroutine in \<open>G_New\<close> changes the map.\<close>

lemma reg_thread_map:
  assumes "reg_thread t ids m p = Some (m', p', ob)"
  shows "rm_rg m' = rm_rg m \<or>
    (\<exists>i b. p = G_New i \<and> p' = G_Unlock i (Some (length (rg_heap (rm_rg m)))) \<and>
       rm_rg m' = (rm_rg m)\<lparr>rg_breakers := (rg_breakers (rm_rg m))(i \<mapsto> length (rg_heap (rm_rg m))),
         rg_heap := rg_heap (rm_rg m) @ [b]\<rparr>)"
  using assms by (cases "(t, ids, m, p)" rule: reg_thread.cases)
    (auto simp: rw_defs Let_def split: if_splits option.splits outcome.splits)

text \<open>How an operation of \<open>t\<close> that takes it from \<open>p\<close> to \<open>p'\<close> may change the lock.\<close>

definition lock_kept :: "nat \<Rightarrow> rmem \<Rightarrow> gpc \<Rightarrow> rmem \<Rightarrow> bool" where
  "lock_kept t m p' m' \<longleftrightarrow> lock_mem m' \<and> lock_view t p' m' \<and> (\<forall>u q. u \<noteq> t \<longrightarrow> lock_view u q m \<longrightarrow> lock_view u q m')"

definition outside :: "gpc \<Rightarrow> bool" where
  "outside p \<longleftrightarrow> \<not> holds_read p \<and> \<not> waits_read p \<and> \<not> holds_write p \<and> \<not> waits_write p"

lemma lock_kept_same:
  assumes "lock_mem m" and "lock_view t p m"
    and "holds_read p' = holds_read p" "waits_read p' = waits_read p" "holds_write p' = holds_write p" "waits_write p' = waits_write p"
    and "rm_readers m' = rm_readers m" "rm_queue m' = rm_queue m" "rm_pending m' = rm_pending m" "rm_writer m' = rm_writer m"
  shows "lock_kept t m p' m'"
  using assms by (simp add: lock_kept_def lock_view_def lock_mem_def)

lemma RLock_kept:
  assumes "lock_mem m" and "lock_view t p m" and "outside p"
  shows "holds_read p' \<Longrightarrow> \<not> waits_read p' \<Longrightarrow> \<not> holds_write p' \<Longrightarrow> \<not> waits_write p' \<Longrightarrow> snd (RLock t m) \<Longrightarrow> lock_kept t m p' (fst (RLock t m))"
    and "\<not> holds_read p' \<Longrightarrow> waits_read p' \<Longrightarrow> \<not> holds_write p' \<Longrightarrow> \<not> waits_write p' \<Longrightarrow> \<not> snd (RLock t m) \<Longrightarrow> lock_kept t m p' (fst (RLock t m))"
proof -
  have v: "t \<notin> rm_readers m" "t \<notin> rm_queue m" "rm_writer m \<noteq> Some t" "rm_pending m \<noteq> Some t"
    using assms(2,3) by (simp_all add: lock_view_def outside_def)
  show "holds_read p' \<Longrightarrow> \<not> waits_read p' \<Longrightarrow> \<not> holds_write p' \<Longrightarrow> \<not> waits_write p' \<Longrightarrow> snd (RLock t m) \<Longrightarrow> lock_kept t m p' (fst (RLock t m))"
    using assms(1) v by (simp add: RLock_def lock_kept_def lock_view_def lock_mem_def split: if_splits)
  show "\<not> holds_read p' \<Longrightarrow> waits_read p' \<Longrightarrow> \<not> holds_write p' \<Longrightarrow> \<not> waits_write p' \<Longrightarrow> \<not> snd (RLock t m) \<Longrightarrow> lock_kept t m p' (fst (RLock t m))"
    using assms(1) v by (cases "rm_writer m"; cases "rm_pending m"; simp add: RLock_def lock_kept_def lock_view_def lock_mem_def split: if_splits)
qed

lemma RUnlock_kept:
  assumes "lock_mem m" and "lock_view t p m" and "holds_read p" "\<not> holds_write p" "\<not> waits_write p" "\<not> waits_read p" and "outside p'"
  shows "lock_kept t m p' (RUnlock t m)"
  using assms by (simp add: RUnlock_def lock_kept_def lock_view_def lock_mem_def outside_def)

lemma Lock_kept:
  assumes "lock_mem m" and "lock_view t p m" and "outside p" and "rm_writer m = None" "rm_pending m = None"
    and "waits_write p'" "\<not> waits_read p'" "\<not> holds_read p'" "\<not> holds_write p'"
  shows "lock_kept t m p' (m\<lparr>rm_pending := Some t\<rparr>)"
  using assms by (simp add: lock_kept_def lock_view_def lock_mem_def outside_def)

lemma LockWait_kept:
  assumes "lock_mem m" and "lock_view t p m" and "waits_write p" "\<not> waits_read p" "\<not> holds_read p" "rm_readers m = {}"
    and "\<not> waits_write p'" "\<not> waits_read p'" "\<not> holds_read p'" "holds_write p'"
  shows "lock_kept t m p' (m\<lparr>rm_pending := None, rm_writer := Some t\<rparr>)"
  using assms by (simp add: lock_kept_def lock_view_def lock_mem_def)

lemma Unlock_kept:
  assumes "lock_mem m" and "lock_view t p m" and "holds_write p" "\<not> waits_read p" "\<not> waits_write p"  and "outside p'"
  shows "lock_kept t m p' (Unlock m)"
  using assms by (simp add: Unlock_def lock_kept_def lock_view_def lock_mem_def outside_def) auto

lemma RWait_kept:
  assumes "lock_mem m" and "lock_view t p m" and "waits_read p" "\<not> holds_read p" "\<not> waits_write p" "\<not> holds_write p"
    and "t \<in> rm_readers m" "holds_read p'" "\<not> waits_read p'" "\<not> waits_write p'" "\<not> holds_write p'"
  shows "lock_kept t m p' m"
  using assms by (simp add: lock_kept_def lock_view_def)

lemma reg_thread_lock:
  assumes "reg_thread t ids m p = Some (m', p', ob)" and "lock_view t p m" and "lock_mem m"
  shows "lock_kept t m p' m'"
  using assms by (cases "(t, ids, m, p)" rule: reg_thread.cases)
    (auto simp: outside_def Let_def split_beta split: if_splits option.splits outcome.splits
      intro: RLock_kept RUnlock_kept Lock_kept LockWait_kept Unlock_kept RWait_kept lock_kept_same)

lemma lock_ok_step:
  assumes "lock_ok s" and "reg_thread t ids (gs_mem s) (gs_pc s t) = Some (m, p, ob)"
  shows "lock_ok (s\<lparr>gs_mem := m, gs_pc := (gs_pc s)(t := p)\<rparr>)"
  using assms(1) reg_thread_lock [OF assms(2)] by (simp add: lock_ok_def lock_kept_def)

lemma lock_exclusion:
  assumes "lock_ok s" and "holds_write (gs_pc s t)" and "u \<noteq> t"
  shows "\<not> holds_read (gs_pc s u) \<and> \<not> holds_write (gs_pc s u)"
proof -
  have "rm_writer (gs_mem s) = Some t" using assms(1,2) by (auto simp: lock_ok_def lock_view_def)
  moreover have "lock_view u (gs_pc s u) (gs_mem s)" "lock_mem (gs_mem s)" using assms(1) by (simp_all add: lock_ok_def)
  ultimately show ?thesis using assms(3) by (auto simp: lock_view_def lock_mem_def)
qed

lemma knows_step:
  assumes "reg_thread t ids m p = Some (m', p', ob)" and "knows (rg_breakers (rm_rg m)) p"
  shows "knows (rg_breakers (rm_rg m')) p'"
  using assms by (cases "(t, ids, m, p)" rule: reg_thread.cases)
    (auto simp: rw_defs Let_def split: if_splits option.splits outcome.splits)

text \<open>What another goroutine knows survives the insertion, which excludes readers.\<close>

lemma knows_frame: "knows bs p \<Longrightarrow> \<not> holds_read p \<Longrightarrow> \<not> holds_write p \<Longrightarrow> knows bs' p"
  by (cases p) auto

lemma bs_ok_insert:
  assumes "bs_ok rg" and "rg_breakers rg i = None"
  shows "bs_ok (rg\<lparr>rg_breakers := (rg_breakers rg)(i \<mapsto> length (rg_heap rg)), rg_heap := rg_heap rg @ [b]\<rparr>)"
proof -
  have "length (rg_heap rg) \<notin> ran (rg_breakers rg)" using assms(1) by (auto simp: bs_ok_def)
  then have "inj_on ((rg_breakers rg)(i \<mapsto> length (rg_heap rg))) (insert i (dom (rg_breakers rg)))"
    using assms by (auto simp: bs_ok_def inj_on_def ran_def domIff)
  then show ?thesis using assms by (auto simp: bs_ok_def)
qed

lemma rinv_thread:
  assumes inv: "rinv s" and st: "reg_thread t ids (gs_mem s) (gs_pc s t) = Some (m, p, ob)"
  shows "rinv (s\<lparr>gs_mem := m, gs_pc := (gs_pc s)(t := p)\<rparr>)"
proof -
  have lk: "lock_ok s" and bs: "bs_ok (rm_rg (gs_mem s))" and kn: "knows (gs_map s) (gs_pc s u)" for u
    using inv by (auto simp: rinv_def)
  note lk' = lock_ok_step [OF lk st]
  from reg_thread_map [OF st] have "bs_ok (rm_rg m) \<and> (\<forall>u. u \<noteq> t \<longrightarrow> knows (rg_breakers (rm_rg m)) (gs_pc s u))"
  proof (elim disjE exE conjE)
    assume "rm_rg m = rm_rg (gs_mem s)"
    then show ?thesis using bs kn by simp
  next
    fix i b
    assume p: "gs_pc s t = G_New i"
      and m: "rm_rg m = (rm_rg (gs_mem s))\<lparr>rg_breakers := (gs_map s)(i \<mapsto> length (rg_heap (rm_rg (gs_mem s)))),
         rg_heap := rg_heap (rm_rg (gs_mem s)) @ [b]\<rparr>"
    have "\<not> holds_read (gs_pc s u) \<and> \<not> holds_write (gs_pc s u)" if "u \<noteq> t" for u
      using lock_exclusion [OF lk _ that] p by simp
    moreover have "gs_map s i = None" using kn [of t] p by simp
    ultimately show ?thesis using bs_ok_insert [OF bs, of i b] m knows_frame [OF kn] by auto
  qed
  then show ?thesis using lk' knows_step [OF st kn] by (simp add: rinv_def)
qed

lemma rinv_step: "rinv s \<Longrightarrow> rstep s l s' \<Longrightarrow> rinv s'"
proof (erule rstep.cases)
  fix u t c
  assume "rinv s" "s = u" "gs_pc u t = G_Idle" "s' = u\<lparr>gs_pc := (gs_pc u)(t := reg_entry c)\<rparr>"
  moreover from this have "lock_view t G_Idle (gs_mem u)" by (metis rinv_def lock_ok_def)
  ultimately show "rinv s'" by (cases c) (auto simp: rinv_def lock_ok_def lock_view_def)
next
  fix t ids u m p ob
  assume "rinv s" "s = u" "s' = u\<lparr>gs_mem := m, gs_pc := (gs_pc u)(t := p)\<rparr>"
    "reg_thread t ids (gs_mem u) (gs_pc u t) = Some (m, p, ob)"
  then show "rinv s'" by (simp add: rinv_thread)
qed (simp add: rinv_def lock_ok_def lock_view_def lock_mem_def bs_ok_def)

interpretation rc: transition_system "\<lambda>s. s = rinit cfg" rstep rinv for cfg
  by unfold_locales (auto simp: rinv_init intro: rinv_step)

section \<open>What was returned stays in the map\<close>

lemma rstep_keeps:
  assumes "rinv s" and "rstep s l s'" and "gs_map s i = Some b"
  shows "gs_map s' i = Some b"
  using assms(2)
proof cases
  case (step t ids m p ob)
  from reg_thread_map [OF step(3)] show ?thesis
  proof (elim disjE exE conjE)
    fix j br
    assume "gs_pc s t = G_New j"
    then have "gs_map s j = None" using assms(1) by (auto simp: rinv_def dest!: spec [of _ t])
    moreover assume "rm_rg m = (rm_rg (gs_mem s))\<lparr>rg_breakers := (gs_map s)(j \<mapsto> length (rg_heap (rm_rg (gs_mem s)))),
         rg_heap := rg_heap (rm_rg (gs_mem s)) @ [br]\<rparr>"
    ultimately show ?thesis using step assms(3) by auto
  qed (use step assms(3) in simp)
qed (use assms(3) in auto)

lemma reg_thread_returns:
  assumes "reg_thread t ids m p = Some (m', p', G_Return i b)" and "knows (rg_breakers (rm_rg m)) p"
  shows "rg_breakers (rm_rg m') i = Some b"
  using assms by (cases "(t, ids, m, p)" rule: reg_thread.cases)
    (auto simp: rw_defs Let_def split: if_splits option.splits outcome.splits)

lemma states_returns:
  assumes "reg_thread t ids m p = Some (m', p', St_Return out)" and "knows (rg_breakers (rm_rg m)) p"
  shows "dom out = dom (rg_breakers (rm_rg m'))"
proof -
  have "p = St_RUnlock out \<and> rm_rg m' = rm_rg m"
    using assms(1) by (cases "(t, ids, m, p)" rule: reg_thread.cases)
      (auto simp: rw_defs Let_def split: if_splits option.splits outcome.splits)
  with assms(2) show ?thesis by simp
qed

inductive_cases rstep_GStepE: "rstep s (GStep t ob) s'"

lemma states_snapshot:
  assumes "rinv s" and "rstep s (GStep t (St_Return out)) s'"
  shows "dom out = dom (gs_map s')"
  using assms(2)
proof (rule rstep_GStepE)
  fix ids m p
  assume st: "reg_thread t ids (gs_mem s) (gs_pc s t) = Some (m, p, St_Return out)"
    and "s' = s\<lparr>gs_mem := m, gs_pc := (gs_pc s)(t := p)\<rparr>"
  then show ?thesis using states_returns [OF st] assms(1) by (simp add: rinv_def)
qed

lemma returned_in_map:
  "run rstep s ls s' \<Longrightarrow> rinv s \<Longrightarrow> GStep t (G_Return i b) \<in> set ls \<Longrightarrow> gs_map s' i = Some b"
proof (induction rule: run.induct)
  case (run_snoc s ls s1 l s2)
  have inv: "rinv s1" using rc.run_invar run_snoc by blast
  show ?case
  proof (cases "GStep t (G_Return i b) \<in> set ls")
    case True
    then show ?thesis using rstep_keeps [OF inv run_snoc(2)] run_snoc by blast
  next
    case False
    then have l: "l = GStep t (G_Return i b)" using run_snoc by simp
    from run_snoc(2) l obtain ids m p where s2: "s2 = s1\<lparr>gs_mem := m, gs_pc := (gs_pc s1)(t := p)\<rparr>"
      and st: "reg_thread t ids (gs_mem s1) (gs_pc s1 t) = Some (m, p, G_Return i b)"
      by (auto elim: rstep_GStepE)
    then show ?thesis using reg_thread_returns [OF st] inv by (simp add: rinv_def)
  qed
qed simp

section \<open>Progress\<close>

text \<open>A goroutine inside its critical section can always do its next operation.\<close>

lemma bs_finite: "bs_ok rg \<Longrightarrow> finite (dom (rg_breakers rg))"
proof -
  assume ok: "bs_ok rg"
  have "rg_breakers rg ` dom (rg_breakers rg) \<subseteq> Some ` {..<length (rg_heap rg)}"
    using ok by (auto simp: bs_ok_def ran_def)
  then have "finite (rg_breakers rg ` dom (rg_breakers rg))" by (rule finite_subset) simp
  then show ?thesis using ok finite_imageD by (auto simp: bs_ok_def)
qed

lemma holder_moves:
  assumes "rinv s" and "holds_read (gs_pc s t) \<or> holds_write (gs_pc s t)"
  shows "\<exists>ids. reg_thread t ids (gs_mem s) (gs_pc s t) \<noteq> None"
proof -
  obtain ids where "distinct ids \<and> set ids = dom (gs_map s)"
    using bs_finite [of "rm_rg (gs_mem s)"] finite_distinct_list assms(1) by (metis rinv_def)
  moreover have "knows (gs_map s) (gs_pc s t)" using assms(1) by (simp add: rinv_def)
  ultimately show ?thesis using assms(2)
    by (cases "(t, ids, gs_mem s, gs_pc s t)" rule: reg_thread.cases)
      (auto simp: Let_def intro!: exI [of _ ids] split: option.splits outcome.splits)
qed

text \<open>When no goroutine is in its critical section, the lock lets somebody in.\<close>

lemma waiter_moves:
  assumes "lock_ok s" and "gs_pc s t \<noteq> G_Idle" and none: "\<And>u. \<not> holds_read (gs_pc s u) \<and> \<not> holds_write (gs_pc s u)"
  shows "\<exists>u. reg_thread u [] (gs_mem s) (gs_pc s u) \<noteq> None"
proof -
  have v: "lock_view u (gs_pc s u) (gs_mem s)" for u using assms(1) by (simp add: lock_ok_def)
  have free: "rm_writer (gs_mem s) = None"
    using none v by (metis lock_view_def option.exhaust)
  show ?thesis
  proof (cases "rm_readers (gs_mem s) = {}")
    case False
    then obtain u where u: "u \<in> rm_readers (gs_mem s)" by auto
    then have "waits_read (gs_pc s u)" using v [of u] none by (simp add: lock_view_def)
    then show ?thesis using u by (intro exI [of _ u]) (cases "gs_pc s u"; simp)
  next
    case True
    show ?thesis
    proof (cases "rm_pending (gs_mem s)")
      case (Some u)
      then have "waits_write (gs_pc s u)" using v [of u] by (simp add: lock_view_def)
      then show ?thesis using True by (intro exI [of _ u]) (cases "gs_pc s u"; simp)
    next
      case None
      then have "rm_queue (gs_mem s) = {}" using assms(1) free by (auto simp: lock_ok_def lock_mem_def)
      then have "\<not> waits_read (gs_pc s t)" "\<not> waits_write (gs_pc s t)" using v [of t] True None by (simp_all add: lock_view_def)
      then show ?thesis using assms(2) none [of t] free None
        by (intro exI [of _ t]) (cases "gs_pc s t"; simp add: RLock_def)
    qed
  qed
qed

lemma some_move:
  assumes inv: "rinv s" and "gs_pc s t \<noteq> G_Idle"
  shows "\<exists>u ob s'. rstep s (GStep u ob) s'"
proof -
  have "\<exists>u ids. reg_thread u ids (gs_mem s) (gs_pc s u) \<noteq> None"
  proof (cases "\<exists>u. holds_read (gs_pc s u) \<or> holds_write (gs_pc s u)")
    case True
    then show ?thesis using holder_moves [OF inv] by blast
  next
    case False
    then show ?thesis using waiter_moves [OF _ assms(2)] inv unfolding rinv_def by blast
  qed
  then obtain u ids m p ob where "reg_thread u ids (gs_mem s) (gs_pc s u) = Some (m, p, ob)" by auto
  from rstep.step [OF this] show ?thesis by blast
qed

section \<open>Schedules\<close>

text \<open>Which goroutine begins a call, does its next operation, or begins a loop over the map.\<close>

datatype gchoice = GBegin nat gcall | GGo nat "string list"

fun gsched :: "gstate \<Rightarrow> gchoice \<Rightarrow> (glabel \<times> gstate) option" where
  "gsched s (GBegin t c) =
     (if gs_pc s t = G_Idle then Some (GStart t c, s\<lparr>gs_pc := (gs_pc s)(t := reg_entry c)\<rparr>) else None)"
| "gsched s (GGo t ids) =
     (case reg_thread t ids (gs_mem s) (gs_pc s t) of
        None \<Rightarrow> None
      | Some (m, p, ob) \<Rightarrow> Some (GStep t ob, s\<lparr>gs_mem := m, gs_pc := (gs_pc s)(t := p)\<rparr>))"

interpretation gsc: scheduler rstep gsched
proof unfold_locales
  show "rstep s l s'" if "gsched s c = Some (l, s')" for s c l s'
    using that by (cases c) (auto intro: rstep.intros split: if_splits option.splits)
qed

text \<open>
  Requests 0 and 1 miss the breaker of \<open>b1\<close> at the same time; 0 makes it and 1 finds it when it
  has the lock; then 2 takes a snapshot.
\<close>

definition race :: "gchoice list" where
  "race = [GBegin 0 (CallGet ''b1''), GBegin 1 (CallGet ''b1'')] @
     map (\<lambda>t. GGo t []) [0, 1, 0, 1, 1, 0, 0, 0, 0, 0, 0, 1, 1, 1, 1] @
     GBegin 2 CallStates # map (\<lambda>t. GGo t [''b1'']) [2, 2, 2, 2, 2]"

section \<open>Properties\<close>

text \<open>C9: one breaker per backend, under any interleaving. Whatever calls of \<open>Get\<close> and \<open>States\<close> run
  at the same time, two calls of \<open>Get\<close> that return give the same breaker if and only if they asked
  for the same backend; the breaker exists; nobody reads the map while a goroutine is about to
  write it; when no call is in progress the lock is free, also after a panic in \<open>New\<close>; and a
  snapshot returned by \<open>States\<close> has exactly the backends that are in the map when it returns.\<close>

theorem Registry_concurrent_one_breaker:
  assumes "run rstep (rinit cfg) ls s"
  shows "(GStep t (G_Return i b) \<in> set ls \<longrightarrow> GStep u (G_Return j c) \<in> set ls \<longrightarrow> (b = c \<longleftrightarrow> i = j)) \<and>
    (GStep t (G_Return i b) \<in> set ls \<longrightarrow> b < length (rg_heap (rm_rg (gs_mem s)))) \<and>
    (gs_pc s t = G_New i \<longrightarrow> u \<noteq> t \<longrightarrow> \<not> holds_read (gs_pc s u) \<and> \<not> holds_write (gs_pc s u)) \<and>
    ((\<forall>v. gs_pc s v = G_Idle) \<longrightarrow> rm_readers (gs_mem s) = {} \<and> rm_writer (gs_mem s) = None) \<and>
    (rstep s (GStep t (St_Return out)) s' \<longrightarrow> dom out = dom (gs_map s'))"
proof -
  have inv: "rinv s" using rc.reachable_invar [OF refl assms] .
  note ret = returned_in_map [OF assms rinv_init]
  have bs: "bs_ok (rm_rg (gs_mem s))" and lk: "lock_ok s" using inv by (auto simp: rinv_def)
  have "b = c \<longleftrightarrow> i = j" if "gs_map s i = Some b" "gs_map s j = Some c"
    using bs that by (auto simp: bs_ok_def inj_on_def domIff)
  moreover have "b < length (rg_heap (rm_rg (gs_mem s)))" if "gs_map s i = Some b"
    using bs that by (auto simp: bs_ok_def ran_def)
  moreover have "\<not> holds_read (gs_pc s u) \<and> \<not> holds_write (gs_pc s u)" if "gs_pc s t = G_New i" "u \<noteq> t"
    using lock_exclusion [OF lk _ that(2)] that(1) by simp
  moreover have "rm_readers (gs_mem s) = {} \<and> rm_writer (gs_mem s) = None" if idle: "\<forall>v. gs_pc s v = G_Idle"
  proof -
    have "v \<notin> rm_readers (gs_mem s)" "rm_writer (gs_mem s) \<noteq> Some v" for v
      using lk idle unfolding lock_ok_def lock_view_def by auto
    then show ?thesis by (metis all_not_in_conv option.exhaust)
  qed
  moreover have "dom out = dom (gs_map s')" if "rstep s (GStep t (St_Return out)) s'"
    using inv that by (rule states_snapshot)
  ultimately show ?thesis using ret by blast
qed

theorem Registry_concurrent_one_breaker_witness:
  "\<exists>ls s b c. run rstep (rinit cb_DefaultConfig) ls s \<and> GStep 0 (G_Return ''b1'' b) \<in> set ls \<and>
     GStep 1 (G_Return ''b1'' c) \<in> set ls \<and> b = c \<and>
     GStep 2 (St_Return [''b1'' \<mapsto> ''closed'']) \<in> set ls"
proof -
  obtain ls s where ex: "exec gsched (rinit cb_DefaultConfig) race = Some (ls, s)"
    and ls: "GStep 0 (G_Return ''b1'' 0) \<in> set ls" "GStep 1 (G_Return ''b1'' 0) \<in> set ls"
      "GStep 2 (St_Return [''b1'' \<mapsto> ''closed'']) \<in> set ls"
    by (simp add: race_def rinit_def NewRegistry_def Breaker_New_def Breaker_State_def cb_DefaultConfig_def rw_defs Let_def
        insert_Diff_if)
  from Registry_concurrent_one_breaker [OF gsc.exec_run [OF ex]] gsc.exec_run [OF ex] ls
  show ?thesis by blast
qed

text \<open>C10: the registry cannot deadlock. In every state the program can reach, as long as some call of
  \<open>Get\<close> or \<open>States\<close> is in progress, some goroutine can do the next operation of its call, also where readers
  wait behind a writer that waits for other readers.\<close>

theorem Registry_deadlock_free:
  assumes "run rstep (rinit cfg) ls s" and "gs_pc s t \<noteq> G_Idle"
  shows "\<exists>u ob s'. rstep s (GStep u ob) s'"
  using rc.reachable_invar [OF refl assms(1)] assms(2) by (rule some_move)

text \<open>While 1 reads the map, 0 has announced that it will write and 2 waits behind it.\<close>

theorem Registry_deadlock_free_witness:
  "\<exists>ls s. run rstep (rinit cb_DefaultConfig) ls s \<and> gs_pc s 2 = G_RWait ''b1'' \<and> rm_pending (gs_mem s) = Some 0 \<and>
     rm_readers (gs_mem s) = {1} \<and> (\<exists>u ob s'. rstep s (GStep u ob) s')"
proof -
  obtain ls s where ex: "exec gsched (rinit cb_DefaultConfig) (map (\<lambda>t. GBegin t (CallGet ''b1'')) [0, 1, 2] @
      map (\<lambda>t. GGo t []) [0, 1, 0, 0, 0, 2]) = Some (ls, s)"
    and s: "gs_pc s 2 = G_RWait ''b1''" "rm_pending (gs_mem s) = Some 0" "rm_readers (gs_mem s) = {1}"
    by (simp add: rinit_def NewRegistry_def rw_defs Let_def insert_Diff_if)
  note r = gsc.exec_run [OF ex]
  from Registry_deadlock_free [OF r, of 2] s have "\<exists>u ob s'. rstep s (GStep u ob) s'" by simp
  with r s show ?thesis by blast
qed

end
