(* ===== verification/Backend.thy ===== *)
theory Backend
  imports Prelude
begin

text \<open>
  \<open>internal/backend\<close>: a backend's record and its operations (\<open>backend.go\<close>), and the
  pool that holds the backends (\<open>pool.go\<close>). Backends are shared by pointer between the
  pool, the selectors and the health checkers, so they live in a heap (the list of allocated
  records) and everything else holds references, positions in that list.
\<close>

section \<open>Backends\<close>

datatype Health = HealthHealthy | HealthUnhealthy | HealthProbation | HealthDisabled

text \<open>Statements about all health values are decided by evaluation.\<close>

instantiation Health :: enum
begin

definition enum_Health :: "Health list" where
  "enum_Health = [HealthHealthy, HealthUnhealthy, HealthProbation, HealthDisabled]"

definition enum_all_Health :: "(Health \<Rightarrow> bool) \<Rightarrow> bool" where
  "enum_all_Health P \<longleftrightarrow> P HealthHealthy \<and> P HealthUnhealthy \<and> P HealthProbation \<and> P HealthDisabled"

definition enum_ex_Health :: "(Health \<Rightarrow> bool) \<Rightarrow> bool" where
  "enum_ex_Health P \<longleftrightarrow> P HealthHealthy \<or> P HealthUnhealthy \<or> P HealthProbation \<or> P HealthDisabled"

instance
proof
  show univ: "UNIV = set (enum_class.enum :: Health list)"
    unfolding enum_Health_def using Health.exhaust by auto
  show "distinct (enum_class.enum :: Health list)" by (simp add: enum_Health_def)
  show "enum_class.enum_all P \<longleftrightarrow> Ball UNIV P" "enum_class.enum_ex P \<longleftrightarrow> Bex UNIV P" for P :: "Health \<Rightarrow> bool"
    unfolding enum_all_Health_def enum_ex_Health_def univ enum_Health_def by auto
qed

end

text \<open>The parts of \<open>net/url.URL\<close> that the program reads.\<close>

record url =
  u_Scheme :: string
  u_Host :: string
  u_Path :: string
  u_RawQuery :: string

record backend =
  b_ID :: string
  b_URL :: url
  b_Weight :: int
  b_activeConns :: int64
  b_health :: Health

type_synonym bref = nat
type_synonym heap = "backend list"

text \<open>\<open>url.Parse\<close> is a parameter: it returns an error message or the parsed URL.\<close>

definition Backend_New :: "(string \<Rightarrow> string + url) \<Rightarrow> string \<Rightarrow> string \<Rightarrow> int \<Rightarrow> string + backend" where
  "Backend_New url_Parse i rawURL weight =
     (case url_Parse rawURL of
        Inl err \<Rightarrow> Inl err
      | Inr u \<Rightarrow>
          (let weight = (if weight \<le> 0 then 1 else weight)
           in Inr \<lparr>b_ID = i, b_URL = u, b_Weight = weight, b_activeConns = 0,
                   b_health = HealthHealthy\<rparr>))"

definition IncConns :: "backend \<Rightarrow> backend" where
  "IncConns b = b\<lparr>b_activeConns := b_activeConns b + 1\<rparr>"

definition DecConns :: "backend \<Rightarrow> backend" where
  "DecConns b = b\<lparr>b_activeConns := b_activeConns b + (- 1)\<rparr>"

definition ActiveConns :: "backend \<Rightarrow> int64" where
  "ActiveConns b = b_activeConns b"

definition SetHealth :: "Health \<Rightarrow> backend \<Rightarrow> backend" where
  "SetHealth h b = b\<lparr>b_health := h\<rparr>"

definition GetHealth :: "backend \<Rightarrow> Health" where
  "GetHealth b = b_health b"

definition IsHealthy :: "backend \<Rightarrow> bool" where
  "IsHealthy b \<longleftrightarrow> b_health b = HealthHealthy"

text \<open>
  \<open>SetWeight\<close> stores through \<open>(*int64)(nil)\<close> before it writes the weight.
\<close>

definition SetWeight :: "int \<Rightarrow> backend \<Rightarrow> backend outcome" where
  "SetWeight w b =
     (let w = (if w < 0 then 0 else w)
      in bind_outcome (atomic_access (None :: int64 option)) (\<lambda>_. Return (b\<lparr>b_Weight := w\<rparr>)))"

record snapshot =
  s_ID :: string
  s_Addr :: string
  s_Weight :: int
  s_ActiveConns :: int64
  s_Health :: string

text \<open>\<open>URL.String\<close> is a parameter.\<close>

fun Health_String :: "Health \<Rightarrow> string" where
  "Health_String HealthUnhealthy = ''unhealthy''"
| "Health_String HealthProbation = ''probation''"
| "Health_String HealthDisabled = ''disabled''"
| "Health_String HealthHealthy = ''healthy''"

lemma Health_String_inj: "\<forall>x y. Health_String x = Health_String y \<longrightarrow> x = y"
  by code_simp

definition Backend_Snapshot :: "(url \<Rightarrow> string) \<Rightarrow> backend \<Rightarrow> snapshot" where
  "Backend_Snapshot url_String b =
     \<lparr>s_ID = b_ID b, s_Addr = url_String (b_URL b), s_Weight = b_Weight b,
      s_ActiveConns = ActiveConns b,
      s_Health = Health_String (GetHealth b)\<rparr>"

section \<open>The pool\<close>

record pool =
  p_backends :: "bref list"

definition NewPool :: "bref list \<Rightarrow> pool" where
  "NewPool bs = \<lparr>p_backends = bs\<rparr>"

definition Pool_Backends :: "pool \<Rightarrow> bref list" where
  "Pool_Backends p = p_backends p"

fun Healthy_loop :: "heap \<Rightarrow> bref list \<Rightarrow> bref list \<Rightarrow> bref list" where
  "Healthy_loop h [] out = out"
| "Healthy_loop h (b # bs) out =
     (if IsHealthy (h ! b) then Healthy_loop h bs (out @ [b]) else Healthy_loop h bs out)"

definition Pool_Healthy :: "heap \<Rightarrow> pool \<Rightarrow> bref list" where
  "Pool_Healthy h p = Healthy_loop h (p_backends p) []"

definition Pool_Add :: "pool \<Rightarrow> bref \<Rightarrow> pool" where
  "Pool_Add p b = p\<lparr>p_backends := p_backends p @ [b]\<rparr>"

datatype pool_error = BackendNotFound string

text \<open>
  \<open>Remove\<close> scans for the first backend with the ID; \<open>seen\<close> is
  \<open>p.backends[:i]\<close> when the loop looks at index \<open>i\<close>.
\<close>

fun Remove_loop :: "heap \<Rightarrow> string \<Rightarrow> bref list \<Rightarrow> bref list \<Rightarrow> pool_error + bref list" where
  "Remove_loop h i seen [] = Inl (BackendNotFound i)"
| "Remove_loop h i seen (b # bs) =
     (if b_ID (h ! b) = i then Inr (seen @ bs) else Remove_loop h i (seen @ [b]) bs)"

definition Pool_Remove :: "heap \<Rightarrow> pool \<Rightarrow> string \<Rightarrow> pool_error + pool" where
  "Pool_Remove h p i =
     (case Remove_loop h i [] (p_backends p) of
        Inl e \<Rightarrow> Inl e
      | Inr bs \<Rightarrow> Inr (p\<lparr>p_backends := bs\<rparr>))"

fun Get_loop :: "heap \<Rightarrow> string \<Rightarrow> bref list \<Rightarrow> bref option" where
  "Get_loop h i [] = None"
| "Get_loop h i (b # bs) = (if b_ID (h ! b) = i then Some b else Get_loop h i bs)"

definition Pool_Get :: "heap \<Rightarrow> pool \<Rightarrow> string \<Rightarrow> bref option" where
  "Pool_Get h p i = Get_loop h i (p_backends p)"

definition Pool_Snapshots :: "(url \<Rightarrow> string) \<Rightarrow> heap \<Rightarrow> pool \<Rightarrow> snapshot list" where
  "Pool_Snapshots url_String h p = map (\<lambda>b. Backend_Snapshot url_String (h ! b)) (p_backends p)"

text \<open>Heap access by reference, and the well-formedness that keeps references allocated.\<close>

definition modify :: "heap \<Rightarrow> bref \<Rightarrow> (backend \<Rightarrow> backend) \<Rightarrow> heap" where
  "modify h r f = h[r := f (h ! r)]"

definition alloc :: "heap \<Rightarrow> backend \<Rightarrow> bref \<times> heap" where
  "alloc h b = (length h, h @ [b])"

definition wf_refs :: "heap \<Rightarrow> bref list \<Rightarrow> bool" where
  "wf_refs h bs \<longleftrightarrow> (\<forall>b\<in>set bs. b < length h)"

definition pool_ids :: "heap \<Rightarrow> pool \<Rightarrow> string multiset" where
  "pool_ids h p = mset (map (\<lambda>b. b_ID (h ! b)) (p_backends p))"

section \<open>Lemmas on backends and the heap\<close>

named_theorems backend_defs \<open>definitions of the backend operations\<close>

declare IncConns_def [backend_defs] DecConns_def [backend_defs] ActiveConns_def [backend_defs]
  SetHealth_def [backend_defs] GetHealth_def [backend_defs] IsHealthy_def [backend_defs]

lemma DecConns_IncConns [simp]: "DecConns (IncConns b) = b"
  by (simp add: backend_defs)

lemma length_modify [simp]: "length (modify h r f) = length h"
  by (simp add: modify_def)

lemma nth_modify: "b < length h \<Longrightarrow> modify h r f ! b = (if b = r then f (h ! b) else h ! b)"
  by (simp add: modify_def nth_list_update)

lemma modify_modify [simp]: "modify (modify h r f) r g = modify h r (g \<circ> f)"
  by (cases "r < length h") (simp_all add: modify_def list_update_beyond)

lemma modify_id: "(\<And>b. f b = b) \<Longrightarrow> modify h r f = h"
  by (simp add: modify_def)

lemma wf_refs_modify [simp]: "wf_refs (modify h r f) bs = wf_refs h bs"
  by (simp add: wf_refs_def)

lemma wf_refs_append [simp]: "wf_refs h (xs @ ys) \<longleftrightarrow> wf_refs h xs \<and> wf_refs h ys"
  by (auto simp: wf_refs_def)

lemma Healthy_loop_filter: "Healthy_loop h bs out = out @ filter (\<lambda>b. IsHealthy (h ! b)) bs"
  by (induction bs arbitrary: out) auto

lemma Pool_Healthy_filter: "Pool_Healthy h p = filter (\<lambda>b. IsHealthy (h ! b)) (p_backends p)"
  by (simp add: Pool_Healthy_def Healthy_loop_filter)

lemma Get_loop_Some: "Get_loop h i bs = Some b \<Longrightarrow> b \<in> set bs \<and> b_ID (h ! b) = i"
  by (induction bs) (auto split: if_splits)

lemma Get_loop_None: "Get_loop h i bs = None \<longleftrightarrow> i \<notin> (\<lambda>b. b_ID (h ! b)) ` set bs"
  by (induction bs) auto

lemma Remove_loop_remove1:
  "Remove_loop h i seen bs =
     (case Get_loop h i bs of
        None \<Rightarrow> Inl (BackendNotFound i)
      | Some b \<Rightarrow> Inr (seen @ remove1 b bs))"
  by (induction h i seen bs rule: Remove_loop.induct)
    (auto split: option.splits dest: Get_loop_Some)

lemma Pool_Remove_Get:
  "Pool_Remove h p i =
     (case Pool_Get h p i of
        None \<Rightarrow> Inl (BackendNotFound i)
      | Some b \<Rightarrow> Inr (p\<lparr>p_backends := remove1 b (p_backends p)\<rparr>))"
  by (simp add: Pool_Remove_def Pool_Get_def Remove_loop_remove1 split: option.split)

section \<open>The pool as a bag of IDs\<close>

text \<open>
  What the admin API relies on: adding, removing and looking up behave like a bag of
  IDs. An ID may occur several times, because \<open>Add\<close> does not look for duplicates.
\<close>

locale id_bag =
  fixes ids :: "'s \<Rightarrow> 'i multiset"
    and idof :: "'b \<Rightarrow> 'i"
    and add :: "'s \<Rightarrow> 'b \<Rightarrow> 's"
    and remove :: "'s \<Rightarrow> 'i \<Rightarrow> 'e + 's"
    and find :: "'s \<Rightarrow> 'i \<Rightarrow> 'b option"
  assumes ids_add: "ids (add s b) = add_mset (idof b) (ids s)"
    and remove_Inr: "remove s i = Inr s' \<Longrightarrow> ids s = add_mset i (ids s')"
    and remove_ok: "i \<in># ids s \<Longrightarrow> \<exists>s'. remove s i = Inr s'"
    and find_None: "find s i = None \<longleftrightarrow> i \<notin># ids s"
    and find_Some: "find s i = Some b \<Longrightarrow> idof b = i"
begin

lemma find_after_add: "\<exists>b'. find (add s b) (idof b) = Some b' \<and> idof b' = idof b"
proof -
  have "idof b \<in># ids (add s b)" by (simp add: ids_add)
  then obtain b' where "find (add s b) (idof b) = Some b'"
    using find_None by fastforce
  then show ?thesis using find_Some by blast
qed

lemma remove_counts: "remove s i = Inr s' \<Longrightarrow> count (ids s') i = count (ids s) i - 1"
  by (simp add: remove_Inr)

lemma remove_error: "i \<notin># ids s \<Longrightarrow> \<exists>e. remove s i = Inl e"
  by (cases "remove s i") (auto dest: remove_Inr)

lemma remove_unique_gone: "count (ids s) i = 1 \<Longrightarrow> remove s i = Inr s' \<Longrightarrow> find s' i = None"
  using remove_counts [of s i s'] by (simp add: find_None not_in_iff)

lemma remove_duplicate_stays: "1 < count (ids s) i \<Longrightarrow> remove s i = Inr s' \<Longrightarrow> find s' i \<noteq> None"
  using remove_counts [of s i s'] by (simp add: find_None not_in_iff)

end

lemma Pool_Get_None: "Pool_Get h p i = None \<longleftrightarrow> i \<notin># pool_ids h p"
  by (simp add: Pool_Get_def pool_ids_def Get_loop_None)

lemma Pool_Get_Some: "Pool_Get h p i = Some b \<Longrightarrow> b \<in> set (p_backends p) \<and> b_ID (h ! b) = i"
  by (auto simp: Pool_Get_def dest: Get_loop_Some)

lemma Pool_Remove_Inr: "Pool_Remove h p i = Inr p' \<Longrightarrow> pool_ids h p = add_mset i (pool_ids h p')"
  by (auto simp: Pool_Remove_Get pool_ids_def image_mset_Diff split: option.splits
      dest!: Pool_Get_Some intro: insert_DiffM)

lemma Pool_Remove_ok: "i \<in># pool_ids h p \<Longrightarrow> \<exists>p'. Pool_Remove h p i = Inr p'"
  using Pool_Get_None [of h p i] by (auto simp: Pool_Remove_Get split: option.splits)

interpretation pool_bag: id_bag "pool_ids h" "\<lambda>b. b_ID (h ! b)" Pool_Add "Pool_Remove h" "Pool_Get h"
  for h
proof unfold_locales
  show "pool_ids h (Pool_Add p b) = add_mset (b_ID (h ! b)) (pool_ids h p)" for p b
    by (simp add: pool_ids_def Pool_Add_def)
qed (auto simp: Pool_Remove_Inr Pool_Remove_ok Pool_Get_None Pool_Get_Some)

section \<open>Properties\<close>

text \<open>A backend for concrete instances.\<close>

definition sample_backend :: "Health \<Rightarrow> backend" where
  "sample_backend hl = \<lparr>b_ID = ''b1'', b_URL = \<lparr>u_Scheme = ''http'', u_Host = ''h:80'', u_Path = [], u_RawQuery = []\<rparr>,
     b_Weight = 1, b_activeConns = 0, b_health = hl\<rparr>"

text \<open>Removing by ID takes out exactly the first backend with that ID and keeps the order
  of all others; when no backend has the ID the pool is unchanged and the error names the ID.\<close>

theorem Pool_Remove_first_only:
  "Pool_Remove h p i =
     (case Pool_Get h p i of
        None \<Rightarrow> Inl (BackendNotFound i)
      | Some b \<Rightarrow> Inr (p\<lparr>p_backends := remove1 b (p_backends p)\<rparr>)) \<and>
   (Pool_Get h p i = None \<longleftrightarrow> i \<notin># pool_ids h p)"
  by (simp add: Pool_Remove_Get Pool_Get_None)

end
