(* ===== verification/Http.thy ===== *)
theory Http
  imports Backend
begin

text \<open>
  The part of Go's standard library that the program's handlers are written against:
  \<open>net.SplitHostPort\<close>, the canonical header keys and the operations of
  \<open>http.Header\<close>, requests, and the response writer of \<open>net/http\<close>, as documented; and
  the program's own wrappers around that writer (\<open>responseRecorder\<close> of
  \<open>internal/middleware/logger.go\<close>, \<open>gzipResponseWriter\<close> of \<open>gzip.go\<close>,
  \<open>responseWriter\<close> of \<open>internal/proxy/middleware.go\<close>, \<open>statusRecorder\<close> of
  \<open>internal/metrics/middleware.go\<close>), whose \<open>Write\<close> and \<open>WriteHeader\<close> methods are the
  cases of \<open>stack_Write\<close> and \<open>stack_WriteHeader\<close>.
\<close>

section \<open>Host and port\<close>

fun index_byte :: "char \<Rightarrow> string \<Rightarrow> nat option" where
  "index_byte c [] = None"
| "index_byte c (x # xs) = (if x = c then Some 0 else map_option Suc (index_byte c xs))"

fun last_index_byte :: "char \<Rightarrow> string \<Rightarrow> nat option" where
  "last_index_byte c [] = None"
| "last_index_byte c (x # xs) =
     (case last_index_byte c xs of
        Some i \<Rightarrow> Some (Suc i)
      | None \<Rightarrow> if x = c then Some 0 else None)"

datatype addr_error = MissingPort | TooManyColons | MissingBracket | UnexpectedBracket

text \<open>\<open>net.SplitHostPort\<close>; on an error both strings are empty, which \<open>split_host\<close> returns.\<close>

definition SplitHostPort :: "string \<Rightarrow> addr_error + string \<times> string" where
  "SplitHostPort hp =
     (case last_index_byte CHR '':'' hp of
        None \<Rightarrow> Inl MissingPort
      | Some i \<Rightarrow>
          if hp ! 0 = CHR ''['' then
            (case index_byte CHR '']'' hp of
               None \<Rightarrow> Inl MissingBracket
             | Some e \<Rightarrow>
                 if e + 1 = length hp then Inl MissingPort
                 else if e + 1 = i then
                   (if index_byte CHR ''['' (drop 1 hp) \<noteq> None then Inl UnexpectedBracket
                    else if index_byte CHR '']'' (drop (e + 1) hp) \<noteq> None then Inl UnexpectedBracket
                    else Inr (take (e - 1) (drop 1 hp), drop (i + 1) hp))
                 else if hp ! (e + 1) = CHR '':'' then Inl TooManyColons
                 else Inl MissingPort)
          else if index_byte CHR '':'' (take i hp) \<noteq> None then Inl TooManyColons
          else if index_byte CHR ''['' hp \<noteq> None then Inl UnexpectedBracket
          else if index_byte CHR '']'' hp \<noteq> None then Inl UnexpectedBracket
          else Inr (take i hp, drop (i + 1) hp))"

definition split_host :: "string \<Rightarrow> string" where
  "split_host hp = (case SplitHostPort hp of Inl _ \<Rightarrow> [] | Inr (host, _) \<Rightarrow> host)"

section \<open>Headers\<close>

definition is_lower :: "char \<Rightarrow> bool" where
  "is_lower c \<longleftrightarrow> (97::nat) \<le> of_char c \<and> (of_char c :: nat) \<le> 122"

definition is_upper :: "char \<Rightarrow> bool" where
  "is_upper c \<longleftrightarrow> (65::nat) \<le> of_char c \<and> (of_char c :: nat) \<le> 90"

definition is_digit :: "char \<Rightarrow> bool" where
  "is_digit c \<longleftrightarrow> (48::nat) \<le> of_char c \<and> (of_char c :: nat) \<le> 57"

definition to_upper :: "char \<Rightarrow> char" where
  "to_upper c = (if is_lower c then char_of ((of_char c :: nat) - 32) else c)"

definition to_lower :: "char \<Rightarrow> char" where
  "to_lower c = (if is_upper c then char_of ((of_char c :: nat) + 32) else c)"

text \<open>The bytes of a token (RFC 7230), which a header field name consists of.\<close>

definition valid_field_byte :: "char \<Rightarrow> bool" where
  "valid_field_byte c \<longleftrightarrow> is_lower c \<or> is_upper c \<or> is_digit c \<or>
     c \<in> set ''!#$%&'' \<or> c = CHR 0x27 \<or> c \<in> set ''*+-.^_'' \<or> c = CHR 0x60 \<or> c \<in> set ''|~''"

fun canon_loop :: "bool \<Rightarrow> string \<Rightarrow> string" where
  "canon_loop up [] = []"
| "canon_loop up (c # cs) =
     (let c' = (if up then to_upper c else to_lower c) in c' # canon_loop (c' = CHR ''-'') cs)"

text \<open>\<open>textproto.CanonicalMIMEHeaderKey\<close>: a name with an invalid byte is left alone.\<close>

definition CanonicalKey :: "string \<Rightarrow> string" where
  "CanonicalKey s = (if list_all valid_field_byte s then canon_loop True s else s)"

type_synonym header = "string \<rightharpoonup> string list"

definition Header_Get :: "header \<Rightarrow> string \<Rightarrow> string" where
  "Header_Get h k = (case h (CanonicalKey k) of Some (v # _) \<Rightarrow> v | _ \<Rightarrow> [])"

definition Header_Set :: "header \<Rightarrow> string \<Rightarrow> string \<Rightarrow> header" where
  "Header_Set h k v = h(CanonicalKey k \<mapsto> [v])"

definition Header_Add :: "header \<Rightarrow> string \<Rightarrow> string \<Rightarrow> header" where
  "Header_Add h k v =
     h(CanonicalKey k \<mapsto> (case h (CanonicalKey k) of None \<Rightarrow> [v] | Some vs \<Rightarrow> vs @ [v]))"

definition Header_Del :: "header \<Rightarrow> string \<Rightarrow> header" where
  "Header_Del h k = h(CanonicalKey k := None)"

section \<open>Requests\<close>

text \<open>A body: the bytes it delivers and whether reading it ends in an error instead of EOF.\<close>

record body =
  bd_data :: string
  bd_err :: bool

record request =
  r_Method :: string
  r_URL :: url
  r_Host :: string
  r_Header :: header
  r_RemoteAddr :: string
  r_TLS :: bool
  r_Body :: "body option"
  r_ctxBackend :: "bref option"
  r_ctxRequestID :: "string option"

text \<open>A request for concrete instances.\<close>

definition sample_request :: "string \<Rightarrow> string \<Rightarrow> request" where
  "sample_request host path =
     \<lparr>r_Method = ''GET'', r_URL = \<lparr>u_Scheme = [], u_Host = [], u_Path = path, u_RawQuery = []\<rparr>, r_Host = host,
      r_Header = Map.empty, r_RemoteAddr = ''10.0.0.1:5000'', r_TLS = False, r_Body = None,
      r_ctxBackend = None, r_ctxRequestID = None\<rparr>"

section \<open>Response writers\<close>

text \<open>
  The server's own writer. \<open>rw_sent\<close> is the status and the copy of the header map taken when the
  header was written; changes of the map after that are not sent. \<open>rw_head\<close> says that the request
  has the method HEAD, \<open>rw_contentLength\<close> is the length that was declared when the header was
  written, and \<open>rw_written\<close> the number of bytes handed to \<open>Write\<close>, also of those it refused.
\<close>

record response_writer =
  rw_head :: bool
  rw_header :: header
  rw_sent :: "(int \<times> header) option"
  rw_info :: "(int \<times> header) list"
  rw_contentLength :: "nat option"
  rw_written :: nat
  rw_body :: string

definition new_response :: response_writer where
  "new_response = \<lparr>rw_head = False, rw_header = Map.empty, rw_sent = None, rw_info = [], rw_contentLength = None,
     rw_written = 0, rw_body = []\<rparr>"

text \<open>\<open>strconv.ParseInt(s, 10, 64)\<close> when its result is not negative.\<close>

fun parse_digits :: "nat \<Rightarrow> string \<Rightarrow> nat option" where
  "parse_digits n [] = Some n"
| "parse_digits n (c # cs) = (if is_digit c then parse_digits (10 * n + (of_char c - 48)) cs else None)"

definition ParseLength :: "string \<Rightarrow> nat option" where
  "ParseLength s =
     (let neg = (take 1 s = ''-'');
          ds = (if neg \<or> take 1 s = ''+'' then drop 1 s else s)
      in if ds = [] then None
         else case parse_digits 0 ds of
                None \<Rightarrow> None
              | Some n \<Rightarrow> if int n \<le> max_int64 \<and> (neg \<longrightarrow> n = 0) then Some n else None)"

text \<open>
  \<open>WriteHeader\<close>. Writing the header fixes the declared length; one that is not a number is removed
  from the handler's map.
\<close>

definition base_WriteHeader :: "int \<Rightarrow> response_writer \<Rightarrow> response_writer" where
  "base_WriteHeader code w =
     (if rw_sent w \<noteq> None then w
      else if 100 \<le> code \<and> code \<le> 199 \<and> code \<noteq> 101
        then w\<lparr>rw_info := rw_info w @ [(code, rw_header w)]\<rparr>
      else (let cl = Header_Get (rw_header w) ''Content-Length'';
                w = w\<lparr>rw_sent := Some (code, rw_header w)\<rparr>
            in if cl = [] then w
               else case ParseLength cl of
                      Some n \<Rightarrow> w\<lparr>rw_contentLength := Some n\<rparr>
                    | None \<Rightarrow> w\<lparr>rw_header := Header_Del (rw_header w) ''Content-Length''\<rparr>))"

definition body_allowed :: "int \<Rightarrow> bool" where
  "body_allowed code \<longleftrightarrow> \<not> (100 \<le> code \<and> code \<le> 199) \<and> code \<noteq> 204 \<and> code \<noteq> 304"

text \<open>
  \<open>Write\<close> sends the header with status 200 first if none was written. It refuses a body where the
  status allows none, and bytes beyond the declared length (\<open>ErrContentLength\<close>). The body of an
  answer to HEAD is discarded, but counts as written.
\<close>

definition base_Write :: "string \<Rightarrow> response_writer \<Rightarrow> int \<times> response_writer" where
  "base_Write bs w =
     (let w = (if rw_sent w = None then base_WriteHeader 200 w else w)
      in if bs = [] then (0, w)
         else case rw_sent w of
           None \<Rightarrow> (0, w)
         | Some (code, _) \<Rightarrow>
             if \<not> body_allowed code then (0, w)
             else (let w = w\<lparr>rw_written := rw_written w + length bs\<rparr>
                   in if (case rw_contentLength w of None \<Rightarrow> False | Some n \<Rightarrow> n < rw_written w) then (0, w)
                      else (int (length bs), if rw_head w then w else w\<lparr>rw_body := rw_body w @ bs\<rparr>)))"

text \<open>What the server does when the handler has returned.\<close>

definition finish_request :: "response_writer \<Rightarrow> response_writer" where
  "finish_request w = (if rw_sent w = None then base_WriteHeader 200 w else w)"

text \<open>
  A wrapper around a response writer: \<open>RecorderLayer\<close> (\<open>responseRecorder\<close>) and \<open>WriterLayer\<close>
  (\<open>responseWriter\<close>) note the status and count the bytes, \<open>StatusLayer\<close> (\<open>statusRecorder\<close>) notes the
  status only, and \<open>GzipLayer\<close> is \<open>gzipResponseWriter\<close> with the data its compressor was given since
  it was reset, and whether the compressor failed. A writer is a stack of wrappers around the server's writer; the header map is
  that of the server's writer at every level.
\<close>

datatype layer = RecorderLayer int int | WriterLayer int int | StatusLayer int | GzipLayer "string list" bool

record writer =
  w_layers :: "layer list"
  w_base :: response_writer

text \<open>
  The compressor, a parameter: what it passes on when it is given a chunk after some others,
  and when it is closed.
\<close>

record codec =
  z_write :: "string list \<Rightarrow> string \<Rightarrow> string"
  z_close :: "string list \<Rightarrow> string"

text \<open>
  The methods of the wrappers. The last argument is the wrapped writer after the call the method
  makes on it, with the number of bytes a \<open>Write\<close> returned.
\<close>

type_synonym written = "int \<times> layer list \<times> response_writer"

definition responseRecorder_Write :: "int \<Rightarrow> int \<Rightarrow> written \<Rightarrow> written" where
  "responseRecorder_Write status bytes inner =
     (let (n, ls, w) = inner in (n, RecorderLayer status (bytes + n) # ls, w))"

definition responseRecorder_WriteHeader ::
  "int \<Rightarrow> int \<Rightarrow> int \<Rightarrow> layer list \<times> response_writer \<Rightarrow> layer list \<times> response_writer" where
  "responseRecorder_WriteHeader status bytes code inner = (let (ls, w) = inner in (RecorderLayer code bytes # ls, w))"

definition responseWriter_Write :: "int \<Rightarrow> int \<Rightarrow> written \<Rightarrow> written" where
  "responseWriter_Write status wrote inner =
     (let (n, ls, w) = inner in (n, WriterLayer status (wrote + n) # ls, w))"

definition responseWriter_WriteHeader ::
  "int \<Rightarrow> int \<Rightarrow> int \<Rightarrow> layer list \<times> response_writer \<Rightarrow> layer list \<times> response_writer" where
  "responseWriter_WriteHeader status wrote code inner = (let (ls, w) = inner in (WriterLayer code wrote # ls, w))"

definition statusRecorder_WriteHeader ::
  "int \<Rightarrow> int \<Rightarrow> layer list \<times> response_writer \<Rightarrow> layer list \<times> response_writer" where
  "statusRecorder_WriteHeader status code inner = (let (ls, w) = inner in (StatusLayer code # ls, w))"

text \<open>
  \<open>gw.Write\<close> returns the length of its argument; what it passes on (\<open>out\<close>) may be nothing. When that
  could not be written, the compressor keeps the error and writes nothing any more.
\<close>

definition gzip_Write :: "string list \<Rightarrow> string \<Rightarrow> string \<Rightarrow> written \<Rightarrow> written" where
  "gzip_Write cs bs out inner =
     (let (n, ls, w) = inner
      in if n < int (length out) then (0, GzipLayer (cs @ [bs]) True # ls, w)
         else (int (length bs), GzipLayer (cs @ [bs]) False # ls, w))"

definition gzip_WriteHeader :: "response_writer \<Rightarrow> response_writer" where
  "gzip_WriteHeader w = w\<lparr>rw_header := Header_Del (rw_header w) ''Content-Length''\<rparr>"

lemmas wrapper_defs = responseRecorder_Write_def responseRecorder_WriteHeader_def responseWriter_Write_def
  responseWriter_WriteHeader_def statusRecorder_WriteHeader_def gzip_Write_def gzip_WriteHeader_def

text \<open>A call goes down the stack; \<open>statusRecorder\<close> inherits the \<open>Write\<close> of the writer it embeds.\<close>

fun stack_Write :: "codec \<Rightarrow> layer list \<Rightarrow> string \<Rightarrow> response_writer \<Rightarrow> written" where
  "stack_Write z [] bs w = (let (n, w) = base_Write bs w in (n, [], w))"
| "stack_Write z (RecorderLayer st k # ls) bs w = responseRecorder_Write st k (stack_Write z ls bs w)"
| "stack_Write z (WriterLayer st k # ls) bs w = responseWriter_Write st k (stack_Write z ls bs w)"
| "stack_Write z (StatusLayer st # ls) bs w =
     (let (n, ls, w) = stack_Write z ls bs w in (n, StatusLayer st # ls, w))"
| "stack_Write z (GzipLayer cs err # ls) bs w =
     (if err then (0, GzipLayer cs err # ls, w)
      else (let out = z_write z cs bs
            in gzip_Write cs bs out (if out = [] then (0, ls, w) else stack_Write z ls out w)))"

fun stack_WriteHeader :: "layer list \<Rightarrow> int \<Rightarrow> response_writer \<Rightarrow> layer list \<times> response_writer" where
  "stack_WriteHeader [] code w = ([], base_WriteHeader code w)"
| "stack_WriteHeader (RecorderLayer st k # ls) code w = responseRecorder_WriteHeader st k code (stack_WriteHeader ls code w)"
| "stack_WriteHeader (WriterLayer st k # ls) code w = responseWriter_WriteHeader st k code (stack_WriteHeader ls code w)"
| "stack_WriteHeader (StatusLayer st # ls) code w = statusRecorder_WriteHeader st code (stack_WriteHeader ls code w)"
| "stack_WriteHeader (GzipLayer cs err # ls) code w =
     (let (ls, w) = stack_WriteHeader ls code (gzip_WriteHeader w) in (GzipLayer cs err # ls, w))"

definition w_Header :: "writer \<Rightarrow> header" where
  "w_Header w = rw_header (w_base w)"

definition w_setHeader :: "(header \<Rightarrow> header) \<Rightarrow> writer \<Rightarrow> writer" where
  "w_setHeader f w = w\<lparr>w_base := (w_base w)\<lparr>rw_header := f (rw_header (w_base w))\<rparr>\<rparr>"

definition w_Write :: "codec \<Rightarrow> string \<Rightarrow> writer \<Rightarrow> writer" where
  "w_Write z bs w =
     (let (n, ls, b) = stack_Write z (w_layers w) bs (w_base w) in \<lparr>w_layers = ls, w_base = b\<rparr>)"

definition w_WriteHeader :: "int \<Rightarrow> writer \<Rightarrow> writer" where
  "w_WriteHeader code w =
     (let (ls, b) = stack_WriteHeader (w_layers w) code (w_base w) in \<lparr>w_layers = ls, w_base = b\<rparr>)"

text \<open>\<open>http.Error\<close>.\<close>

definition http_Error :: "codec \<Rightarrow> string \<Rightarrow> int \<Rightarrow> writer \<Rightarrow> writer" where
  "http_Error z msg code w =
     (let w = w_setHeader (\<lambda>h. Header_Set h ''Content-Type'' ''text/plain; charset=utf-8'') w;
          w = w_setHeader (\<lambda>h. Header_Set h ''X-Content-Type-Options'' ''nosniff'') w;
          w = w_WriteHeader code w
      in w_Write z (msg @ ''\<newline>'') w)"

text \<open>What a handler does to the writer it is given.\<close>

datatype hact = HSet string string | HDel string | HWriteHeader int | HWrite string

fun hact_exec :: "codec \<Rightarrow> hact \<Rightarrow> writer \<Rightarrow> writer" where
  "hact_exec z (HSet k v) w = w_setHeader (\<lambda>h. Header_Set h k v) w"
| "hact_exec z (HDel k) w = w_setHeader (\<lambda>h. Header_Del h k) w"
| "hact_exec z (HWriteHeader code) w = w_WriteHeader code w"
| "hact_exec z (HWrite bs) w = w_Write z bs w"

definition serve :: "codec \<Rightarrow> hact list \<Rightarrow> writer \<Rightarrow> writer" where
  "serve z acts w = fold (hact_exec z) acts w"

text \<open>The writer the server makes for a request.\<close>

definition writer_for :: "request \<Rightarrow> writer" where
  "writer_for r = \<lparr>w_layers = [], w_base = new_response\<lparr>rw_head := (r_Method r = ''HEAD'')\<rparr>\<rparr>"

section \<open>Lemmas\<close>

lemma index_byte_None [simp]: "index_byte c s = None \<longleftrightarrow> c \<notin> set s"
  by (induction s) auto

lemma last_index_byte_None [simp]: "last_index_byte c s = None \<longleftrightarrow> c \<notin> set s"
  by (induction s) (auto split: option.splits)

lemma last_index_byte_append: "c \<notin> set q \<Longrightarrow> last_index_byte c (p @ c # q) = Some (length p)"
  by (induction p) (auto split: option.splits)

lemma SplitHostPort_plain:
  assumes "set h \<inter> set '':[]'' = {}" and "set q \<inter> set '':[]'' = {}" and "h \<noteq> []"
  shows "SplitHostPort (h @ '':'' @ q) = Inr (h, q)"
proof -
  have *: "last_index_byte CHR '':'' (h @ CHR '':'' # q) = Some (length h)"
    using assms(2) by (intro last_index_byte_append) simp
  have "h ! 0 \<noteq> CHR ''[''"
    using assms(1,3) by (cases h) auto
  then show ?thesis
    using assms by (simp add: SplitHostPort_def * nth_append)
qed

lemma SplitHostPort_no_colon: "CHR '':'' \<notin> set s \<Longrightarrow> SplitHostPort s = Inl MissingPort"
  by (simp add: SplitHostPort_def last_index_byte_None [THEN iffD2])

lemma to_upper_lower_ascii:
  "is_lower c \<Longrightarrow> is_upper (to_upper c)" "is_upper c \<Longrightarrow> is_lower (to_lower c)"
  by (auto simp: to_upper_def to_lower_def is_upper_def is_lower_def mod_less)

lemma case_disjoint: "is_lower c \<Longrightarrow> \<not> is_upper c"
  by (simp add: is_upper_def is_lower_def)

lemma to_upper_idem [simp]: "to_upper (to_upper c) = to_upper c"
  using to_upper_lower_ascii case_disjoint by (metis to_upper_def)

lemma to_lower_idem [simp]: "to_lower (to_lower c) = to_lower c"
  using to_upper_lower_ascii case_disjoint by (metis to_lower_def)

lemma valid_case [simp]:
  "valid_field_byte c \<Longrightarrow> valid_field_byte (to_upper c)"
  "valid_field_byte c \<Longrightarrow> valid_field_byte (to_lower c)"
  using to_upper_lower_ascii(1) [of c] to_upper_lower_ascii(2) [of c]
  by (auto simp: valid_field_byte_def to_upper_def to_lower_def)

lemma canon_loop_idem: "canon_loop up (canon_loop up s) = canon_loop up s"
  by (induction up s rule: canon_loop.induct) (auto simp: Let_def)

lemma canon_loop_valid: "list_all valid_field_byte s \<Longrightarrow> list_all valid_field_byte (canon_loop up s)"
  by (induction up s rule: canon_loop.induct) (auto simp: Let_def)

lemma CanonicalKey_idem [simp]: "CanonicalKey (CanonicalKey k) = CanonicalKey k"
  by (simp add: CanonicalKey_def canon_loop_idem canon_loop_valid)

lemma Header_Get_Set: "Header_Get (Header_Set h k v) k' =
    (if CanonicalKey k' = CanonicalKey k then v else Header_Get h k')"
  by (simp add: Header_Get_def Header_Set_def)

lemma Header_Get_Del: "Header_Get (Header_Del h k) k' =
    (if CanonicalKey k' = CanonicalKey k then [] else Header_Get h k')"
  by (simp add: Header_Get_def Header_Del_def)

lemma base_WriteHeader_sent: "rw_sent w \<noteq> None \<Longrightarrow> base_WriteHeader code w = w"
  by (simp add: base_WriteHeader_def)

lemma base_Write_sent [simp]: "rw_sent w = Some s \<Longrightarrow> rw_sent (snd (base_Write bs w)) = Some s"
  by (auto simp: base_Write_def Let_def split: prod.splits)

lemma base_WriteHeader_kept [simp]:
  "rw_body (base_WriteHeader code w) = rw_body w" "rw_head (base_WriteHeader code w) = rw_head w"
  "rw_written (base_WriteHeader code w) = rw_written w"
  by (simp_all add: base_WriteHeader_def Let_def split: option.split)

lemma rw_sent_WriteHeader:
  "rw_sent (base_WriteHeader code w) =
     (if rw_sent w = None \<and> \<not> (100 \<le> code \<and> code \<le> 199 \<and> code \<noteq> 101) then Some (code, rw_header w) else rw_sent w)"
  by (auto simp: base_WriteHeader_def Let_def split: option.split)

lemma base_Write_head [simp]: "rw_head (snd (base_Write bs w)) = rw_head w"
  by (auto simp: base_Write_def Let_def split: prod.splits option.splits)

lemma rw_sent_Write:
  "rw_sent (snd (base_Write bs w)) = (if rw_sent w = None then Some (200, rw_header w) else rw_sent w)"
  by (auto simp: base_Write_def Let_def rw_sent_WriteHeader split: prod.splits option.splits)

lemma base_Write_body: "base_Write bs w = (n, w') \<Longrightarrow> \<not> rw_head w \<Longrightarrow> int (length (rw_body w')) = int (length (rw_body w)) + n"
  by (auto simp: base_Write_def Let_def split: prod.splits option.splits if_splits)

end
