(* ===== verification/Balancer.thy ===== *)
theory Balancer
  imports Http
begin

text \<open>
  \<open>internal/balancer\<close>: the selector interface (\<open>selector.go\<close>) and the four selectors
  that do not hash: round robin, weighted round robin, least connections and power of two
  choices. A selector's \<open>Next\<close> returns an error, or a backend pointer (\<open>None\<close> is
  nil), or panics.
\<close>

section \<open>The selector interface\<close>

datatype sel_error = ErrNoBackends | UnknownAlgorithm string

type_synonym pick = "(sel_error + bref option) outcome"

abbreviation picked :: "bref \<Rightarrow> pick" where
  "picked b \<equiv> Return (Inr (Some b))"

abbreviation no_backends :: pick where
  "no_backends \<equiv> Return (Inl ErrNoBackends)"

text \<open>Returning the element at an index of a slice, as \<open>return xs[i], nil\<close> does.\<close>

definition pick_at :: "bref list \<Rightarrow> int \<Rightarrow> pick" where
  "pick_at bs i = bind_outcome (go_index bs i) (\<lambda>b. picked b)"

section \<open>Round robin\<close>

record round_robin =
  rr_counter :: int64

definition NewRoundRobin :: round_robin where
  "NewRoundRobin = \<lparr>rr_counter = 0\<rparr>"

definition RoundRobin_Next ::
  "heap \<Rightarrow> request \<Rightarrow> bref list \<Rightarrow> round_robin \<Rightarrow> pick \<times> round_robin" where
  "RoundRobin_Next h r bs rr =
     (let n = length bs
      in if n = 0 then (no_backends, rr)
         else
           let c = rr_counter rr + 1;
               idx = go_rem (sint (c - 1)) (int n)
           in (pick_at bs idx, rr\<lparr>rr_counter := c\<rparr>))"

section \<open>Weighted round robin\<close>

record weighted_rr =
  w_slots :: "bref list"
  w_counter :: int64

definition NewWeightedRoundRobin :: weighted_rr where
  "NewWeightedRoundRobin = \<lparr>w_slots = [], w_counter = 0\<rparr>"

fun slot_loop :: "nat \<Rightarrow> bref \<Rightarrow> bref list \<Rightarrow> bref list" where
  "slot_loop 0 b slots = slots"
| "slot_loop (Suc n) b slots = slot_loop n b (slots @ [b])"

fun Rebuild_loop :: "heap \<Rightarrow> bref list \<Rightarrow> bref list \<Rightarrow> bref list" where
  "Rebuild_loop h [] slots = slots"
| "Rebuild_loop h (b # bs) slots =
     (let weight = b_Weight (h ! b);
          weight = (if weight \<le> 0 then 1 else weight)
      in Rebuild_loop h bs (slot_loop (nat weight) b slots))"

definition WRR_Rebuild :: "heap \<Rightarrow> bref list \<Rightarrow> weighted_rr \<Rightarrow> weighted_rr" where
  "WRR_Rebuild h bs w = w\<lparr>w_slots := Rebuild_loop h bs []\<rparr>"

fun first_healthy :: "heap \<Rightarrow> bref list \<Rightarrow> bref option" where
  "first_healthy h [] = None"
| "first_healthy h (b # bs) = (if IsHealthy (h ! b) then Some b else first_healthy h bs)"

definition WRR_Next ::
  "heap \<Rightarrow> request \<Rightarrow> bref list \<Rightarrow> weighted_rr \<Rightarrow> pick \<times> weighted_rr" where
  "WRR_Next h r bs w =
     (let w = (if w_slots w = [] then WRR_Rebuild h bs w else w);
          slots = w_slots w
      in if slots = [] then (no_backends, w)
         else
           let c = w_counter w + 1;
               idx = go_rem (sint (c - 1)) (int (length slots));
               w = w\<lparr>w_counter := c\<rparr>
           in (bind_outcome (go_index slots idx)
                 (\<lambda>b. if \<not> IsHealthy (h ! b) then
                        (case first_healthy h bs of
                           Some fb \<Rightarrow> picked fb
                         | None \<Rightarrow> no_backends)
                      else picked b),
               w))"

section \<open>Least connections\<close>

fun least_loop :: "heap \<Rightarrow> bref list \<Rightarrow> bref option \<Rightarrow> int \<Rightarrow> bref option" where
  "least_loop h [] best bestConns = best"
| "least_loop h (b # bs) best bestConns =
     (let conns = sint (ActiveConns (h ! b))
      in if conns < bestConns then least_loop h bs (Some b) conns
         else least_loop h bs best bestConns)"

definition LeastConnections_Next :: "heap \<Rightarrow> request \<Rightarrow> bref list \<Rightarrow> unit \<Rightarrow> pick \<times> unit" where
  "LeastConnections_Next h r bs lc =
     (if length bs = 0 then (no_backends, lc)
      else (Return (Inr (least_loop h bs None max_int64)), lc))"

section \<open>Power of two choices\<close>

text \<open>The generator \<open>math/rand\<close> is a parameter: \<open>Intn n g\<close> is the draw and the next state.\<close>

record 'g p2c =
  p_rng :: 'g

definition second_choice :: "nat \<Rightarrow> nat \<Rightarrow> nat" where
  "second_choice i j = (if j \<ge> i then j + 1 else j)"

definition NewP2C :: "'g \<Rightarrow> 'g p2c" where
  "NewP2C seeded = \<lparr>p_rng = seeded\<rparr>"

definition P2C_Next ::
  "(nat \<Rightarrow> 'g \<Rightarrow> nat \<times> 'g) \<Rightarrow> heap \<Rightarrow> request \<Rightarrow> bref list \<Rightarrow> 'g p2c \<Rightarrow> pick \<times> 'g p2c" where
  "P2C_Next Intn h r bs p =
     (let n = length bs
      in if n = 0 then (no_backends, p)
         else if n = 1 then (pick_at bs 0, p)
         else
           let (i, g) = Intn n (p_rng p);
               (j, g) = Intn (n - 1) g;
               j = second_choice i j;
               p = p\<lparr>p_rng := g\<rparr>
           in (bind_outcome (go_index bs (int i)) (\<lambda>a.
                 bind_outcome (go_index bs (int j)) (\<lambda>b.
                   if sint (ActiveConns (h ! a)) \<le> sint (ActiveConns (h ! b))
                   then picked a else picked b)),
               p))"

section \<open>Sequences of calls\<close>

text \<open>The results of \<open>n\<close> consecutive calls of a stateful operation.\<close>

fun calls :: "('s \<Rightarrow> 'r \<times> 's) \<Rightarrow> nat \<Rightarrow> 's \<Rightarrow> 'r list" where
  "calls f 0 s = []"
| "calls f (Suc n) s = (let (r, s') = f s in r # calls f n s')"

text \<open>
  The contract of the selectors, as the proxy uses it. A \<open>healthy_selector\<close> returns a
  healthy backend whenever the list it is given is healthy and not empty; a
  \<open>selector\<close> moreover returns an element of that list. \<open>ready\<close> is what the selector
  itself needs (no wrapped counter, a generator that keeps its range).
\<close>

locale healthy_selector =
  fixes next_backend :: "heap \<Rightarrow> request \<Rightarrow> bref list \<Rightarrow> 's \<Rightarrow> pick \<times> 's"
    and ready :: "heap \<Rightarrow> bref list \<Rightarrow> 's \<Rightarrow> bool"
  assumes next_healthy: "bs \<noteq> [] \<Longrightarrow> ready h bs s \<Longrightarrow> (\<And>b. b \<in> set bs \<Longrightarrow> IsHealthy (h ! b)) \<Longrightarrow>
      \<exists>b. fst (next_backend h r bs s) = picked b \<and> IsHealthy (h ! b)"

locale selector =
  fixes next_backend :: "heap \<Rightarrow> request \<Rightarrow> bref list \<Rightarrow> 's \<Rightarrow> pick \<times> 's"
    and ready :: "heap \<Rightarrow> bref list \<Rightarrow> 's \<Rightarrow> bool"
  assumes next_member: "bs \<noteq> [] \<Longrightarrow> ready h bs s \<Longrightarrow>
      \<exists>b\<in>set bs. fst (next_backend h r bs s) = picked b"
begin

lemma next_in: "bs \<noteq> [] \<Longrightarrow> ready h bs s \<Longrightarrow>
    fst (next_backend h r bs s) = picked b \<Longrightarrow> b \<in> set bs"
  using next_member [of bs h s r] by auto

lemma next_total: "bs \<noteq> [] \<Longrightarrow> ready h bs s \<Longrightarrow> fst (next_backend h r bs s) \<noteq> Panic p"
  using next_member [of bs h s r] by auto

end

sublocale selector \<subseteq> healthy_selector next_backend ready
proof
  fix bs h s r
  assume "bs \<noteq> []" "ready h bs s" and ok: "\<And>b. b \<in> set bs \<Longrightarrow> IsHealthy (h ! b)"
  then show "\<exists>b. fst (next_backend h r bs s) = picked b \<and> IsHealthy (h ! b)"
    using next_member [of bs h s r] by blast
qed

section \<open>Lemmas: cycling through a list\<close>

text \<open>\<open>n\<close> consecutive positions of a cyclic scan, starting at \<open>a\<close>.\<close>

definition cycle :: "'a list \<Rightarrow> nat \<Rightarrow> nat \<Rightarrow> 'a list" where
  "cycle xs a n = map (\<lambda>i. xs ! ((a + i) mod length xs)) [0..<n]"

lemma cycle_Suc: "cycle xs a (Suc n) = xs ! (a mod length xs) # cycle xs (Suc a) n"
  unfolding cycle_def by (simp only: upt_conv_Cons [of 0 "Suc n", OF zero_less_Suc] list.map
      map_Suc_upt [symmetric] map_map o_def add_Suc_right add_Suc add_0_right)

lemma cycle_add: "cycle xs a (m + n) = cycle xs a m @ cycle xs (a + m) n"
  by (induction m arbitrary: a) (simp_all add: cycle_Suc, simp add: cycle_def)

lemma cycle_once: "cycle xs a (length xs) = rotate a xs"
  by (rule nth_equalityI) (simp_all add: cycle_def nth_rotate add.commute)

lemma mset_rotate: "mset (rotate a xs) = mset xs"
  by (simp add: rotate_drop_take) (metis append_take_drop_id mset_append union_commute)

lemma mset_cycle: "mset (cycle xs a (k * length xs)) = repeat_mset k (mset xs)"
proof (induction k arbitrary: a)
  case 0
  show ?case by (simp add: cycle_def)
next
  case (Suc k)
  have "mset (cycle xs a (Suc k * length xs)) =
      mset (rotate a xs) + mset (cycle xs (a + length xs) (k * length xs))"
    by (simp add: cycle_add cycle_once)
  also have "\<dots> = repeat_mset (Suc k) (mset xs)"
    by (simp add: Suc.IH mset_rotate)
  finally show ?case .
qed

text \<open>A counter that picks by position and advances by one cycles through the list.\<close>

lemma calls_cycle:
  assumes step: "\<And>i. i < n \<Longrightarrow> f (st (a + i)) = (g (xs ! ((a + i) mod length xs)), st (Suc (a + i)))"
  shows "calls f n (st a) = map g (cycle xs a n)"
  using step
proof (induction n arbitrary: a)
  case 0
  show ?case by (simp add: cycle_def)
next
  case (Suc n)
  have "calls f n (st (Suc a)) = map g (cycle xs (Suc a) n)"
    using Suc.prems by (intro Suc.IH) (metis Suc_mono add_Suc_shift)
  moreover have "f (st a) = (g (xs ! (a mod length xs)), st (Suc a))"
    using Suc.prems [of 0] by simp
  ultimately show ?case by (simp add: cycle_Suc)
qed

section \<open>Lemmas on the selectors\<close>

lemma sint_of_nat_count: "a < 2 ^ 63 \<Longrightarrow> sint (of_nat a :: int64) = int a"
  by (simp add: signed_of_nat signed_take_bit_int_eq_self)

lemma pick_at_mem: "pick_at bs i = Return (Inr (Some b)) \<Longrightarrow> b \<in> set bs"
  by (auto simp: pick_at_def bind_outcome_Return dest: go_index_Return_mem)

lemma RoundRobin_Next_count:
  assumes "bs \<noteq> []" and "a < 2 ^ 63"
  shows "RoundRobin_Next h r bs \<lparr>rr_counter = of_nat a\<rparr> =
    (picked (bs ! (a mod length bs)), \<lparr>rr_counter = of_nat (Suc a)\<rparr>)"
  using assms
  by (simp add: RoundRobin_Next_def Let_def sint_of_nat_count go_index_rem pick_at_def add.commute)

lemma counter_of_nat: "0 \<le> sint c \<Longrightarrow> of_nat (nat (sint c)) = (c :: int64)"
  by simp

lemma RoundRobin_Next_nonneg:
  assumes "bs \<noteq> []" and "0 \<le> sint (rr_counter rr)"
  shows "fst (RoundRobin_Next h r bs rr) = picked (bs ! (nat (sint (rr_counter rr)) mod length bs))"
  using assms by (simp add: RoundRobin_Next_def Let_def go_index_rem pick_at_def)

lemma slot_loop_replicate: "slot_loop n b slots = slots @ replicate n b"
  by (induction n b slots rule: slot_loop.induct) (simp_all add: replicate_append_same)

text \<open>The number of slots \<open>Rebuild\<close> gives to a backend.\<close>

definition slot_count :: "heap \<Rightarrow> bref \<Rightarrow> nat" where
  "slot_count h b = (if b_Weight (h ! b) \<le> 0 then 1 else nat (b_Weight (h ! b)))"

lemma slot_count_pos: "0 < slot_count h b"
  by (simp add: slot_count_def)

lemma Rebuild_loop_concat:
  "Rebuild_loop h bs slots = slots @ concat (map (\<lambda>b. replicate (slot_count h b) b) bs)"
  by (induction h bs slots rule: Rebuild_loop.induct)
    (auto simp: slot_loop_replicate slot_count_def Let_def)

lemma Rebuild_loop_set: "set (Rebuild_loop h bs []) = set bs"
  using slot_count_pos by (auto simp: Rebuild_loop_concat)

lemma Rebuild_loop_Nil: "Rebuild_loop h bs [] = [] \<longleftrightarrow> bs = []"
  by (metis Rebuild_loop_set set_empty)

lemma mset_Rebuild_loop:
  "mset (Rebuild_loop h bs []) = (\<Sum>b\<in>#mset bs. replicate_mset (slot_count h b) b)"
  by (induction bs) (simp_all add: Rebuild_loop_concat)

lemma first_healthy_Some: "first_healthy h bs = Some b \<Longrightarrow> b \<in> set bs \<and> IsHealthy (h ! b)"
  by (induction bs) (auto split: if_splits)

lemma first_healthy_None: "first_healthy h bs = None \<longleftrightarrow> (\<forall>b\<in>set bs. \<not> IsHealthy (h ! b))"
  by (induction bs) auto

lemma WRR_Next_healthy: "fst (WRR_Next h r bs w) = picked b \<Longrightarrow> IsHealthy (h ! b)"
  by (auto simp: WRR_Next_def Let_def bind_outcome_Return split: if_splits option.splits
      dest: first_healthy_Some)

lemma WRR_Next_picks:
  assumes "bs \<noteq> []" and "0 \<le> sint (w_counter w)" and "\<And>b. b \<in> set bs \<Longrightarrow> IsHealthy (h ! b)"
  shows "\<exists>b. fst (WRR_Next h r bs w) = picked b"
proof -
  obtain b0 where "first_healthy h bs = Some b0"
    using assms(1,3) first_healthy_None [of h bs] by (cases bs) auto
  then show ?thesis
    using assms by (auto simp: WRR_Next_def Let_def WRR_Rebuild_def Rebuild_loop_Nil go_index_rem)
qed

lemma WRR_Next_count:
  assumes "slots \<noteq> []" and "a < 2 ^ 63" and "\<And>b. b \<in> set slots \<Longrightarrow> IsHealthy (h ! b)"
  shows "WRR_Next h r bs \<lparr>w_slots = slots, w_counter = of_nat a\<rparr> =
    (picked (slots ! (a mod length slots)), \<lparr>w_slots = slots, w_counter = of_nat (Suc a)\<rparr>)"
  using assms
  by (simp add: WRR_Next_def Let_def sint_of_nat_count go_index_rem add.commute)

lemma WRR_Next_built: "w_slots w = [] \<Longrightarrow> bs \<noteq> [] \<Longrightarrow> WRR_Next h r bs w = WRR_Next h r bs (WRR_Rebuild h bs w)"
  by (simp add: WRR_Next_def Let_def WRR_Rebuild_def Rebuild_loop_Nil)

lemma calls_cong_first: "f s = f s' \<Longrightarrow> 0 < n \<Longrightarrow> calls f n s = calls f n s'"
  by (cases n) simp_all

lemma image_mset_repeat [simp]: "image_mset g (repeat_mset k M) = repeat_mset k (image_mset g M)"
  by (induction k) simp_all

lemma repeat_replicate_mset: "repeat_mset k (replicate_mset n x) = replicate_mset (k * n) x"
  using repeat_mset_right [of k n "{#x#}"] by simp

lemma repeat_image_sum:
  "repeat_mset k (image_mset g (\<Sum>b\<in>#M. replicate_mset (n b) b)) =
    (\<Sum>b\<in>#M. replicate_mset (k * n b) (g b))"
  by (induction M) (simp_all add: repeat_replicate_mset)

lemma least_loop_min:
  "if \<exists>b\<in>set bs. sint (ActiveConns (h ! b)) < bc
   then \<exists>b\<in>set bs. least_loop h bs best bc = Some b \<and> sint (ActiveConns (h ! b)) < bc \<and>
     (\<forall>c\<in>set bs. sint (ActiveConns (h ! b)) \<le> sint (ActiveConns (h ! c)))
   else least_loop h bs best bc = best"
proof (induction h bs best bc rule: least_loop.induct)
  case (1 h best bc)
  show ?case by simp
next
  case (2 h b bs best bc)
  show ?case
  proof (cases "sint (ActiveConns (h ! b)) < bc")
    case True
    then show ?thesis using "2.IH"(1) [OF refl] by (fastforce simp: Let_def split: if_splits)
  next
    case False
    then show ?thesis using "2.IH"(2) [OF refl] by (fastforce simp: Let_def split: if_splits)
  qed
qed

lemma LeastConnections_Next_min:
  assumes "\<exists>b\<in>set bs. sint (ActiveConns (h ! b)) < max_int64"
  shows "\<exists>b\<in>set bs. LeastConnections_Next h r bs lc = (picked b, lc) \<and>
    (\<forall>c\<in>set bs. sint (ActiveConns (h ! b)) \<le> sint (ActiveConns (h ! c)))"
  using assms least_loop_min [of bs h max_int64 None] by (auto simp: LeastConnections_Next_def)

lemma second_choice_neq: "second_choice i j \<noteq> i"
  by (simp add: second_choice_def)

lemma second_choice_less: "i < n \<Longrightarrow> j < n - 1 \<Longrightarrow> second_choice i j < n"
  by (auto simp: second_choice_def)

definition draws_in_range :: "(nat \<Rightarrow> 'g \<Rightarrow> nat \<times> 'g) \<Rightarrow> bool" where
  "draws_in_range Intn \<longleftrightarrow> (\<forall>n g. 0 < n \<longrightarrow> fst (Intn n g) < n)"

lemma draws_in_rangeD: "draws_in_range Intn \<Longrightarrow> Intn n g = (i, g') \<Longrightarrow> 0 < n \<Longrightarrow> i < n"
  by (metis draws_in_range_def fst_conv)

lemma P2C_Next_pair:
  assumes range: "draws_in_range Intn" and "2 \<le> length bs"
    and i: "Intn (length bs) (p_rng p) = (i, g)" and k: "Intn (length bs - 1) g = (k, g')"
    and j: "j = second_choice i k"
  shows "i < length bs \<and> j < length bs \<and> i \<noteq> j \<and>
    P2C_Next Intn h r bs p =
      (picked (if sint (ActiveConns (h ! (bs ! i))) \<le> sint (ActiveConns (h ! (bs ! j)))
               then bs ! i else bs ! j), p\<lparr>p_rng := g'\<rparr>)"
proof -
  have "i < length bs" "k < length bs - 1"
    using assms(2) draws_in_rangeD [OF range i] draws_in_rangeD [OF range k] by linarith+
  moreover have "j < length bs"
    unfolding j using calculation by (rule second_choice_less)
  ultimately show ?thesis using assms(2) i k second_choice_neq [of i k]
    by (auto simp: P2C_Next_def Let_def go_index_in j)
qed

lemma P2C_Next_single: "P2C_Next Intn h r [b] p = (picked b, p)"
  by (simp add: P2C_Next_def pick_at_def go_index_def)

lemma nat_bound: "int a \<le> 2 ^ 63 \<Longrightarrow> a \<le> 2 ^ 63"
  by simp

section \<open>The selectors meet the contract\<close>

interpretation rr: selector RoundRobin_Next "\<lambda>h bs rr. 0 \<le> sint (rr_counter rr)"
  by unfold_locales (auto simp: RoundRobin_Next_nonneg)

interpretation lc: selector LeastConnections_Next
  "\<lambda>h bs lc. \<exists>b\<in>set bs. sint (ActiveConns (h ! b)) < max_int64"
proof
  fix bs h s r
  assume "\<exists>b\<in>set bs. sint (ActiveConns (h ! b)) < max_int64"
  from LeastConnections_Next_min [OF this, of r s]
  show "\<exists>b\<in>set bs. fst (LeastConnections_Next h r bs s) = picked b" by fastforce
qed

interpretation p2c: selector "P2C_Next Intn" "\<lambda>h bs p. draws_in_range Intn" for Intn
proof
  fix bs :: "bref list" and h r s
  assume "bs \<noteq> []" and range: "draws_in_range Intn"
  show "\<exists>b\<in>set bs. fst (P2C_Next Intn h r bs s) = picked b"
  proof (cases "length bs = 1")
    case True
    then obtain b where "bs = [b]" by (auto simp: length_Suc_conv)
    then show ?thesis by (simp add: P2C_Next_single)
  next
    case False
    with \<open>bs \<noteq> []\<close> have "2 \<le> length bs" by (cases bs) (auto simp: Suc_le_eq)
    from P2C_Next_pair [OF range this prod.collapse [symmetric] prod.collapse [symmetric] refl, of s h r]
    show ?thesis by auto
  qed
qed

interpretation wrr: healthy_selector WRR_Next "\<lambda>h bs w. 0 \<le> sint (w_counter w)"
proof
  fix bs h r and s :: weighted_rr
  assume "bs \<noteq> []" "0 \<le> sint (w_counter s)" "\<And>b. b \<in> set bs \<Longrightarrow> IsHealthy (h ! b)"
  then show "\<exists>b. fst (WRR_Next h r bs s) = picked b \<and> IsHealthy (h ! b)"
    using WRR_Next_picks [of bs s h r] WRR_Next_healthy [of h r bs s] by blast
qed

section \<open>Properties\<close>

text \<open>Round robin is exactly fair. As long as the signed counter does not wrap, \<open>k\<close>
  rounds over an unchanged backend list return every backend exactly \<open>k\<close> times per occurrence,
  from whatever position the counter starts.\<close>

theorem RoundRobin_fair:
  assumes "bs \<noteq> []" and "0 \<le> sint (rr_counter rr)"
    and "sint (rr_counter rr) + int (k * length bs) \<le> 2 ^ 63"
  shows "mset (calls (RoundRobin_Next h r bs) (k * length bs) rr) =
    repeat_mset k (image_mset picked (mset bs))"
proof -
  define a where "a = nat (sint (rr_counter rr))"
  have rr: "rr = \<lparr>rr_counter = of_nat a\<rparr>"
    using assms(2) unfolding a_def by (simp only: counter_of_nat) simp
  have bound: "a + k * length bs \<le> 2 ^ 63"
    using assms(2,3) by (intro nat_bound) (simp add: a_def)
  have "calls (RoundRobin_Next h r bs) (k * length bs) rr = map picked (cycle bs a (k * length bs))"
    unfolding rr by (rule calls_cycle, rule RoundRobin_Next_count) (use bound assms(1) in simp_all)
  then show ?thesis by (simp add: mset_cycle)
qed

theorem RoundRobin_fair_witness:
  "mset (calls (RoundRobin_Next (replicate 2 (sample_backend HealthHealthy)) (sample_request ''h'' ''/'') [0, 1]) (2 * length [0::nat, 1]) NewRoundRobin) =
    repeat_mset 2 (image_mset picked (mset [0, 1]))"
  by (rule RoundRobin_fair) (simp_all add: NewRoundRobin_def)

text \<open>Weighted round robin gives every backend its weight. With all backends healthy and
  the slot table built from the current weights (or not built yet), any \<open>k\<close> full rounds select
  each backend exactly \<open>k\<close> times its weight, where a weight below one counts as one.\<close>

theorem WRR_weighted_fair:
  assumes "bs \<noteq> []" and "\<And>b. b \<in> set bs \<Longrightarrow> IsHealthy (h ! b)"
    and slots: "w_slots w = [] \<or> w_slots w = Rebuild_loop h bs []"
    and "0 \<le> sint (w_counter w)"
    and "sint (w_counter w) + int (k * length (Rebuild_loop h bs [])) \<le> 2 ^ 63"
  shows "mset (calls (WRR_Next h r bs) (k * length (Rebuild_loop h bs [])) w) =
    (\<Sum>b\<in>#mset bs. replicate_mset (k * slot_count h b) (picked b))"
proof -
  let ?slots = "Rebuild_loop h bs []"
  define a where "a = nat (sint (w_counter w))"
  have a: "of_nat a = w_counter w"
    using assms(4) unfolding a_def by (rule counter_of_nat)
  have bound: "a + k * length ?slots \<le> 2 ^ 63"
    using assms(4,5) by (intro nat_bound) (simp add: a_def)
  have built: "?slots \<noteq> []" using assms(1) by (simp add: Rebuild_loop_Nil)
  have healthy: "\<And>b. b \<in> set ?slots \<Longrightarrow> IsHealthy (h ! b)"
    using assms(2) by (simp add: Rebuild_loop_set)
  let ?w = "\<lparr>w_slots = ?slots, w_counter = of_nat a\<rparr>"
  have "WRR_Next h r bs w = WRR_Next h r bs ?w"
    using slots WRR_Next_built [OF _ assms(1), of w h r] unfolding a
    by (cases w) (auto simp: WRR_Rebuild_def)
  then have "calls (WRR_Next h r bs) (k * length ?slots) w = calls (WRR_Next h r bs) (k * length ?slots) ?w"
    using calls_cong_first by (cases "k * length ?slots") auto
  also have "\<dots> = map picked (cycle ?slots a (k * length ?slots))"
    by (rule calls_cycle, rule WRR_Next_count) (use bound built healthy in auto)
  finally show ?thesis
    by (simp add: mset_cycle mset_Rebuild_loop repeat_image_sum)
qed

theorem WRR_weighted_fair_witness:
  "let h = [sample_backend HealthHealthy, (sample_backend HealthHealthy)\<lparr>b_ID := ''b2'', b_Weight := 2\<rparr>]
   in mset (calls (WRR_Next h (sample_request ''h'' ''/'') [0, 1]) (2 * length (Rebuild_loop h [0, 1] [])) NewWeightedRoundRobin)
      = (\<Sum>b\<in>#mset [0, 1]. replicate_mset (2 * slot_count h b) (picked b))"
  unfolding Let_def
  by (rule WRR_weighted_fair)
    (auto simp: NewWeightedRoundRobin_def IsHealthy_def Rebuild_loop_concat slot_count_def sample_backend_def)

text \<open>C34: least connections returns a backend of the list with the minimal number of active
  connections, unless every backend is at the largest \<open>int64\<close>; then it returns a nil backend
  without an error.\<close>

theorem LeastConnections_optimal:
  "bs \<noteq> [] \<Longrightarrow>
   (if \<exists>b\<in>set bs. sint (ActiveConns (h ! b)) < max_int64
    then \<exists>b\<in>set bs. LeastConnections_Next h r bs lc = (picked b, lc) \<and>
      (\<forall>c\<in>set bs. sint (ActiveConns (h ! b)) \<le> sint (ActiveConns (h ! c)))
    else LeastConnections_Next h r bs lc = (Return (Inr None), lc))"
  using LeastConnections_Next_min [of bs h r lc] least_loop_min [of bs h max_int64 None]
  by (auto simp: LeastConnections_Next_def)

theorem LeastConnections_optimal_witness:
  "let h = map (\<lambda>n. (sample_backend HealthHealthy)\<lparr>b_activeConns := n\<rparr>) [5, 1, 3]
   in \<exists>b\<in>set [0, 1, 2]. LeastConnections_Next h (sample_request ''h'' ''/'') [0, 1, 2] () = (picked b, ()) \<and>
      (\<forall>c\<in>set [0, 1, 2]. sint (ActiveConns (h ! b)) \<le> sint (ActiveConns (h ! c)))"
proof -
  define h where "h = map (\<lambda>n. (sample_backend HealthHealthy)\<lparr>b_activeConns := n\<rparr>) [5, 1, 3]"
  have "\<exists>b\<in>set [0, 1, 2]. sint (ActiveConns (h ! b)) < max_int64"
    by (simp add: h_def ActiveConns_def)
  then show ?thesis
    using LeastConnections_optimal [of "[0, 1, 2]" h "sample_request ''h'' ''/''" "()"] by (simp add: h_def)
qed

text \<open>C35: power of two choices. With a generator that keeps its range, a list of at least two
  backends is probed at two distinct positions, the first draw and the second draw moved past
  it, and the backend with fewer active connections is returned (the first on a tie).\<close>

theorem P2C_less_loaded:
  assumes "draws_in_range Intn" and "2 \<le> length bs"
    and "Intn (length bs) (p_rng p) = (i, g)" and "Intn (length bs - 1) g = (k, g')"
    and "j = second_choice i k"
  shows "i < length bs \<and> j < length bs \<and> i \<noteq> j \<and>
    P2C_Next Intn h r bs p =
      (picked (if sint (ActiveConns (h ! (bs ! i))) \<le> sint (ActiveConns (h ! (bs ! j)))
               then bs ! i else bs ! j), p\<lparr>p_rng := g'\<rparr>)"
  using assms by (rule P2C_Next_pair)

theorem P2C_less_loaded_witness:
  "let h = map (\<lambda>n. (sample_backend HealthHealthy)\<lparr>b_activeConns := n\<rparr>) [5, 1, 3]
   in P2C_Next (\<lambda>n g. (g mod n, Suc g)) h (sample_request ''h'' ''/'') [0, 1, 2] (NewP2C 3) =
      (picked 1, NewP2C (5::nat))"
proof -
  define h where "h = map (\<lambda>n. (sample_backend HealthHealthy)\<lparr>b_activeConns := n\<rparr>) [5, 1, 3]"
  have "draws_in_range (\<lambda>n g. (g mod n, Suc g))" by (simp add: draws_in_range_def)
  from P2C_less_loaded [OF this, of "[0, 1, 2]" "NewP2C 3" 0 4 0 5 1 h]
  show ?thesis
    by (simp add: Let_def h_def NewP2C_def second_choice_def ActiveConns_def flip: numeral_2_eq_2)
qed

text \<open>The two draws of power of two choices are a one-to-one encoding of the ordered pairs
  of distinct positions, so uniform draws give a uniformly distributed pair.\<close>

theorem second_choice_bijective:
  "bij_betw (\<lambda>(i, j). (i, second_choice i j)) ({0..<n} \<times> {0..<n - 1})
     {(i, j). i < n \<and> j < n \<and> i \<noteq> j}"
  unfolding bij_betw_def
proof
  show "inj_on (\<lambda>(i, j). (i, second_choice i j)) ({0..<n} \<times> {0..<n - 1})"
    by (auto simp: inj_on_def second_choice_def split: if_splits)
  show "(\<lambda>(i, j). (i, second_choice i j)) ` ({0..<n} \<times> {0..<n - 1}) =
      {(i, j). i < n \<and> j < n \<and> i \<noteq> j}"
  proof (intro equalityI subsetI)
    fix q assume "q \<in> {(i, j). i < n \<and> j < n \<and> i \<noteq> j}"
    then obtain i j where "q = (i, j)" "i < n" "j < n" "i \<noteq> j" by auto
    then show "q \<in> (\<lambda>(i, j). (i, second_choice i j)) ` ({0..<n} \<times> {0..<n - 1})"
      by (intro image_eqI [of _ _ "(i, if j > i then j - 1 else j)"])
        (auto simp: second_choice_def)
  qed (auto simp: second_choice_neq [symmetric] second_choice_less)
qed

text \<open>Round robin panics exactly when its signed counter has wrapped to a negative value
  that is not a multiple of the number of backends, that is, only after \<open>2 ^ 63\<close> requests.\<close>

theorem RoundRobin_panic_iff:
  "fst (RoundRobin_Next h r bs rr) = Panic p \<longleftrightarrow>
     bs \<noteq> [] \<and> sint (rr_counter rr) < 0 \<and> \<not> int (length bs) dvd sint (rr_counter rr) \<and>
     p = IndexOutOfRange"
  by (simp add: RoundRobin_Next_def Let_def pick_at_def bind_Panic_iff go_index_rem_Panic)

end
