(* ===== verification/SelectorConcurrency.thy ===== *)
theory SelectorConcurrency
  imports Balancer
begin

text \<open>
  The two counting selectors under concurrent calls of \<open>Next\<close> (\<open>internal/balancer/roundrobin.go\<close>,
  \<open>weightedrr.go\<close>): any number of goroutines, any interleaving of their atomic operations. Both
  take a position from an atomic counter and look it up afterwards; the interface
  \<open>ticket_dispenser\<close> states what makes such a selector fair, and is met by both.
\<close>

section \<open>Goroutines\<close>

text \<open>
  The calls in progress are a multiset of program counters: the goroutines are interchangeable.
  \<open>thread w p\<close> does the next operation of a call at \<open>p\<close> on the shared state \<open>w\<close>: the call goes on at
  another program counter or returns. The label of a step is what a call returned, if one did.
\<close>

inductive pool_step ::
  "('w \<Rightarrow> 'p \<Rightarrow> 'w \<times> ('p + 'r)) \<Rightarrow> 'p \<Rightarrow> 'w \<times> 'p multiset \<Rightarrow> 'r option \<Rightarrow> 'w \<times> 'p multiset \<Rightarrow> bool"
  for thread and entry where
  begin_call: "pool_step thread entry (w, P) None (w, add_mset entry P)"
| go_on: "thread w p = (w', Inl p') \<Longrightarrow> pool_step thread entry (w, add_mset p P) None (w', add_mset p' P)"
| returns: "thread w p = (w', Inr r) \<Longrightarrow> pool_step thread entry (w, add_mset p P) (Some r) (w', P)"

definition returned :: "'r option list \<Rightarrow> 'r list" where
  "returned ls = concat (map (\<lambda>l. case l of None \<Rightarrow> [] | Some r \<Rightarrow> [r]) ls)"

lemma returned_simps [simp]:
  "returned [] = []"
  "returned (ls @ [None]) = returned ls"
  "returned (ls @ [Some r]) = returned ls @ [r]"
  by (simp_all add: returned_def)

section \<open>Round robin\<close>

datatype rr_pc = RR_Add | RR_Index int64

fun rr_thread :: "bref list \<Rightarrow> round_robin \<Rightarrow> rr_pc \<Rightarrow> round_robin \<times> (rr_pc + pick)" where
  "rr_thread bs rr RR_Add =
     (if length bs = 0 then (rr, Inr no_backends)
      else let c = rr_counter rr + 1 in (rr\<lparr>rr_counter := c\<rparr>, Inl (RR_Index (c - 1))))"
| "rr_thread bs rr (RR_Index c) = (rr, Inr (pick_at bs (go_rem (sint c) (int (length bs)))))"

section \<open>Weighted round robin\<close>

text \<open>
  The slot table is read and written as a whole under the lock: each of these sections is one
  operation. Two calls that find it empty both build it.
\<close>

datatype w_pc = W_Load | W_Rebuild | W_Reload | W_Add "bref list" | W_Index "bref list" int64

fun wrr_thread :: "heap \<Rightarrow> bref list \<Rightarrow> weighted_rr \<Rightarrow> w_pc \<Rightarrow> weighted_rr \<times> (w_pc + pick)" where
  "wrr_thread h bs w W_Load =
     (w, Inl (if w_slots w = [] then W_Rebuild else W_Add (w_slots w)))"
| "wrr_thread h bs w W_Rebuild = (WRR_Rebuild h bs w, Inl W_Reload)"
| "wrr_thread h bs w W_Reload =
     (w, if w_slots w = [] then Inr no_backends else Inl (W_Add (w_slots w)))"
| "wrr_thread h bs w (W_Add slots) =
     (let c = w_counter w + 1 in (w\<lparr>w_counter := c\<rparr>, Inl (W_Index slots (c - 1))))"
| "wrr_thread h bs w (W_Index slots c) =
     (w, Inr (bind_outcome (go_index slots (go_rem (sint c) (int (length slots))))
        (\<lambda>b. if \<not> IsHealthy (h ! b) then
               (case first_healthy h bs of Some fb \<Rightarrow> picked fb | None \<Rightarrow> no_backends)
             else picked b)))"

section \<open>Tickets\<close>

text \<open>
  A call takes at most one number from the counter and returns the result for that number.
  \<open>ok_state\<close> and \<open>ok_pc\<close> hold of all states and program counters that occur.
\<close>

locale ticket_dispenser =
  fixes thread :: "'w \<Rightarrow> 'p \<Rightarrow> 'w \<times> ('p + 'r)"
    and entry :: 'p
    and counter :: "'w \<Rightarrow> int64"
    and ticket :: "'p \<Rightarrow> int64 option"
    and result :: "int64 \<Rightarrow> 'r"
    and ok_state :: "'w \<Rightarrow> bool"
    and ok_pc :: "'w \<Rightarrow> 'p \<Rightarrow> bool"
  assumes entry_ok: "ok_state w \<Longrightarrow> ok_pc w entry" and entry_ticket: "ticket entry = None"
    and go_ok: "ok_state w \<Longrightarrow> ok_pc w p \<Longrightarrow> thread w p = (w', Inl p') \<Longrightarrow> ok_state w' \<and> ok_pc w' p'"
    and others_ok: "ok_state w \<Longrightarrow> ok_pc w p \<Longrightarrow> ok_pc w q \<Longrightarrow> thread w p = (w', x) \<Longrightarrow> ok_pc w' q"
    and go_ticket: "ok_state w \<Longrightarrow> ok_pc w p \<Longrightarrow> thread w p = (w', Inl p') \<Longrightarrow>
      counter w' = counter w \<and> ticket p' = ticket p \<or>
      counter w' = counter w + 1 \<and> ticket p = None \<and> ticket p' = Some (counter w)"
    and return_ok: "ok_state w \<Longrightarrow> ok_pc w p \<Longrightarrow> thread w p = (w', Inr r) \<Longrightarrow>
      ok_state w' \<and> counter w' = counter w \<and> map_option result (ticket p) = Some r"
begin

definition due :: "'p multiset \<Rightarrow> 'r multiset" where
  "due P = (\<Sum>p\<in>#P. case ticket p of None \<Rightarrow> {#} | Some c \<Rightarrow> {#result c#})"

text \<open>The results returned and those still due are the results of the numbers given out.\<close>

lemma balance:
  "run (pool_step thread entry) s ls t \<Longrightarrow> s = (w0, {#}) \<Longrightarrow> ok_state w0 \<Longrightarrow>
   ok_state (fst t) \<and> (\<forall>p\<in>#snd t. ok_pc (fst t) p) \<and>
   (\<exists>n. counter (fst t) = counter w0 + of_nat n \<and>
     mset (returned ls) + due (snd t) = mset (map (\<lambda>i. result (counter w0 + of_nat i)) [0..<n]))"
proof (induction rule: run.induct)
  case (run_Nil s)
  then show ?case by (auto simp: due_def intro!: exI [of _ 0])
next
  case (run_snoc s ls t l u)
  then obtain n where ok: "ok_state (fst t)" "\<forall>p\<in>#snd t. ok_pc (fst t) p"
    and c: "counter (fst t) = counter w0 + of_nat n"
    and bal: "mset (returned ls) + due (snd t) = mset (map (\<lambda>i. result (counter w0 + of_nat i)) [0..<n])"
    by blast
  from run_snoc(2) show ?case
  proof cases
    case (begin_call w P)
    then show ?thesis using ok c bal by (intro conjI exI [of _ n]) (auto simp: due_def entry_ok entry_ticket)
  next
    case (go_on w p w' p' P)
    have p: "ok_state w" "ok_pc w p" using ok go_on by auto
    note ok' = go_ok [OF p go_on(4)] others_ok [OF p _ go_on(4)]
    from go_ticket [OF p go_on(4)] show ?thesis
    proof
      assume "counter w' = counter w \<and> ticket p' = ticket p"
      then show ?thesis using ok ok' c bal go_on by (intro conjI exI [of _ n]) (auto simp: due_def)
    next
      assume "counter w' = counter w + 1 \<and> ticket p = None \<and> ticket p' = Some (counter w)"
      then show ?thesis using ok ok' c bal go_on
        by (intro conjI exI [of _ "Suc n"]) (auto simp: due_def)
    qed
  next
    case (returns w p w' r P)
    have p: "ok_state w" "ok_pc w p" using ok returns by auto
    from return_ok [OF p returns(4)] have "ok_state w'" "counter w' = counter w" "map_option result (ticket p) = Some r"
      by simp_all
    then show ?thesis using ok others_ok [OF p _ returns(4)] c bal returns by (intro conjI exI [of _ n]) (auto simp: due_def)
  qed
qed

lemma all_returned:
  assumes "run (pool_step thread entry) (w0, {#}) ls (w, {#})" and "ok_state w0"
  shows "mset (returned ls) = mset (map (\<lambda>i. result (counter w0 + of_nat i)) [0..<length (returned ls)])"
proof -
  obtain n where "mset (returned ls) + due {#} = mset (map (\<lambda>i. result (counter w0 + of_nat i)) [0..<n])"
    using balance [OF assms(1) refl assms(2)] by auto
  then have eq: "mset (returned ls) = mset (map (\<lambda>i. result (counter w0 + of_nat i)) [0..<n])"
    by (simp add: due_def)
  then have "length (returned ls) = n" by (metis length_map length_upt minus_nat.diff_0 size_mset)
  with eq show ?thesis by simp
qed

text \<open>When the result for a number is the element at its position of a cyclic scan, full rounds
  return every element equally often.\<close>

lemma rounds_fair:
  assumes "run (pool_step thread entry) (w0, {#}) ls (w, {#})" and "ok_state w0"
    and "length (returned ls) = k * length xs" and "counter w0 = of_nat a" and "a + k * length xs \<le> 2 ^ 63"
    and res: "\<And>c. c < 2 ^ 63 \<Longrightarrow> result (of_nat c) = g (xs ! (c mod length xs))"
  shows "mset (returned ls) = repeat_mset k (image_mset g (mset xs))"
proof -
  have "map (\<lambda>i. result (counter w0 + of_nat i)) [0..<k * length xs] = map g (cycle xs a (k * length xs))"
  proof -
    have "result (counter w0 + of_nat i) = g (xs ! ((a + i) mod length xs))" if "i < k * length xs" for i
      using res [of "a + i"] assms(4,5) that by simp
    then show ?thesis by (simp add: cycle_def)
  qed
  then show ?thesis using all_returned [OF assms(1,2)] by (simp add: assms(3) mset_cycle)
qed

end

fun rr_ticket :: "rr_pc \<Rightarrow> int64 option" where
  "rr_ticket RR_Add = None"
| "rr_ticket (RR_Index c) = Some c"

interpretation rrt: ticket_dispenser "rr_thread bs" RR_Add rr_counter rr_ticket
  "\<lambda>c. pick_at bs (go_rem (sint c) (int (length bs)))" "\<lambda>_. bs \<noteq> []" "\<lambda>_ _. True" for bs
proof unfold_locales
  fix rr p rr' p'
  assume "bs \<noteq> []" "rr_thread bs rr p = (rr', Inl p')"
  then show "rr_counter rr' = rr_counter rr \<and> rr_ticket p' = rr_ticket p \<or>
      rr_counter rr' = rr_counter rr + 1 \<and> rr_ticket p = None \<and> rr_ticket p' = Some (rr_counter rr)"
    by (cases p) (auto simp: Let_def)
next
  fix rr p rr' x
  assume "bs \<noteq> []" "rr_thread bs rr p = (rr', Inr x)"
  then show "bs \<noteq> [] \<and> rr_counter rr' = rr_counter rr \<and>
      map_option (\<lambda>c. pick_at bs (go_rem (sint c) (int (length bs)))) (rr_ticket p) = Some x"
    by (cases p) (auto simp: Let_def)
qed auto

fun w_ticket :: "w_pc \<Rightarrow> int64 option" where
  "w_ticket (W_Index slots c) = Some c"
| "w_ticket _ = None"

text \<open>
  The table is empty or built from the list of backends, and never empty again once a call has
  built or read it.
\<close>

definition w_ok :: "heap \<Rightarrow> bref list \<Rightarrow> weighted_rr \<Rightarrow> bool" where
  "w_ok h bs w \<longleftrightarrow> bs \<noteq> [] \<and> (w_slots w = [] \<or> w_slots w = Rebuild_loop h bs [])"

fun w_pc_ok :: "heap \<Rightarrow> bref list \<Rightarrow> weighted_rr \<Rightarrow> w_pc \<Rightarrow> bool" where
  "w_pc_ok h bs w W_Reload = (w_slots w \<noteq> [])"
| "w_pc_ok h bs w (W_Add slots) = (slots = Rebuild_loop h bs [])"
| "w_pc_ok h bs w (W_Index slots c) = (slots = Rebuild_loop h bs [])"
| "w_pc_ok h bs w _ = True"

definition w_result :: "heap \<Rightarrow> bref list \<Rightarrow> bref list \<Rightarrow> int64 \<Rightarrow> pick" where
  "w_result h bs slots c =
     bind_outcome (go_index slots (go_rem (sint c) (int (length slots))))
       (\<lambda>b. if \<not> IsHealthy (h ! b) then
              (case first_healthy h bs of Some fb \<Rightarrow> picked fb | None \<Rightarrow> no_backends)
            else picked b)"

interpretation wrt: ticket_dispenser "wrr_thread h bs" W_Load w_counter w_ticket
  "w_result h bs (Rebuild_loop h bs [])" "w_ok h bs" "w_pc_ok h bs" for h bs
proof unfold_locales
  fix w p w' p'
  assume ok: "w_ok h bs w" "w_pc_ok h bs w p" and st: "wrr_thread h bs w p = (w', Inl p')"
  then show "w_ok h bs w' \<and> w_pc_ok h bs w' p'"
    by (cases p) (auto simp: w_ok_def WRR_Rebuild_def Rebuild_loop_Nil Let_def split: if_splits)
  from ok st show "w_counter w' = w_counter w \<and> w_ticket p' = w_ticket p \<or>
      w_counter w' = w_counter w + 1 \<and> w_ticket p = None \<and> w_ticket p' = Some (w_counter w)"
    by (cases p) (auto simp: WRR_Rebuild_def Let_def split: if_splits)
next
  fix w p q w' x
  assume "w_ok h bs w" "w_pc_ok h bs w p" "w_pc_ok h bs w q" "wrr_thread h bs w p = (w', x)"
  then show "w_pc_ok h bs w' q"
    by (cases p; cases q) (auto simp: w_ok_def WRR_Rebuild_def Rebuild_loop_Nil Let_def split: if_splits)
next
  fix w p w' r
  assume "w_ok h bs w" "w_pc_ok h bs w p" "wrr_thread h bs w p = (w', Inr r)"
  then show "w_ok h bs w' \<and> w_counter w' = w_counter w \<and>
      map_option (w_result h bs (Rebuild_loop h bs [])) (w_ticket p) = Some r"
    by (cases p) (auto simp: w_result_def Let_def split: if_splits)
qed auto

lemma w_result_healthy:
  assumes "slots \<noteq> []" and "c < 2 ^ 63" and "\<And>b. b \<in> set slots \<Longrightarrow> IsHealthy (h ! b)"
  shows "w_result h bs slots (of_nat c) = picked (slots ! (c mod length slots))"
  using assms by (simp add: w_result_def sint_of_nat_count go_index_rem)

section \<open>Executing a schedule\<close>

text \<open>A choice: a new call, or the next operation of a call at the given program counter.\<close>

definition pool_pick ::
  "('w \<Rightarrow> 'p \<Rightarrow> 'w \<times> ('p + 'r)) \<Rightarrow> 'p \<Rightarrow> 'w \<times> 'p multiset \<Rightarrow> 'p option \<Rightarrow> ('r option \<times> 'w \<times> 'p multiset) option" where
  "pool_pick thread entry s c =
     (let (w, P) = s in
      case c of
        None \<Rightarrow> Some (None, w, add_mset entry P)
      | Some p \<Rightarrow>
          (if p \<in># P then
             (case thread w p of
                (w', Inl p') \<Rightarrow> Some (None, w', add_mset p' (P - {#p#}))
              | (w', Inr r) \<Rightarrow> Some (Some r, w', P - {#p#}))
           else None))"

interpretation psched: scheduler "pool_step thread entry" "pool_pick thread entry" for thread entry
proof unfold_locales
  fix s c l t assume pk: "pool_pick thread entry s c = Some (l, t)"
  obtain w P where s: "s = (w, P)" by (cases s)
  show "pool_step thread entry s l t"
  proof (cases c)
    case None
    then show ?thesis using pk by (auto simp: s pool_pick_def intro: begin_call)
  next
    case (Some p)
    then have P: "P = add_mset p (P - {#p#})" using pk by (auto simp: s pool_pick_def split: if_splits)
    obtain w' x where x: "thread w p = (w', x)" by fastforce
    show ?thesis using pk Some x go_on [of thread w p w' _ entry "P - {#p#}"] returns [of thread w p w' _ entry "P - {#p#}"] P
      by (auto simp: s pool_pick_def split: if_splits sum.splits)
  qed
qed

section \<open>Properties\<close>

text \<open>C32: round robin is exactly fair under concurrency. In any interleaving of calls over an unchanged
  backend list at the end of which no call is in progress and \<open>k\<close> full rounds of calls have
  returned, every backend was returned exactly \<open>k\<close> times per occurrence, as long as the signed counter
  does not wrap.\<close>

theorem RoundRobin_concurrent_fair:
  assumes "run (pool_step (rr_thread bs) RR_Add) (rr, {#}) ls (rr', {#})" and "bs \<noteq> []"
    and "length (returned ls) = k * length bs" and "0 \<le> sint (rr_counter rr)"
    and "sint (rr_counter rr) + int (k * length bs) \<le> 2 ^ 63"
  shows "mset (returned ls) = repeat_mset k (image_mset picked (mset bs))"
proof (rule rrt.rounds_fair [OF assms(1,2,3)])
  show "rr_counter rr = of_nat (nat (sint (rr_counter rr)))" using counter_of_nat [OF assms(4)] by simp
  show "nat (sint (rr_counter rr)) + k * length bs \<le> 2 ^ 63"
    using assms(4,5) by (intro nat_bound) simp
  show "pick_at bs (go_rem (sint (of_nat c :: int64)) (int (length bs))) = picked (bs ! (c mod length bs))"
    if "c < 2 ^ 63" for c
    using that assms(2) by (simp add: pick_at_def sint_of_nat_count go_index_rem)
qed

text \<open>Two calls each take their number before either looks it up, and return in the other order.\<close>

theorem RoundRobin_concurrent_fair_witness:
  "\<exists>ls rr'. run (pool_step (rr_thread [7, 8]) RR_Add) (NewRoundRobin, {#}) ls (rr', {#}) \<and>
     returned ls = [picked 8, picked 7] \<and> mset (returned ls) = repeat_mset 1 (image_mset picked (mset [7, 8]))"
proof -
  have "\<exists>ls rr'. exec (pool_pick (rr_thread [7, 8]) RR_Add) (NewRoundRobin, {#})
      [None, None, Some RR_Add, Some RR_Add, Some (RR_Index 1), Some (RR_Index 0)] = Some (ls, rr', {#}) \<and>
      returned ls = [picked 8, picked 7]"
    by (simp add: pool_pick_def NewRoundRobin_def pick_at_def go_index_def go_rem_def returned_def)
  then obtain ls rr' where ex: "exec (pool_pick (rr_thread [7, 8]) RR_Add) (NewRoundRobin, {#})
      [None, None, Some RR_Add, Some RR_Add, Some (RR_Index 1), Some (RR_Index 0)] = Some (ls, rr', {#})"
    and ls: "returned ls = [picked 8, picked 7]" by blast
  note r = psched.exec_run [OF ex]
  have "mset (returned ls) = repeat_mset 1 (image_mset picked (mset [7, 8]))"
    by (rule RoundRobin_concurrent_fair [OF r]) (simp_all add: ls NewRoundRobin_def)
  with r ls show ?thesis by blast
qed

text \<open>C33: weighted round robin gives every backend its weight under concurrency. With all backends
  healthy and the slot table built from the current weights, or not built yet and so built by one
  or several of the calls, any interleaving in which \<open>k\<close> full rounds of calls have returned and none
  is in progress has returned each backend exactly \<open>k\<close> times its weight, where a weight below one
  counts as one.\<close>

theorem WRR_concurrent_weighted_fair:
  assumes "run (pool_step (wrr_thread h bs) W_Load) (w, {#}) ls (w', {#})"
    and "bs \<noteq> []" and "\<And>b. b \<in> set bs \<Longrightarrow> IsHealthy (h ! b)"
    and "w_slots w = [] \<or> w_slots w = Rebuild_loop h bs []"
    and "length (returned ls) = k * length (Rebuild_loop h bs [])" and "0 \<le> sint (w_counter w)"
    and "sint (w_counter w) + int (k * length (Rebuild_loop h bs [])) \<le> 2 ^ 63"
  shows "mset (returned ls) = (\<Sum>b\<in>#mset bs. replicate_mset (k * slot_count h b) (picked b))"
proof -
  let ?slots = "Rebuild_loop h bs []"
  have "mset (returned ls) = repeat_mset k (image_mset picked (mset ?slots))"
  proof (rule wrt.rounds_fair [OF assms(1) _ assms(5)])
    show "w_ok h bs w" using assms(2,4) by (simp add: w_ok_def)
    show "w_counter w = of_nat (nat (sint (w_counter w)))" using counter_of_nat [OF assms(6)] by simp
    show "nat (sint (w_counter w)) + k * length ?slots \<le> 2 ^ 63"
      using assms(6,7) by (intro nat_bound) simp
    show "w_result h bs ?slots (of_nat c) = picked (?slots ! (c mod length ?slots))" if "c < 2 ^ 63" for c
      using that assms(2,3) by (intro w_result_healthy) (simp_all add: Rebuild_loop_Nil Rebuild_loop_set)
  qed
  then show ?thesis by (simp add: mset_Rebuild_loop repeat_image_sum)
qed

definition two_weights :: heap where
  "two_weights = [sample_backend HealthHealthy, (sample_backend HealthHealthy)\<lparr>b_ID := ''b2'', b_Weight := 2\<rparr>]"

text \<open>Three calls find the table empty; two of them build it.\<close>

theorem WRR_concurrent_weighted_fair_witness:
  "\<exists>ls w'. run (pool_step (wrr_thread two_weights [0, 1]) W_Load) (NewWeightedRoundRobin, {#}) ls (w', {#}) \<and>
     returned ls = [picked 1, picked 0, picked 1] \<and>
     mset (returned ls) = (\<Sum>b\<in>#mset [0, 1]. replicate_mset (1 * slot_count two_weights b) (picked b))"
proof -
  have slots: "Rebuild_loop two_weights [0, 1] [] = [0, 1, 1]"
    by (simp add: two_weights_def sample_backend_def numeral_eq_Suc)
  have healthy: "IsHealthy (two_weights ! b)" if "b \<in> set [0, 1]" for b
    using that by (auto simp: two_weights_def IsHealthy_def sample_backend_def)
  let ?cs = "[None, None, Some W_Load, Some W_Load, Some W_Rebuild, Some W_Reload, Some (W_Add [0, 1, 1]),
       Some W_Rebuild, Some W_Reload, Some (W_Add [0, 1, 1]), None, Some W_Load,
       Some (W_Index [0, 1, 1] 1), Some (W_Index [0, 1, 1] 0), Some (W_Add [0, 1, 1]), Some (W_Index [0, 1, 1] 2)]"
  obtain ls w' where ex: "exec (pool_pick (wrr_thread two_weights [0, 1]) W_Load) (NewWeightedRoundRobin, {#}) ?cs
      = Some (ls, w', {#})" and ls: "returned ls = [picked 1, picked 0, picked 1]"
    using healthy by (simp add: pool_pick_def NewWeightedRoundRobin_def WRR_Rebuild_def slots go_index_def go_rem_def
        returned_def del: Rebuild_loop.simps One_nat_def)
  note r = psched.exec_run [OF ex]
  have "mset (returned ls) = (\<Sum>b\<in>#mset [0, 1]. replicate_mset (1 * slot_count two_weights b) (picked b))"
    by (rule WRR_concurrent_weighted_fair [OF r _ healthy]) (simp_all add: ls slots NewWeightedRoundRobin_def del: Rebuild_loop.simps One_nat_def)
  with r ls show ?thesis by blast
qed

end
