(* ===== verification/Hashing.thy ===== *)
theory Hashing
  imports Balancer
begin

text \<open>
  \<open>internal/balancer\<close>: the selectors that hash the client address, \<open>iphash.go\<close> and
  \<open>consistenthash.go\<close>. The consistent-hash ring is specified as a clockwise successor in a
  set of 32-bit points; the lemmas show that the sorted slice, the binary search and the
  wrap-around of the code compute it, and what a change of the backend set can move.
\<close>

unbundle bit_operations_syntax

section \<open>FNV-1a and the client address\<close>

definition fnv32a :: "string \<Rightarrow> uint32" where
  "fnv32a s = foldl (\<lambda>hash c. (hash XOR of_char c) * 16777619) 2166136261 s"

definition clientIP :: "request \<Rightarrow> string" where
  "clientIP r =
     (let xff = Header_Get (r_Header r) ''X-Forwarded-For''
      in if xff \<noteq> [] then
           (let ip = split_host xff in if ip \<noteq> [] then ip else xff)
         else
           (case SplitHostPort (r_RemoteAddr r) of
              Inl _ \<Rightarrow> r_RemoteAddr r
            | Inr (ip, _) \<Rightarrow> ip))"

section \<open>IP hash\<close>

definition IPHash_Next :: "heap \<Rightarrow> request \<Rightarrow> bref list \<Rightarrow> unit \<Rightarrow> pick \<times> unit" where
  "IPHash_Next h r bs st =
     (if length bs = 0 then (no_backends, st)
      else
        let ip = clientIP r;
            hash = fnv32a ip;
            idx = go_rem (uint hash) (int (length bs))
        in (pick_at bs idx, st))"

section \<open>Consistent hashing\<close>

definition defaultVirtualNodes :: int where
  "defaultVirtualNodes = 150"

record consistent_hash =
  ch_ring :: "uint32 list"
  ch_nodeMap :: "uint32 \<rightharpoonup> bref"
  ch_virtualNodes :: int

definition NewConsistentHash :: "int \<Rightarrow> consistent_hash" where
  "NewConsistentHash virtualNodes =
     (let virtualNodes = (if virtualNodes \<le> 0 then defaultVirtualNodes else virtualNodes)
      in \<lparr>ch_ring = [], ch_nodeMap = Map.empty, ch_virtualNodes = virtualNodes\<rparr>)"

text \<open>\<open>fmt.Sprintf("%s#%d", b.ID, i)\<close>, hashed.\<close>

definition vnode_key :: "heap \<Rightarrow> bref \<Rightarrow> nat \<Rightarrow> uint32" where
  "vnode_key h b i = fnv32a (b_ID (h ! b) @ ''#'' @ show_nat i)"

fun vnode_loop :: "heap \<Rightarrow> bref \<Rightarrow> nat list \<Rightarrow> uint32 list \<times> (uint32 \<rightharpoonup> bref) \<Rightarrow>
    uint32 list \<times> (uint32 \<rightharpoonup> bref)" where
  "vnode_loop h b [] (ring, nodeMap) = (ring, nodeMap)"
| "vnode_loop h b (i # is) (ring, nodeMap) =
     (let key = vnode_key h b i
      in vnode_loop h b is (ring @ [key], nodeMap(key \<mapsto> b)))"

fun Build_loop :: "heap \<Rightarrow> nat \<Rightarrow> bref list \<Rightarrow> uint32 list \<times> (uint32 \<rightharpoonup> bref) \<Rightarrow>
    uint32 list \<times> (uint32 \<rightharpoonup> bref)" where
  "Build_loop h n [] acc = acc"
| "Build_loop h n (b # bs) acc = Build_loop h n bs (vnode_loop h b [0..<n] acc)"

text \<open>\<open>sort.Slice\<close> by \<open><\<close> on \<open>uint32\<close> values is the sorted permutation.\<close>

definition CH_Build :: "heap \<Rightarrow> bref list \<Rightarrow> consistent_hash \<Rightarrow> consistent_hash" where
  "CH_Build h bs ch =
     (let (ring, nodeMap) = Build_loop h (nat (ch_virtualNodes ch)) bs ([], Map.empty)
      in ch\<lparr>ch_ring := sort ring, ch_nodeMap := nodeMap\<rparr>)"

text \<open>\<open>sort.Search\<close>: the binary search loop of the standard library.\<close>

function Search_loop :: "(nat \<Rightarrow> bool) \<Rightarrow> nat \<Rightarrow> nat \<Rightarrow> nat" where
  "Search_loop f i j =
     (if i < j then
        (let m = (i + j) div 2
         in if \<not> f m then Search_loop f (m + 1) j else Search_loop f i m)
      else i)"
  by pat_completeness auto
termination
  by (relation "measure (\<lambda>(f, i, j). j - i)") auto

declare Search_loop.simps [simp del]

definition sort_Search :: "nat \<Rightarrow> (nat \<Rightarrow> bool) \<Rightarrow> nat" where
  "sort_Search n f = Search_loop f 0 n"

definition CH_Next ::
  "heap \<Rightarrow> request \<Rightarrow> bref list \<Rightarrow> consistent_hash \<Rightarrow> pick \<times> consistent_hash" where
  "CH_Next h r bs ch =
     (let ch = (if length (ch_ring ch) = 0 then CH_Build h bs ch else ch);
          ring = ch_ring ch;
          nodeMap = ch_nodeMap ch
      in if length ring = 0 then (no_backends, ch)
         else
           let hash = fnv32a (clientIP r);
               idx = sort_Search (length ring) (\<lambda>i. ring ! i \<ge> hash);
               idx = (if idx = length ring then 0 else idx)
           in (Return (Inr (nodeMap (ring ! idx))), ch))"

section \<open>The specification: clockwise successors\<close>

text \<open>The first point at or after \<open>x\<close>, or the smallest point when there is none.\<close>

definition clockwise :: "'a::linorder set \<Rightarrow> 'a \<Rightarrow> 'a" where
  "clockwise K x = (if \<exists>k\<in>K. x \<le> k then Min {k\<in>K. x \<le> k} else Min K)"

text \<open>The points of a list of backends, in the order they are placed.\<close>

definition points :: "heap \<Rightarrow> nat \<Rightarrow> bref list \<Rightarrow> (uint32 \<times> bref) list" where
  "points h n bs = concat (map (\<lambda>b. map (\<lambda>i. (vnode_key h b i, b)) [0..<n]) bs)"

definition owner :: "heap \<Rightarrow> nat \<Rightarrow> bref list \<Rightarrow> uint32 \<Rightarrow> bref option" where
  "owner h n bs x =
     map_of (rev (points h n bs)) (clockwise (fst ` set (points h n bs)) x)"

section \<open>Lemmas: binary search\<close>

lemma Search_loop_stop: "\<not> i < j \<Longrightarrow> Search_loop f i j = i"
  by (simp add: Search_loop.simps [of f i j])

lemma Search_loop_left: "i < j \<Longrightarrow> f ((i + j) div 2) \<Longrightarrow> Search_loop f i j = Search_loop f i ((i + j) div 2)"
  by (simp add: Search_loop.simps [of f i j])

lemma Search_loop_right:
  "i < j \<Longrightarrow> \<not> f ((i + j) div 2) \<Longrightarrow> Search_loop f i j = Search_loop f ((i + j) div 2 + 1) j"
  by (simp add: Search_loop.simps [of f i j])

text \<open>The loop invariant: \<open>f\<close> fails below \<open>i\<close> and holds from \<open>j\<close> on.\<close>

definition split_at :: "(nat \<Rightarrow> bool) \<Rightarrow> nat \<Rightarrow> nat \<Rightarrow> nat \<Rightarrow> bool" where
  "split_at f n i j \<longleftrightarrow> i \<le> j \<and> j \<le> n \<and> (\<forall>a<i. \<not> f a) \<and> (\<forall>a. j \<le> a \<and> a < n \<longrightarrow> f a)"

lemma Search_loop_split:
  assumes mono: "\<And>a b. a \<le> b \<Longrightarrow> b < n \<Longrightarrow> f a \<Longrightarrow> f b" and "split_at f n i j"
  shows "split_at f n (Search_loop f i j) (Search_loop f i j)"
  using assms(2)
proof (induction "j - i" arbitrary: i j rule: less_induct)
  case less
  define m where "m = (i + j) div 2"
  show ?case
  proof (cases "i < j")
    case True
    then have m: "i \<le> m" "m < j" by (auto simp: m_def)
    show ?thesis
    proof (cases "f m")
      case True
      then have "split_at f n i m"
        using less.prems m mono [of m] by (auto simp: split_at_def)
      with less.hyps [of m i] m True \<open>i < j\<close> show ?thesis
        by (simp add: Search_loop_left m_def [symmetric])
    next
      case False
      then have "\<not> f a" if "a \<le> m" for a
        using that mono [of a m] m(2) less.prems by (auto simp: split_at_def)
      then have "split_at f n (m + 1) j"
        using less.prems m by (auto simp: split_at_def)
      with less.hyps [of j "m + 1"] m False \<open>i < j\<close> show ?thesis
        by (simp add: Search_loop_right m_def [symmetric])
    qed
  next
    case False
    with less.prems have "i = j" by (simp add: split_at_def)
    with less.prems show ?thesis by (simp add: Search_loop_stop)
  qed
qed

lemma sort_Search_split:
  assumes "\<And>a b. a \<le> b \<Longrightarrow> b < n \<Longrightarrow> f a \<Longrightarrow> f b"
  shows "split_at f n (sort_Search n f) (sort_Search n f)"
  unfolding sort_Search_def by (rule Search_loop_split) (use assms in \<open>auto simp: split_at_def\<close>)

section \<open>Lemmas: the ring\<close>

lemma clockwise_in: "finite K \<Longrightarrow> K \<noteq> {} \<Longrightarrow> clockwise K x \<in> K"
proof (cases "\<exists>k\<in>K. x \<le> k")
  case True
  assume "finite K"
  then have "Min {k\<in>K. x \<le> k} \<in> {k\<in>K. x \<le> k}" using True by (intro Min_in) auto
  then show ?thesis using True by (simp add: clockwise_def)
qed (auto simp: clockwise_def)

lemma clockwise_eqI:
  assumes "finite K" and "k \<in> K"
    and "\<And>k'. k' \<in> K \<Longrightarrow> x \<le> k \<Longrightarrow> x \<le> k' \<Longrightarrow> k \<le> k'"
    and "\<And>k'. k' \<in> K \<Longrightarrow> \<not> x \<le> k \<Longrightarrow> \<not> x \<le> k' \<and> k \<le> k'"
  shows "clockwise K x = k"
proof (cases "x \<le> k")
  case True
  then have "Min {k\<in>K. x \<le> k} = k" using assms by (intro Min_eqI) auto
  then show ?thesis using True assms(2) by (auto simp: clockwise_def)
next
  case False
  then have "Min K = k" using assms by (intro Min_eqI) auto
  then show ?thesis using False assms(4) by (auto simp: clockwise_def)
qed

text \<open>A point of a smaller set that is clockwise next in the larger one is so in the smaller.\<close>

lemma clockwise_subset:
  assumes "finite K" and "K' \<subseteq> K" and "clockwise K x \<in> K'"
  shows "clockwise K' x = clockwise K x"
proof (rule clockwise_eqI)
  show "finite K'" using assms finite_subset by blast
  show "clockwise K x \<in> K'" by (fact assms(3))
next
  fix k' assume k': "k' \<in> K'" "x \<le> clockwise K x" "x \<le> k'"
  then have "clockwise K x = Min {k\<in>K. x \<le> k}" using assms by (auto simp: clockwise_def)
  also have "\<dots> \<le> k'" using k' assms by (intro Min_le) auto
  finally show "clockwise K x \<le> k'" .
next
  fix k' assume k': "k' \<in> K'" "\<not> x \<le> clockwise K x"
  have "\<not> (\<exists>k\<in>K. x \<le> k)"
  proof
    assume ex: "\<exists>k\<in>K. x \<le> k"
    then have "Min {k\<in>K. x \<le> k} \<in> {k\<in>K. x \<le> k}" using assms(1) by (intro Min_in) auto
    then show False using ex k' by (simp add: clockwise_def)
  qed
  then show "\<not> x \<le> k' \<and> clockwise K x \<le> k'"
    using k' assms by (auto simp: clockwise_def)
qed

text \<open>Binary search and wrap-around on a sorted slice give the clockwise successor.\<close>

lemma search_clockwise:
  fixes x :: "'a::linorder"
  assumes "sorted ring" and "ring \<noteq> []"
  defines "idx \<equiv> sort_Search (length ring) (\<lambda>i. ring ! i \<ge> x)"
  shows "ring ! (if idx = length ring then 0 else idx) = clockwise (set ring) x"
proof -
  have "split_at (\<lambda>i. ring ! i \<ge> x) (length ring) idx idx"
    unfolding idx_def
    by (rule sort_Search_split) (use assms(1) in \<open>auto dest: sorted_nth_mono intro: order_trans\<close>)
  then have le: "idx \<le> length ring" and below: "\<And>a. a < idx \<Longrightarrow> \<not> ring ! a \<ge> x"
    and above: "\<And>a. idx \<le> a \<Longrightarrow> a < length ring \<Longrightarrow> ring ! a \<ge> x"
    by (auto simp: split_at_def)
  show ?thesis
  proof (rule sym, rule clockwise_eqI)
    let ?j = "if idx = length ring then 0 else idx"
    have j: "?j < length ring" using le assms(2) by auto
    then show "ring ! ?j \<in> set ring" by simp
    fix k' assume "k' \<in> set ring"
    then obtain a where a: "k' = ring ! a" "a < length ring" by (auto simp: in_set_conv_nth)
    show "ring ! ?j \<le> k'" if "x \<le> ring ! ?j" "x \<le> k'"
      using a below [of a] that j sorted_nth_mono [OF assms(1)]
      by (metis le less_imp_le not_le_imp_less order_refl below bot_nat_0.extremum)
    show "\<not> x \<le> k' \<and> ring ! ?j \<le> k'" if "\<not> x \<le> ring ! ?j"
      using a that j above [of idx] below [of a] le sorted_nth_mono [OF assms(1), of 0 a]
      by (auto split: if_splits)
  qed simp
qed

section \<open>Lemmas: building the ring\<close>

lemma points_Nil [simp]: "points h n [] = []"
  by (simp add: points_def)

lemma points_append: "points h n (bs @ cs) = points h n bs @ points h n cs"
  by (simp add: points_def)

lemma points_eq_Nil: "points h n bs = [] \<longleftrightarrow> bs = [] \<or> n = 0"
  by (auto simp: points_def)

lemma points_owner: "(k, b) \<in> set (points h n bs) \<Longrightarrow> b \<in> set bs"
  by (auto simp: points_def)

lemma points_filter: "points h n (filter P bs) = filter (\<lambda>p. P (snd p)) (points h n bs)"
  by (induction bs) (simp_all add: points_def filter_map o_def)

lemma vnode_loop_points:
  "vnode_loop h b is (ring, m) =
    (ring @ map (vnode_key h b) is, m ++ map_of (rev (map (\<lambda>i. (vnode_key h b i, b)) is)))"
  by (induction "is" arbitrary: ring m) (simp_all add: Let_def map_add_def fun_eq_iff split: option.split)

lemma Build_loop_points:
  "Build_loop h n bs (ring, m) =
    (ring @ map fst (points h n bs), m ++ map_of (rev (points h n bs)))"
  by (induction bs arbitrary: ring m) (simp_all add: vnode_loop_points points_def o_def map_add_assoc)

abbreviation vnodes :: "consistent_hash \<Rightarrow> nat" where
  "vnodes ch \<equiv> nat (ch_virtualNodes ch)"

lemma CH_Build_ring: "ch_ring (CH_Build h bs ch) = sort (map fst (points h (vnodes ch) bs))"
  by (simp add: CH_Build_def Build_loop_points)

lemma CH_Build_nodeMap: "ch_nodeMap (CH_Build h bs ch) = map_of (rev (points h (vnodes ch) bs))"
  by (simp add: CH_Build_def Build_loop_points)

lemma CH_Next_ring:
  assumes "ch_ring ch \<noteq> []" and "sorted (ch_ring ch)"
  shows "CH_Next h r bs ch =
    (Return (Inr (ch_nodeMap ch (clockwise (set (ch_ring ch)) (fnv32a (clientIP r))))), ch)"
  using assms search_clockwise [OF assms(2,1), of "fnv32a (clientIP r)"]
  by (simp add: CH_Next_def Let_def)

lemma CH_Next_built:
  assumes "bs \<noteq> []" and "0 < ch_virtualNodes ch"
  shows "CH_Next h r cs (CH_Build h' bs ch) =
    (Return (Inr (owner h' (vnodes ch) bs (fnv32a (clientIP r)))), CH_Build h' bs ch)"
proof -
  have "points h' (vnodes ch) bs \<noteq> []" using assms by (simp add: points_eq_Nil)
  then have "ch_ring (CH_Build h' bs ch) \<noteq> []"
    by (simp add: CH_Build_ring) (metis length_0_conv length_map length_sort)
  then show ?thesis
    by (subst CH_Next_ring) (simp_all add: CH_Build_ring CH_Build_nodeMap owner_def)
qed

lemma owner_in:
  assumes "bs \<noteq> []" and "0 < n"
  shows "\<exists>b\<in>set bs. owner h n bs x = Some b"
proof -
  let ?K = "fst ` set (points h n bs)"
  have "clockwise ?K x \<in> ?K"
    using assms by (intro clockwise_in) (simp_all add: points_eq_Nil)
  then obtain b where "owner h n bs x = Some b"
    unfolding owner_def by (metis dom_map_of_conv_image_fst domD set_rev)
  then show ?thesis
    unfolding owner_def by (metis map_of_SomeD points_owner set_rev)
qed

text \<open>Adding a backend at the end moves a key to the new backend or not at all.\<close>

lemma owner_add:
  assumes "bs \<noteq> []" and "0 < n"
  shows "owner h n (bs @ [x]) k = owner h n bs k \<or> owner h n (bs @ [x]) k = Some x"
proof -
  let ?P = "points h n bs" and ?Q = "points h n [x]"
  define c where "c = clockwise (fst ` set (?P @ ?Q)) k"
  have own: "owner h n (bs @ [x]) k = (map_of (rev ?P) ++ map_of (rev ?Q)) c"
    by (simp add: owner_def points_append c_def)
  show ?thesis
  proof (cases "c \<in> fst ` set ?Q")
    case True
    then obtain b where "map_of (rev ?Q) c = Some b"
      by (metis dom_map_of_conv_image_fst domD set_rev)
    moreover from this have "b = x"
      using points_owner by (metis map_of_SomeD set_rev empty_iff empty_set set_ConsD)
    ultimately show ?thesis using own by (simp add: map_add_def)
  next
    case False
    have "c \<in> fst ` set (?P @ ?Q)"
      unfolding c_def using assms by (intro clockwise_in) (simp_all add: points_eq_Nil)
    with False have "c \<in> fst ` set ?P" by auto
    then have "clockwise (fst ` set ?P) k = c"
      unfolding c_def by (intro clockwise_subset) auto
    moreover have "map_of (rev ?Q) c = None"
      using False by (simp add: map_of_eq_None_iff)
    ultimately show ?thesis using own by (simp add: owner_def map_add_def)
  qed
qed

lemma map_of_filter_other:
  "map_of xs k = Some c \<Longrightarrow> P c \<Longrightarrow> map_of (filter (\<lambda>p. P (snd p)) xs) k = Some c"
  by (induction xs) (auto split: if_splits)

text \<open>Removing a backend does not move the keys of the others.\<close>

lemma owner_remove:
  assumes "owner h n bs k = Some c" and "c \<noteq> b"
  shows "owner h n (filter (\<lambda>x. x \<noteq> b) bs) k = Some c"
proof -
  let ?P = "points h n bs"
  let ?F = "filter (\<lambda>p. snd p \<noteq> b) ?P"
  define s where "s = clockwise (fst ` set ?P) k"
  have found: "map_of (rev ?P) s = Some c" using assms(1) by (simp add: owner_def s_def)
  then have "(s, c) \<in> set ?F" using assms(2) by (auto dest: map_of_SomeD)
  then have "s \<in> fst ` set ?F" by force
  then have "clockwise (fst ` set ?F) k = s"
    unfolding s_def by (intro clockwise_subset) auto
  moreover have "map_of (rev ?F) s = Some c"
    using map_of_filter_other [OF found, of "\<lambda>c. c \<noteq> b"] assms(2) by (simp add: rev_filter)
  ultimately show ?thesis by (simp add: owner_def points_filter)
qed

lemma IPHash_Next_at:
  "bs \<noteq> [] \<Longrightarrow> IPHash_Next h r bs st =
    (picked (bs ! (unat (fnv32a (clientIP r)) mod length bs)), st)"
  using go_index_rem [of "uint (fnv32a (clientIP r))" bs]
  by (simp add: IPHash_Next_def Let_def pick_at_def)

interpretation ip_hash: selector IPHash_Next "\<lambda>h bs st. True"
  by unfold_locales (auto simp: IPHash_Next_at)

lemma clientIP_port:
  assumes "Header_Get (r_Header r) ''X-Forwarded-For'' = []" and "r_RemoteAddr r = ip @ '':'' @ port"
    and "ip \<noteq> []" "set ip \<inter> set '':[]'' = {}" "set port \<inter> set '':[]'' = {}"
  shows "clientIP r = ip"
  using assms SplitHostPort_plain [OF assms(4,5,3)] by (simp add: clientIP_def)

section \<open>Properties\<close>

text \<open>Two backends for concrete instances.\<close>

definition sample_heap :: heap where
  "sample_heap = [sample_backend HealthHealthy, (sample_backend HealthHealthy)\<lparr>b_ID := ''b2''\<rparr>]"

text \<open>C5: on a ring built from a non-empty list of backends, \<open>Next\<close> returns the backend that
  owns the first virtual node clockwise from the hash of the client address (wrapping around at
  the end of the ring), that backend is one of those the ring was built from, and the ring is
  left unchanged.\<close>

theorem CH_Next_clockwise_owner:
  assumes "bs \<noteq> []" and "0 < ch_virtualNodes ch"
  shows "\<exists>b\<in>set bs. owner h (vnodes ch) bs (fnv32a (clientIP r)) = Some b \<and>
    CH_Next h' r cs (CH_Build h bs ch) = (picked b, CH_Build h bs ch)"
  using owner_in [OF assms(1), of "vnodes ch" h "fnv32a (clientIP r)"] assms
  by (auto simp: CH_Next_built)

theorem CH_Next_clockwise_owner_witness:
  "\<exists>b\<in>set [0, 1]. owner sample_heap (vnodes (NewConsistentHash 3)) [0, 1]
        (fnv32a (clientIP (sample_request ''h'' ''/''))) = Some b \<and>
     CH_Next [] (sample_request ''h'' ''/'') [] (CH_Build sample_heap [0, 1] (NewConsistentHash 3)) =
       (picked b, CH_Build sample_heap [0, 1] (NewConsistentHash 3))"
  by (rule CH_Next_clockwise_owner) (simp_all add: NewConsistentHash_def)

text \<open>C30: minimal remapping on scale-out. When a backend is appended and the ring rebuilt,
  every client either keeps its backend or moves to the new one; no client moves between two
  old backends.\<close>

theorem CH_add_minimal_remap:
  assumes "bs \<noteq> []" and "0 < ch_virtualNodes ch"
  shows "fst (CH_Next h r cs (CH_Build h (bs @ [x]) ch)) = fst (CH_Next h r cs' (CH_Build h bs ch)) \<or>
    fst (CH_Next h r cs (CH_Build h (bs @ [x]) ch)) = picked x"
  using owner_add [of bs "vnodes ch" h x "fnv32a (clientIP r)"] assms
  by (auto simp: CH_Next_built)

theorem CH_add_minimal_remap_witness:
  "let ch = NewConsistentHash 0; r = sample_request ''h'' ''/''
   in fst (CH_Next sample_heap r [] (CH_Build sample_heap ([0] @ [1]) ch)) =
        fst (CH_Next sample_heap r [] (CH_Build sample_heap [0] ch)) \<or>
      fst (CH_Next sample_heap r [] (CH_Build sample_heap ([0] @ [1]) ch)) = picked 1"
  unfolding Let_def
  by (rule CH_add_minimal_remap) (simp_all add: NewConsistentHash_def defaultVirtualNodes_def)

text \<open>C31: minimal remapping on removal. When a backend is taken out of the list and the ring
  rebuilt, every client that was served by another backend keeps it.\<close>

theorem CH_remove_minimal_remap:
  assumes "fst (CH_Next h r cs (CH_Build h bs ch)) = picked c" and "c \<noteq> b"
    and "bs \<noteq> []" and "0 < ch_virtualNodes ch"
  shows "fst (CH_Next h r cs' (CH_Build h (filter (\<lambda>x. x \<noteq> b) bs) ch)) = picked c"
proof -
  have own: "owner h (vnodes ch) bs (fnv32a (clientIP r)) = Some c"
    using assms by (simp add: CH_Next_built)
  then have "c \<in> set bs" using owner_in [OF assms(3), of "vnodes ch" h "fnv32a (clientIP r)"] assms(4)
    by auto
  then have "filter (\<lambda>x. x \<noteq> b) bs \<noteq> []" using assms(2) by (auto simp: filter_empty_conv)
  then show ?thesis
    using owner_remove [OF own assms(2)] assms(4) by (simp add: CH_Next_built)
qed

theorem CH_remove_minimal_remap_witness:
  "let ch = NewConsistentHash 2; r = sample_request ''h'' ''/''
   in fst (CH_Next sample_heap r [] (CH_Build sample_heap [0, 1] ch)) = picked 0 \<and>
      fst (CH_Next sample_heap r [0] (CH_Build sample_heap (filter (\<lambda>x. x \<noteq> 1) [0, 1]) ch)) = picked 0"
proof -
  let ?ch = "NewConsistentHash 2" and ?r = "sample_request ''h'' ''/''"
  have "fst (CH_Next sample_heap ?r [] (CH_Build sample_heap [0, 1] ?ch)) = picked 0"
    by code_simp
  then show ?thesis
    using CH_remove_minimal_remap [of sample_heap ?r "[]" "[0, 1]" ?ch 0 1 "[0]"]
    by (simp add: Let_def NewConsistentHash_def)
qed

text \<open>Once its ring is built, the consistent-hash selector ignores the list of healthy
  backends it is called with and the current health: the choice depends on the ring and the
  request alone, so a backend that has become unhealthy, or was removed from the pool, keeps
  receiving its clients until \<open>Build\<close> is called again. In particular a ring built from one
  backend routes every request to it, whatever its health and whatever list is passed.\<close>

theorem CH_stale_ring:
  "(ch_ring ch \<noteq> [] \<longrightarrow> CH_Next h r bs ch = CH_Next h' r bs' ch) \<and>
   (0 < ch_virtualNodes ch' \<longrightarrow> fst (CH_Next h r bs (CH_Build h' [b] ch')) = picked b)"
  using owner_in [of "[b]" "vnodes ch'" h' "fnv32a (clientIP r)"]
  by (auto simp: CH_Next_def [of _ _ _ ch] CH_Next_built)

theorem CH_stale_ring_witness:
  "let h = [sample_backend HealthUnhealthy, (sample_backend HealthHealthy)\<lparr>b_ID := ''b2''\<rparr>]
   in Pool_Healthy h (NewPool [0, 1]) = [1] \<and>
      fst (CH_Next h (sample_request ''h'' ''/'') [1] (CH_Build h [0] (NewConsistentHash 1))) = picked 0"
  using CH_stale_ring [of "NewConsistentHash 1" _ "sample_request ''h'' ''/''" "[1]" _ _ "NewConsistentHash 1" 0]
  by (simp add: Let_def Pool_Healthy_def NewPool_def IsHealthy_def NewConsistentHash_def sample_backend_def)

text \<open>IP hash is sticky: without a forwarding header, all requests from one client address
  go to the same backend of the list, whatever their source ports.\<close>

theorem IPHash_sticky:
  assumes "Header_Get (r_Header r) ''X-Forwarded-For'' = []" "r_RemoteAddr r = ip @ '':'' @ port"
    and "Header_Get (r_Header r') ''X-Forwarded-For'' = []" "r_RemoteAddr r' = ip @ '':'' @ port'"
    and "ip \<noteq> []" "set ip \<inter> set '':[]'' = {}" "set port \<inter> set '':[]'' = {}" "set port' \<inter> set '':[]'' = {}"
    and "bs \<noteq> []"
  shows "\<exists>b\<in>set bs. IPHash_Next h r bs st = (picked b, st) \<and> IPHash_Next h' r' bs st' = (picked b, st')"
  using assms clientIP_port [of r ip port] clientIP_port [of r' ip port']
  by (simp add: IPHash_Next_at)

theorem IPHash_sticky_witness:
  "let req = (\<lambda>addr. (sample_request ''h'' ''/'')\<lparr>r_RemoteAddr := addr\<rparr>)
   in \<exists>b\<in>set [0, 1, 2]. IPHash_Next [] (req (''10.0.0.1'' @ '':'' @ ''1234'')) [0, 1, 2] () = (picked b, ()) \<and>
      IPHash_Next [] (req (''10.0.0.1'' @ '':'' @ ''999'')) [0, 1, 2] () = (picked b, ())"
  unfolding Let_def
  by (rule IPHash_sticky [where ip = "''10.0.0.1''" and port = "''1234''" and port' = "''999''"])
    (simp_all add: Header_Get_def sample_request_def)

text \<open>The client address taken from \<open>X-Forwarded-For\<close> is not the leftmost entry of the
  list but the whole header value: a non-empty value without a colon is returned as it is, so the
  same client behind different proxy chains is treated as different clients.\<close>

theorem clientIP_whole_forwarded_list:
  "Header_Get (r_Header r) ''X-Forwarded-For'' = first @ '', '' @ rest \<Longrightarrow>
   CHR '':'' \<notin> set first \<union> set rest \<Longrightarrow> clientIP r = first @ '', '' @ rest"
  by (simp add: clientIP_def split_host_def SplitHostPort_no_colon)

theorem clientIP_whole_forwarded_list_witness:
  "clientIP ((sample_request ''h'' ''/'')
     \<lparr>r_Header := Header_Set Map.empty ''X-Forwarded-For'' (''10.0.0.1'' @ '', '' @ ''10.9.9.9'')\<rparr>)
   = ''10.0.0.1'' @ '', '' @ ''10.9.9.9''"
  by (rule clientIP_whole_forwarded_list) (simp_all add: Header_Get_Set)

end
