(* ===== verification/Selectors.thy ===== *)
theory Selectors
  imports Hashing
begin

text \<open>
  \<open>internal/balancer/factory.go\<close>: the selector values behind the \<open>Selector\<close> interface,
  construction by algorithm name, and dynamic dispatch of \<open>Next\<close>.
\<close>

datatype 'g selector_impl =
    SelRoundRobin round_robin
  | SelWeighted weighted_rr
  | SelLeastConn
  | SelIPHash
  | SelConsistent consistent_hash
  | SelP2C "'g p2c"

text \<open>\<open>seed42\<close> is the state of \<open>rand.New(rand.NewSource(42))\<close>.\<close>

definition NewSelector :: "'g \<Rightarrow> string \<Rightarrow> sel_error + 'g selector_impl" where
  "NewSelector seed42 algorithm =
     (if algorithm = ''round_robin'' then Inr (SelRoundRobin NewRoundRobin)
      else if algorithm = ''weighted_round_robin'' then Inr (SelWeighted NewWeightedRoundRobin)
      else if algorithm = ''least_connections'' then Inr SelLeastConn
      else if algorithm = ''ip_hash'' then Inr SelIPHash
      else if algorithm = ''consistent_hash'' then Inr (SelConsistent (NewConsistentHash defaultVirtualNodes))
      else if algorithm = ''p2c'' then Inr (SelP2C (NewP2C seed42))
      else Inl (UnknownAlgorithm algorithm))"

text \<open>The method call \<open>sel.Next(r, backends)\<close> on an interface value.\<close>

fun Selector_Next ::
  "(nat \<Rightarrow> 'g \<Rightarrow> nat \<times> 'g) \<Rightarrow> heap \<Rightarrow> request \<Rightarrow> bref list \<Rightarrow> 'g selector_impl \<Rightarrow>
     pick \<times> 'g selector_impl" where
  "Selector_Next Intn h r bs (SelRoundRobin s) = map_prod id SelRoundRobin (RoundRobin_Next h r bs s)"
| "Selector_Next Intn h r bs (SelWeighted s) = map_prod id SelWeighted (WRR_Next h r bs s)"
| "Selector_Next Intn h r bs SelLeastConn = map_prod id (\<lambda>_. SelLeastConn) (LeastConnections_Next h r bs ())"
| "Selector_Next Intn h r bs SelIPHash = map_prod id (\<lambda>_. SelIPHash) (IPHash_Next h r bs ())"
| "Selector_Next Intn h r bs (SelConsistent s) = map_prod id SelConsistent (CH_Next h r bs s)"
| "Selector_Next Intn h r bs (SelP2C s) = map_prod id SelP2C (P2C_Next Intn h r bs s)"

section \<open>Lemmas\<close>

lemma WRR_Next_fresh_member:
  assumes "bs \<noteq> []" and "\<And>b. b \<in> set bs \<Longrightarrow> IsHealthy (h ! b)"
  shows "\<exists>b\<in>set bs. fst (WRR_Next h r bs NewWeightedRoundRobin) = picked b"
proof -
  let ?slots = "Rebuild_loop h bs []"
  have slots: "?slots \<noteq> []" "set ?slots = set bs"
    using assms(1) by (simp_all add: Rebuild_loop_Nil Rebuild_loop_set)
  then have "?slots ! 0 \<in> set bs" by (metis length_greater_0_conv nth_mem)
  moreover have "fst (WRR_Next h r bs NewWeightedRoundRobin) = picked (?slots ! 0)"
    using slots assms calculation
    by (simp add: WRR_Next_def Let_def NewWeightedRoundRobin_def WRR_Rebuild_def go_rem_def go_index_def)
  ultimately show ?thesis by blast
qed

lemma CH_Next_fresh: "ch_ring ch = [] \<Longrightarrow> bs \<noteq> [] \<Longrightarrow> 0 < ch_virtualNodes ch \<Longrightarrow>
    CH_Next h r bs ch = CH_Next h r bs (CH_Build h bs ch)"
  by (auto simp: CH_Next_def Let_def CH_Build_ring points_eq_Nil)

lemma CH_Next_fresh_member:
  assumes "bs \<noteq> []"
  shows "\<exists>b\<in>set bs. fst (CH_Next h r bs (NewConsistentHash n)) = picked b"
proof -
  have pos: "0 < ch_virtualNodes (NewConsistentHash n)" "ch_ring (NewConsistentHash n) = []"
    by (simp_all add: NewConsistentHash_def defaultVirtualNodes_def Let_def)
  show ?thesis
    using owner_in [OF assms, of "vnodes (NewConsistentHash n)" h "fnv32a (clientIP r)"] pos
    by (auto simp: CH_Next_fresh assms CH_Next_built)
qed

section \<open>Properties\<close>

text \<open>A selector constructed by any valid algorithm name returns an error on an empty list
  and, on its first call with a non-empty list of healthy backends, an element of that list
  (provided the generator keeps its range and not all connection counts are saturated).\<close>

theorem NewSelector_first_pick:
  assumes "NewSelector seed alg = Inr sel" and "draws_in_range Intn"
    and "\<And>b. b \<in> set bs \<Longrightarrow> IsHealthy (h ! b)"
    and "\<And>b. b \<in> set bs \<Longrightarrow> sint (ActiveConns (h ! b)) < max_int64"
  shows "if bs = [] then fst (Selector_Next Intn h r bs sel) = no_backends
    else \<exists>b\<in>set bs. fst (Selector_Next Intn h r bs sel) = picked b"
proof (cases "bs = []")
  case True
  with assms(1) show ?thesis
    by (auto simp: NewSelector_def RoundRobin_Next_def WRR_Next_def WRR_Rebuild_def Let_def
        LeastConnections_Next_def IPHash_Next_def CH_Next_def CH_Build_def P2C_Next_def
        NewConsistentHash_def NewWeightedRoundRobin_def split: if_splits)
next
  case False
  have "\<exists>b\<in>set bs. sint (ActiveConns (h ! b)) < max_int64"
    using False assms(4) by (cases bs) auto
  with False assms(1) show ?thesis
    using rr.next_member [where bs = bs and s = NewRoundRobin and h = h and r = r] WRR_Next_fresh_member [OF False assms(3), of r]
      lc.next_member [where bs = bs and h = h and r = r]
      ip_hash.next_member [where bs = bs and h = h and r = r]
      CH_Next_fresh_member [OF False, of h r defaultVirtualNodes]
      p2c.next_member [OF False assms(2), where h = h and r = r and s = "NewP2C seed"]
    by (auto simp: NewSelector_def NewRoundRobin_def split: if_splits)
qed

theorem NewSelector_first_pick_witness:
  "let Intn = (\<lambda>n g. (g mod n, Suc g));
       h = [sample_backend HealthHealthy];
       sel = SelConsistent (NewConsistentHash defaultVirtualNodes)
   in NewSelector (0::nat) ''consistent_hash'' = Inr sel \<and>
      (\<exists>b\<in>set [0]. fst (Selector_Next Intn h (sample_request ''h'' ''/'') [0] sel) = picked b)"
proof -
  let ?Intn = "\<lambda>n g. (g mod n, Suc g)"
  let ?h = "[sample_backend HealthHealthy]"
  let ?sel = "SelConsistent (NewConsistentHash defaultVirtualNodes)"
  have new: "NewSelector (0::nat) ''consistent_hash'' = Inr ?sel"
    by (simp add: NewSelector_def)
  have range: "draws_in_range ?Intn" by (simp add: draws_in_range_def)
  show ?thesis
    using new NewSelector_first_pick [OF new range, of "[0]" ?h "sample_request ''h'' ''/''"]
    by (simp add: Let_def IsHealthy_def ActiveConns_def sample_backend_def)
qed

end
