(* ===== verification/Float64.thy ===== *)
theory Float64
  imports Prelude
begin

text \<open>
  The \<open>float64\<close> arithmetic that the program uses. A finite \<open>float64\<close> is its value, a
  rational number; an operation computes exactly and rounds to 53 significant bits, to
  nearest with ties to even, as IEEE 754 prescribes. Overflow to infinity and subnormal
  results are outside the range of the quantities the program computes (rates, counts and
  seconds) and are not modelled.
\<close>

type_synonym float64 = rat

fun round_half_even :: "nat \<Rightarrow> nat \<Rightarrow> nat" where
  "round_half_even a b =
     (let q = a div b; r = a mod b
      in if 2 * r < b then q else if 2 * r > b then q + 1 else if even q then q else q + 1)"

declare round_half_even.simps [simp del]

text \<open>How often \<open>a / b\<close> is doubled to reach \<open>2^52\<close>, or halved to come below \<open>2^53\<close>.\<close>

function float_up :: "nat \<Rightarrow> nat \<Rightarrow> nat" where
  "float_up a b = (if a = 0 \<or> b * 2 ^ 52 \<le> a then 0 else float_up (2 * a) b + 1)"
  by pat_completeness auto
termination
  by (relation "measure (\<lambda>(a, b). b * 2 ^ 52 - a)") auto

function float_down :: "nat \<Rightarrow> nat \<Rightarrow> nat" where
  "float_down a b = (if b = 0 \<or> a < b * 2 ^ 53 then 0 else float_down a (2 * b) + 1)"
  by pat_completeness auto
termination
  by (relation "measure (\<lambda>(a, b). a - b)") auto

declare float_up.simps [simp del] float_down.simps [simp del]

definition fround_pos :: "nat \<Rightarrow> nat \<Rightarrow> float64" where
  "fround_pos a b =
     (if a < b * 2 ^ 53
      then of_nat (round_half_even (a * 2 ^ float_up a b) b) / 2 ^ float_up a b
      else of_nat (round_half_even a (b * 2 ^ float_down a b)) * 2 ^ float_down a b)"

text \<open>The \<open>float64\<close> nearest to a rational number.\<close>

definition fround :: "rat \<Rightarrow> float64" where
  "fround x =
     (let (n, d) = quotient_of x
      in if n < 0 then - fround_pos (nat (- n)) (nat d) else fround_pos (nat n) (nat d))"

text \<open>
  Conversion to \<open>int64\<close> truncates; what a value outside the range becomes depends on the
  machine and is a parameter.
\<close>

definition float_to_int64 :: "(float64 \<Rightarrow> int64) \<Rightarrow> float64 \<Rightarrow> int64" where
  "float_to_int64 oor x =
     (let n = (if x < 0 then \<lceil>x\<rceil> else \<lfloor>x\<rfloor>)
      in if min_int64 \<le> n \<and> n \<le> max_int64 then word_of_int n else oor x)"

section \<open>The rounding error\<close>

lemma round_half_even_error:
  assumes "0 < b"
  shows "\<bar>of_nat (round_half_even a b) - (of_nat a / of_nat b :: rat)\<bar> \<le> 1 / 2"
proof -
  define q r where "q = a div b" and "r = a mod b"
  have "a = q * b + r" and r: "r < b" using assms by (simp_all add: q_def r_def)
  then have a: "(of_nat a / of_nat b :: rat) = of_nat q + of_nat r / of_nat b"
    using assms by (simp add: field_simps)
  have "(of_nat r / of_nat b :: rat) \<le> 1 / 2 \<longleftrightarrow> of_nat (2 * r) \<le> (of_nat b :: rat)"
    "1 / 2 \<le> (of_nat r / of_nat b :: rat) \<longleftrightarrow> of_nat b \<le> (of_nat (2 * r) :: rat)"
    using assms by (simp_all add: field_simps)
  then have half: "(of_nat r / of_nat b :: rat) \<le> 1 / 2 \<longleftrightarrow> 2 * r \<le> b"
    "1 / 2 \<le> (of_nat r / of_nat b :: rat) \<longleftrightarrow> b \<le> 2 * r"
    by (simp_all only: of_nat_le_iff)
  have "0 \<le> (of_nat r / of_nat b :: rat)" "(of_nat r / of_nat b :: rat) \<le> 1"
    using assms r by simp_all
  then show ?thesis using half a
    by (auto simp: round_half_even.simps Let_def simp flip: q_def r_def)
qed

lemma float_up_lower: "0 < a \<Longrightarrow> b * 2 ^ 52 \<le> a * 2 ^ float_up a b"
proof (induction a b rule: float_up.induct)
  case (1 a b)
  then show ?case by (subst float_up.simps) (auto simp: mult.assoc)
qed

lemma float_down_lower: "b * 2 ^ 53 \<le> a \<Longrightarrow> b * 2 ^ float_down a b * 2 ^ 52 \<le> a"
proof (induction a b rule: float_down.induct)
  case (1 a b)
  show ?case
  proof (cases "b = 0")
    case False
    then have d: "float_down a b = float_down a (2 * b) + 1"
      using 1(2) by (subst float_down.simps) simp
    show ?thesis
    proof (cases "2 * b * 2 ^ 53 \<le> a")
      case True
      then show ?thesis using 1(1) False d by (simp add: mult_ac)
    next
      case ge: False
      then have "float_down a (2 * b) = 0" by (subst float_down.simps) simp
      then show ?thesis using 1(2) d by simp
    qed
  qed simp
qed

lemma scaled_error:
  fixes x c :: rat
  assumes "2 ^ 52 \<le> x" and "\<bar>n - x\<bar> \<le> 1 / 2" and "0 < c"
  shows "\<bar>n * c - x * c\<bar> \<le> x * c / 2 ^ 53"
proof -
  have "\<bar>n - x\<bar> \<le> x / 2 ^ 53" using assms(1,2) by simp
  then have "\<bar>n - x\<bar> * c \<le> x / 2 ^ 53 * c" using assms(3) by (intro mult_right_mono) simp_all
  moreover have "\<bar>n * c - x * c\<bar> = \<bar>n - x\<bar> * c"
    using assms(3) by (simp add: abs_mult left_diff_distrib [symmetric])
  ultimately show ?thesis by simp
qed

lemma fround_pos_error:
  assumes "0 < b"
  shows "\<bar>fround_pos a b - of_nat a / of_nat b\<bar> \<le> of_nat a / of_nat b / 2 ^ 53"
proof -
  consider "a = 0" | "0 < a" "a < b * 2 ^ 53" | "b * 2 ^ 53 \<le> a" by linarith
  then show ?thesis
  proof cases
    case 1
    then show ?thesis using assms by (simp add: fround_pos_def round_half_even.simps)
  next
    case 2
    define e where "e = float_up a b"
    have "of_nat (b * 2 ^ 52) \<le> (of_nat (a * 2 ^ e) :: rat)"
      unfolding of_nat_le_iff e_def using 2 by (intro float_up_lower)
    then have "2 ^ 52 \<le> (of_nat (a * 2 ^ e) / of_nat b :: rat)"
      using assms by (simp add: field_simps)
    from scaled_error [OF this round_half_even_error [OF assms], of "1 / 2 ^ e"]
    show ?thesis using 2 by (simp add: fround_pos_def flip: e_def)
  next
    case 3
    define e where "e = float_down a b"
    have "of_nat (b * 2 ^ e * 2 ^ 52) \<le> (of_nat a :: rat)"
      unfolding of_nat_le_iff e_def using 3 by (intro float_down_lower)
    then have "2 ^ 52 \<le> (of_nat a / of_nat (b * 2 ^ e) :: rat)"
      using assms by (simp add: field_simps)
    from scaled_error [OF this round_half_even_error, of "2 ^ e"]
    show ?thesis using 3 assms by (simp add: fround_pos_def flip: e_def)
  qed
qed

lemma fround_error:
  assumes "0 \<le> x"
  shows "\<bar>fround x - x\<bar> \<le> x / 2 ^ 53"
proof -
  obtain n d where q: "quotient_of x = (n, d)" by fastforce
  have x: "x = of_int n / of_int d" and d: "0 < d"
    using quotient_of_div [OF q] quotient_of_denom_pos [OF q] by simp_all
  then have "0 \<le> n" using assms by (simp add: zero_le_divide_iff)
  with fround_pos_error [of "nat d" "nat n"] d q x show ?thesis by (simp add: fround_def)
qed

lemma relative_error:
  fixes x r d :: rat
  assumes "\<bar>x - r\<bar> \<le> r / d"
  shows "r * (1 - 1 / d) \<le> x" and "x \<le> r * (1 + 1 / d)"
  using assms by (simp_all add: abs_le_iff algebra_simps)

lemmas fround_bounds = relative_error [OF fround_error]

lemma fround_nonneg: "0 \<le> x \<Longrightarrow> 0 \<le> fround x"
  using fround_bounds(1) [of x] by (simp add: order_trans [rotated])

text \<open>Integers of up to 53 bits are exact.\<close>

lemma fround_of_int: "0 \<le> n \<Longrightarrow> n < 2 ^ 53 \<Longrightarrow> fround (of_int n) = of_int n"
  by (simp add: fround_def fround_pos_def round_half_even.simps quotient_of_int nat_less_iff)

end
