(* ===== verification/HealthActive.thy ===== *)
theory HealthActive
  imports Backend Float64 "HOL-Library.Sublist"
begin

text \<open>
  \<open>internal/health\<close>, the active side: the configuration and the periodic checker with its
  probes (\<open>checker.go\<close>, \<open>tcp.go\<close>, \<open>grpc.go\<close>) and the state machine with thresholds
  and exponential backoff (\<open>statemachine.go\<close>). What a probe meets on the network (the result of
  an HTTP GET, of a TCP dial, of the gRPC health call) is a parameter. The counters are Go
  \<open>int\<close>s that count probes, modelled without wrap-around. The interface of a health monitor
  (consecutive failures and successes driving a backend's health) is a locale, interpreted for
  the checker and for the state machine.
\<close>

section \<open>Configuration and time\<close>

record health_config =
  h_Interval :: duration
  h_Timeout :: duration
  h_Path :: string
  h_FailureThreshold :: int
  h_SuccessThreshold :: int
  h_Mode :: string
  h_PassiveWindow :: duration
  h_PassiveErrorRate :: float64

text \<open>The constant \<open>0.3\<close> as a \<open>float64\<close> is \<open>5404319552844595 / 2^54\<close>.\<close>

definition health_DefaultConfig :: health_config where
  "health_DefaultConfig =
     \<lparr>h_Interval = 10 * second, h_Timeout = 2 * second, h_Path = ''/health'',
      h_FailureThreshold = 3, h_SuccessThreshold = 2, h_Mode = ''http'',
      h_PassiveWindow = 60 * second, h_PassiveErrorRate = 5404319552844595 / 18014398509481984\<rparr>"

text \<open>
  \<open>time.Time\<close> values are optional time stamps, \<open>None\<close> being the zero \<open>Time\<close>.
  \<open>time.Since\<close> saturates at the ends of the \<open>Duration\<close> range; the zero \<open>Time\<close> (year 1) is
  further back than that range reaches.
\<close>

definition time_Since :: "timestamp \<Rightarrow> timestamp option \<Rightarrow> duration" where
  "time_Since now t =
     (case t of None \<Rightarrow> max_int64 | Some t \<Rightarrow> max min_int64 (min max_int64 (now - t)))"

definition min_duration :: "duration \<Rightarrow> duration \<Rightarrow> duration" where
  "min_duration a b = (if a < b then a else b)"

section \<open>Probes\<close>

text \<open>\<open>net.DialTimeout\<close> as a parameter: whether the connection was made.\<close>

definition probeTCP :: "(string \<Rightarrow> duration \<Rightarrow> bool) \<Rightarrow> string \<Rightarrow> duration \<Rightarrow> bool" where
  "probeTCP dial addr timeout = (if \<not> dial addr timeout then False else True)"

text \<open>The gRPC status codes of \<open>grpc.health.v1\<close>; dialling and the call are parameters.\<close>

datatype serving_status = UNKNOWN | SERVING | NOT_SERVING | SERVICE_UNKNOWN

definition probeGRPC ::
  "(string \<Rightarrow> duration \<Rightarrow> bool) \<Rightarrow> (string \<Rightarrow> serving_status option) \<Rightarrow> string \<Rightarrow> duration \<Rightarrow> bool" where
  "probeGRPC grpc_dial check addr timeout =
     (if \<not> grpc_dial addr timeout then False
      else (case check addr of None \<Rightarrow> False | Some st \<Rightarrow> st = SERVING))"

section \<open>The checker\<close>

text \<open>
  The counters are Go maps: a missing key reads as zero.
\<close>

definition map_count :: "(string \<rightharpoonup> int) \<Rightarrow> string \<Rightarrow> int" where
  "map_count m k = (case m k of None \<Rightarrow> 0 | Some n \<Rightarrow> n)"

record checker =
  ck_pool :: pool
  ck_cfg :: health_config
  ck_clientTimeout :: duration
  ck_failures :: "string \<rightharpoonup> int"
  ck_successes :: "string \<rightharpoonup> int"

definition NewChecker :: "pool \<Rightarrow> health_config \<Rightarrow> checker" where
  "NewChecker p cfg =
     \<lparr>ck_pool = p, ck_cfg = cfg, ck_clientTimeout = h_Timeout cfg,
      ck_failures = Map.empty, ck_successes = Map.empty\<rparr>"

text \<open>The network as the probes see it: \<open>client.Get\<close> (an error, or the status code) and the dial.\<close>

record network =
  net_Get :: "string \<Rightarrow> string + int"
  net_Dial :: "string \<Rightarrow> duration \<Rightarrow> bool"
  net_URLString :: "url \<Rightarrow> string"

definition probeHTTP :: "network \<Rightarrow> checker \<Rightarrow> backend \<Rightarrow> bool" where
  "probeHTTP net c b =
     (let u = net_URLString net (b_URL b) @ h_Path (ck_cfg c)
      in case net_Get net u of Inl err \<Rightarrow> False | Inr status \<Rightarrow> status < 500)"

definition transition :: "checker \<Rightarrow> backend \<Rightarrow> backend" where
  "transition c b =
     (case GetHealth b of
        HealthHealthy \<Rightarrow>
          if map_count (ck_failures c) (b_ID b) \<ge> h_FailureThreshold (ck_cfg c)
          then SetHealth HealthUnhealthy b else b
      | HealthUnhealthy \<Rightarrow>
          if map_count (ck_successes c) (b_ID b) \<ge> h_SuccessThreshold (ck_cfg c)
          then SetHealth HealthProbation b else b
      | HealthProbation \<Rightarrow>
          if map_count (ck_failures c) (b_ID b) > 0 then SetHealth HealthUnhealthy b
          else if map_count (ck_successes c) (b_ID b) \<ge> h_SuccessThreshold (ck_cfg c)
          then SetHealth HealthHealthy b else b
      | HealthDisabled \<Rightarrow> b)"

definition probe_result :: "network \<Rightarrow> checker \<Rightarrow> backend \<Rightarrow> bool" where
  "probe_result net c b =
     (if h_Mode (ck_cfg c) = ''tcp'' then probeTCP (net_Dial net) (u_Host (b_URL b)) (h_Timeout (ck_cfg c))
      else probeHTTP net c b)"

definition probe_count :: "bool \<Rightarrow> checker \<Rightarrow> string \<Rightarrow> checker" where
  "probe_count ok c i =
     (if ok then c\<lparr>ck_failures := (ck_failures c)(i \<mapsto> 0),
                   ck_successes := (ck_successes c)(i \<mapsto> map_count (ck_successes c) i + 1)\<rparr>
      else c\<lparr>ck_successes := (ck_successes c)(i \<mapsto> 0),
             ck_failures := (ck_failures c)(i \<mapsto> map_count (ck_failures c) i + 1)\<rparr>)"

definition probe :: "network \<Rightarrow> checker \<Rightarrow> backend \<Rightarrow> checker \<times> backend" where
  "probe net c b =
     (let ok = probe_result net c b; c' = probe_count ok c (b_ID b) in (c', transition c' b))"

text \<open>
  \<open>Run\<close> with the probes it has started. Every tick starts a goroutine per backend of the pool, which
  nobody waits for: \<open>cs_pending\<close> are the probes in flight. A probe returns when it has met the network,
  in any order, also after later ticks and after \<open>Run\<close> itself has returned (\<open>cs_stopped\<close>); \<open>ProbeReturns i net\<close> is the
  return of the probe at position \<open>i\<close>. The updates of the counter maps by one probe, which the code does not
  synchronise, are one step.
\<close>

record check_state =
  cs_checker :: checker
  cs_heap :: heap
  cs_pending :: "bref list"
  cs_stopped :: bool

datatype check_event = CtxDone | TickerC | ProbeReturns nat network

definition Checker_start :: "checker \<Rightarrow> heap \<Rightarrow> check_state" where
  "Checker_start c h = \<lparr>cs_checker = c, cs_heap = h, cs_pending = [], cs_stopped = False\<rparr>"

definition Checker_tick :: "check_state \<Rightarrow> check_state" where
  "Checker_tick s = s\<lparr>cs_pending := cs_pending s @ Pool_Backends (ck_pool (cs_checker s))\<rparr>"

definition probe_returns :: "nat \<Rightarrow> network \<Rightarrow> check_state \<Rightarrow> check_state" where
  "probe_returns i net s =
     (if i < length (cs_pending s) then
        (let r = cs_pending s ! i; (c, b) = probe net (cs_checker s) (cs_heap s ! r)
         in s\<lparr>cs_checker := c, cs_heap := (cs_heap s)[r := b], cs_pending := take i (cs_pending s) @ drop (Suc i) (cs_pending s)\<rparr>)
      else s)"

fun Checker_event :: "check_event \<Rightarrow> check_state \<Rightarrow> check_state" where
  "Checker_event CtxDone s = s\<lparr>cs_stopped := True\<rparr>"
| "Checker_event TickerC s = (if cs_stopped s then s else Checker_tick s)"
| "Checker_event (ProbeReturns i net) s = probe_returns i net s"

fun Checker_Run :: "check_event list \<Rightarrow> check_state \<Rightarrow> check_state" where
  "Checker_Run [] s = s"
| "Checker_Run (ev # evs) s = Checker_Run evs (Checker_event ev s)"

section \<open>The state machine\<close>

record probeState =
  ps_failures :: int
  ps_successes :: int
  ps_unhealthySince :: "timestamp option"
  ps_backoff :: duration

definition newProbeState :: probeState where
  "newProbeState =
     \<lparr>ps_failures = 0, ps_successes = 0, ps_unhealthySince = None, ps_backoff = 5 * second\<rparr>"

definition ps_record :: "timestamp \<Rightarrow> bool \<Rightarrow> probeState \<Rightarrow> probeState" where
  "ps_record now ok ps =
     (if ok then ps\<lparr>ps_failures := 0, ps_successes := ps_successes ps + 1\<rparr>
      else (let ps = ps\<lparr>ps_successes := 0, ps_failures := ps_failures ps + 1\<rparr>
            in if ps_unhealthySince ps = None then ps\<lparr>ps_unhealthySince := Some now\<rparr> else ps))"

record state_machine =
  sm_cfg :: health_config
  sm_states :: "string \<rightharpoonup> probeState"

definition NewStateMachine :: "health_config \<Rightarrow> state_machine" where
  "NewStateMachine cfg = \<lparr>sm_cfg = cfg, sm_states = Map.empty\<rparr>"

definition sm_state :: "state_machine \<Rightarrow> string \<Rightarrow> probeState \<times> state_machine" where
  "sm_state sm i =
     (case sm_states sm i of
        None \<Rightarrow> (newProbeState, sm\<lparr>sm_states := (sm_states sm)(i \<mapsto> newProbeState)\<rparr>)
      | Some ps \<Rightarrow> (ps, sm))"

text \<open>The \<open>switch\<close> of \<open>Observe\<close>, on the recorded probe state.\<close>

definition sm_switch :: "health_config \<Rightarrow> timestamp \<Rightarrow> probeState \<Rightarrow> backend \<Rightarrow> probeState \<times> backend" where
  "sm_switch cfg now ps b =
     (let failures = ps_failures ps; successes = ps_successes ps
      in case GetHealth b of
        HealthHealthy \<Rightarrow>
          if failures \<ge> h_FailureThreshold cfg then (ps, SetHealth HealthUnhealthy b) else (ps, b)
      | HealthUnhealthy \<Rightarrow>
          (let elapsed = time_Since now (ps_unhealthySince ps); backoff = ps_backoff ps
           in if elapsed \<ge> backoff \<and> successes \<ge> h_SuccessThreshold cfg
              then (ps\<lparr>ps_backoff := min_duration (ps_backoff ps * 2) (5 * minute),
                       ps_unhealthySince := None\<rparr>, SetHealth HealthProbation b)
              else (ps, b))
      | HealthProbation \<Rightarrow>
          if failures > 0 then (ps\<lparr>ps_unhealthySince := Some now\<rparr>, SetHealth HealthUnhealthy b)
          else if successes \<ge> h_SuccessThreshold cfg
          then (ps\<lparr>ps_backoff := 5 * second\<rparr>, SetHealth HealthHealthy b) else (ps, b)
      | HealthDisabled \<Rightarrow> (ps, b))"

definition sm_Observe :: "timestamp \<Rightarrow> bool \<Rightarrow> state_machine \<times> backend \<Rightarrow> state_machine \<times> backend" where
  "sm_Observe now ok smb =
     (let (sm, b) = smb;
          (ps, sm) = sm_state sm (b_ID b);
          (ps, b) = sm_switch (sm_cfg sm) now (ps_record now ok ps) b
      in (sm\<lparr>sm_states := (sm_states sm)(b_ID b \<mapsto> ps)\<rparr>, b))"

fun sm_run :: "(timestamp \<times> bool) list \<Rightarrow> state_machine \<times> backend \<Rightarrow> state_machine \<times> backend" where
  "sm_run [] smb = smb"
| "sm_run ((now, ok) # evs) smb = sm_run evs (sm_Observe now ok smb)"

text \<open>The probes of one backend in sequence, each meeting its own state of the network.\<close>

fun Checker_probes :: "network list \<Rightarrow> checker \<times> backend \<Rightarrow> checker \<times> backend" where
  "Checker_probes [] cb = cb"
| "Checker_probes (net # nets) cb = Checker_probes nets (probe net (fst cb) (snd cb))"

section \<open>The interface of a health monitor\<close>

text \<open>
  A monitor folds probe outcomes into a state with a count of consecutive failures and the
  backend's health: it ejects a healthy backend when the count reaches the threshold, and a
  failed probe leaves a backend that is out of service out of service.
\<close>

locale health_monitor =
  fixes obs :: "'e \<Rightarrow> 's \<Rightarrow> 's"
    and passed :: "'e \<Rightarrow> bool"
    and fails :: "'s \<Rightarrow> int"
    and health :: "'s \<Rightarrow> Health"
    and good :: "'s \<Rightarrow> bool"
    and threshold :: int
  assumes good_obs: "good s \<Longrightarrow> good (obs e s)"
    and fails_obs: "good s \<Longrightarrow> fails (obs e s) = (if passed e then 0 else fails s + 1)"
    and healthy_obs: "good s \<Longrightarrow> health s = HealthHealthy \<Longrightarrow>
      health (obs e s) = (if threshold \<le> fails (obs e s) then HealthUnhealthy else HealthHealthy)"
    and failed_obs: "good s \<Longrightarrow> health s = HealthUnhealthy \<or> health s = HealthProbation \<Longrightarrow>
      \<not> passed e \<Longrightarrow> health (obs e s) = HealthUnhealthy"
    and enabled_obs: "good s \<Longrightarrow> health s \<noteq> HealthDisabled \<Longrightarrow> health (obs e s) \<noteq> HealthDisabled"
begin

abbreviation observe :: "'e list \<Rightarrow> 's \<Rightarrow> 's" where
  "observe es s \<equiv> fold obs es s"

lemma good_observe: "good s \<Longrightarrow> good (observe es s)"
  by (induction es arbitrary: s) (simp_all add: good_obs)

lemma enabled_observe:
  "good s \<Longrightarrow> health s \<noteq> HealthDisabled \<Longrightarrow> health (observe es s) \<noteq> HealthDisabled"
  by (induction es arbitrary: s) (simp_all add: good_obs enabled_obs)

lemma fails_observe_failed:
  "good s \<Longrightarrow> \<forall>e\<in>set es. \<not> passed e \<Longrightarrow> fails (observe es s) = fails s + int (length es)"
  by (induction es arbitrary: s) (simp_all add: good_obs fails_obs)

text \<open>From a count of zero, the count is the length of the trailing run of failures.\<close>

lemma fails_observe:
  "good s \<Longrightarrow> fails s = 0 \<Longrightarrow>
   fails (observe es s) = int (length (takeWhile (\<lambda>e. \<not> passed e) (rev es)))"
  by (induction es rule: rev_induct) (simp_all add: good_observe fails_obs)

lemma ejects:
  assumes "good s" and "0 \<le> fails s" and "health s \<noteq> HealthDisabled" and "1 \<le> threshold"
    and "\<forall>e\<in>set es. \<not> passed e" and "threshold \<le> int (length es)"
  shows "health (observe es s) = HealthUnhealthy"
proof -
  obtain es' e where es: "es = es' @ [e]" using assms(4,6) by (cases es rule: rev_cases) auto
  let ?s = "observe es' s"
  have g: "good ?s" and en: "health ?s \<noteq> HealthDisabled"
    using assms(1,3) by (simp_all add: good_observe enabled_observe)
  have "threshold \<le> fails (obs e ?s)"
    using fails_observe_failed [OF assms(1,5)] assms(2,6) es by simp
  then show ?thesis
    using es g en assms(5) healthy_obs [OF g] failed_obs [OF g] by (cases "health ?s") auto
qed

lemma stays_healthy:
  assumes "good s" and "fails s = 0" and "health s = HealthHealthy" and "1 \<le> threshold"
    and "\<forall>us. sublist us es \<longrightarrow> int (length us) = threshold \<longrightarrow> (\<exists>e\<in>set us. passed e)"
  shows "health (observe es s) = HealthHealthy"
  using assms(5)
proof (induction es rule: rev_induct)
  case Nil
  then show ?case by (simp add: assms(3))
next
  case (snoc e es)
  have "sublist us (es @ [e])" if "sublist us es" for us
    using that by (meson sublist_appendI sublist_order.order_trans prefix_imp_sublist prefixI)
  then have IH: "health (observe es s) = HealthHealthy" using snoc by blast
  let ?t = "takeWhile (\<lambda>e. \<not> passed e) (rev (es @ [e]))"
  have "\<not> threshold \<le> int (length ?t)"
  proof
    assume le: "threshold \<le> int (length ?t)"
    define us where "us = rev (take (nat threshold) ?t)"
    have "prefix (take (nat threshold) ?t) (rev (es @ [e]))"
      by (meson take_is_prefix takeWhile_is_prefix prefix_order.trans)
    then have "suffix us (es @ [e])" by (simp add: us_def suffix_to_prefix)
    then have "sublist us (es @ [e])" by (rule suffix_imp_sublist)
    moreover have "int (length us) = threshold" using le assms(4) by (simp add: us_def)
    moreover have "\<forall>x\<in>set us. \<not> passed x" unfolding us_def
      by (metis in_set_takeD set_rev set_takeWhileD)
    ultimately show False using snoc.prems by blast
  qed
  then show ?case
    using IH healthy_obs [of "observe es s" e] fails_observe [OF assms(1,2), of "es @ [e]"] assms(1)
    by (simp add: good_observe)
qed

end

section \<open>The checker is a health monitor\<close>

lemma Checker_probes_fold: "Checker_probes nets cb = fold (\<lambda>net cb. probe net (fst cb) (snd cb)) nets cb"
  by (induction nets arbitrary: cb) auto

definition ck_good :: "checker \<Rightarrow> backend \<Rightarrow> checker \<times> backend \<Rightarrow> bool" where
  "ck_good c0 b0 cb \<longleftrightarrow> ck_cfg (fst cb) = ck_cfg c0 \<and> b_URL (snd cb) = b_URL b0 \<and>
     1 \<le> h_SuccessThreshold (ck_cfg c0)"

lemma transition_keeps [simp]: "b_URL (transition c b) = b_URL b" "b_ID (transition c b) = b_ID b"
  by (auto simp: transition_def backend_defs split: Health.splits)

lemma ck_good_result: "ck_good c0 b0 cb \<Longrightarrow> probe_result net (fst cb) (snd cb) = probe_result net c0 b0"
  by (simp add: ck_good_def probe_result_def probeHTTP_def)

lemma ck_good_probe: "ck_good c0 b0 cb \<Longrightarrow> ck_good c0 b0 (probe net (fst cb) (snd cb))"
  by (simp add: ck_good_def probe_def probe_count_def Let_def)

lemma probe_failures:
  "map_count (ck_failures (fst (probe net c b))) (b_ID (snd (probe net c b))) =
     (if probe_result net c b then 0 else map_count (ck_failures c) (b_ID b) + 1)"
  by (simp add: probe_def probe_count_def Let_def map_count_def)

lemma probe_successes:
  "map_count (ck_successes (fst (probe net c b))) (b_ID (snd (probe net c b))) =
     (if probe_result net c b then map_count (ck_successes c) (b_ID b) + 1 else 0)"
  by (simp add: probe_def probe_count_def Let_def map_count_def)

lemma probe_health:
  "GetHealth (snd (probe net c b)) =
     (let c' = fst (probe net c b) in
      case GetHealth b of
        HealthHealthy \<Rightarrow> if map_count (ck_failures c') (b_ID b) \<ge> h_FailureThreshold (ck_cfg c')
          then HealthUnhealthy else HealthHealthy
      | HealthUnhealthy \<Rightarrow> if map_count (ck_successes c') (b_ID b) \<ge> h_SuccessThreshold (ck_cfg c')
          then HealthProbation else HealthUnhealthy
      | HealthProbation \<Rightarrow> if map_count (ck_failures c') (b_ID b) > 0 then HealthUnhealthy
          else if map_count (ck_successes c') (b_ID b) \<ge> h_SuccessThreshold (ck_cfg c')
          then HealthHealthy else HealthProbation
      | HealthDisabled \<Rightarrow> HealthDisabled)"
  by (auto simp: probe_def Let_def transition_def backend_defs split: Health.splits)

lemma probe_id [simp]: "b_ID (snd (probe net c b)) = b_ID b"
  and probe_cfg [simp]: "ck_cfg (fst (probe net c b)) = ck_cfg c"
  by (simp_all add: probe_def probe_count_def Let_def)

interpretation ck: health_monitor "\<lambda>net cb. probe net (fst cb) (snd cb)" "\<lambda>net. probe_result net c0 b0"
  "\<lambda>cb. map_count (ck_failures (fst cb)) (b_ID (snd cb))" "\<lambda>cb. GetHealth (snd cb)"
  "\<lambda>cb. ck_good c0 b0 cb \<and> 0 \<le> map_count (ck_failures (fst cb)) (b_ID (snd cb))"
  "h_FailureThreshold (ck_cfg c0)" for c0 b0
proof (unfold_locales, goal_cases)
  case (1 s e)
  then show ?case using probe_failures [of e "fst s" "snd s"] ck_good_probe by auto
next
  case (2 s e)
  then show ?case using probe_failures [of e "fst s" "snd s"] ck_good_result [of c0 b0 s e] by simp
next
  case (3 s e)
  then show ?case using probe_health [of e "fst s" "snd s"] by (simp add: Let_def ck_good_def)
next
  case (4 s e)
  then show ?case
    using probe_health [of e "fst s" "snd s"] probe_failures [of e "fst s" "snd s"]
      probe_successes [of e "fst s" "snd s"] ck_good_result [of c0 b0 s e]
    by (auto simp: Let_def ck_good_def)
next
  case (5 s e)
  then show ?case using probe_health [of e "fst s" "snd s"]
    by (auto simp: Let_def split: Health.splits if_splits)
qed

lemma Checker_probes_eject:
  assumes "1 \<le> h_FailureThreshold (ck_cfg c)" and "1 \<le> h_SuccessThreshold (ck_cfg c)"
    and "GetHealth b \<noteq> HealthDisabled" and "0 \<le> map_count (ck_failures c) (b_ID b)"
    and "h_FailureThreshold (ck_cfg c) \<le> int (length us)" and "\<forall>net\<in>set us. \<not> probe_result net c b"
  shows "GetHealth (snd (Checker_probes (vs @ us) (c, b))) = HealthUnhealthy"
proof -
  let ?s = "fold (\<lambda>net cb. probe net (fst cb) (snd cb)) vs (c, b)"
  have g: "ck_good c b (c, b) \<and> 0 \<le> map_count (ck_failures (fst (c, b))) (b_ID (snd (c, b)))"
    using assms by (simp add: ck_good_def)
  have "ck_good c b ?s \<and> 0 \<le> map_count (ck_failures (fst ?s)) (b_ID (snd ?s))"
    using ck.good_observe [OF g] .
  moreover have "GetHealth (snd ?s) \<noteq> HealthDisabled"
    using ck.enabled_observe [OF g] assms(3) by simp
  ultimately show ?thesis using ck.ejects [of c b ?s us] assms
    by (simp add: Checker_probes_fold)
qed

section \<open>The checker's loop, one backend at a time\<close>

text \<open>
  Seen from one backend, any run of the checker is the sequence of its own probes in the order in which they return:
  the other probes touch neither its counters nor its record, as long as no other backend has
  its ID. \<open>returned_probes r evs s\<close> are the states of the network that the probes of \<open>r\<close> met.
\<close>

fun returned_probes :: "bref \<Rightarrow> check_event list \<Rightarrow> check_state \<Rightarrow> network list" where
  "returned_probes r [] s = []"
| "returned_probes r (ev # evs) s =
     (case ev of
        ProbeReturns i net \<Rightarrow> if i < length (cs_pending s) \<and> cs_pending s ! i = r then [net] else []
      | _ \<Rightarrow> []) @ returned_probes r evs (Checker_event ev s)"

definition seen_as :: "bref \<Rightarrow> check_state \<Rightarrow> checker \<times> backend \<Rightarrow> bool" where
  "seen_as r s cb \<longleftrightarrow> ck_cfg (cs_checker s) = ck_cfg (fst cb) \<and> cs_heap s ! r = snd cb \<and>
     ck_failures (cs_checker s) (b_ID (snd cb)) = ck_failures (fst cb) (b_ID (snd cb)) \<and>
     ck_successes (cs_checker s) (b_ID (snd cb)) = ck_successes (fst cb) (b_ID (snd cb))"

definition own_id :: "heap \<Rightarrow> bref list \<Rightarrow> bref \<Rightarrow> bool" where
  "own_id h bs r \<longleftrightarrow> (\<forall>q\<in>set bs. q \<noteq> r \<longrightarrow> b_ID (h ! q) \<noteq> b_ID (h ! r))"

text \<open>The probes in flight are probes of the pool, in which only \<open>r\<close> has its ID.\<close>

definition check_ok :: "bref \<Rightarrow> check_state \<Rightarrow> bool" where
  "check_ok r s \<longleftrightarrow> (let bs = p_backends (ck_pool (cs_checker s)) in
     r \<in> set bs \<and> set (cs_pending s) \<subseteq> set bs \<and> wf_refs (cs_heap s) bs \<and> own_id (cs_heap s) bs r)"

lemma probe_pool [simp]: "ck_pool (fst (probe net c b)) = ck_pool c"
  by (simp add: probe_def probe_count_def Let_def)

lemma probe_other:
  "b_ID b \<noteq> i \<Longrightarrow> ck_failures (fst (probe net c b)) i = ck_failures c i \<and>
     ck_successes (fst (probe net c b)) i = ck_successes c i"
  by (simp add: probe_def probe_count_def Let_def)

lemma ids_update: "map b_ID (h[q := snd (probe net c (h ! q))]) = map b_ID h"
  by (cases "q < length h") (simp_all add: map_update list_update_same_conv list_update_beyond)

lemma own_id_ids:
  assumes "map b_ID h' = map b_ID h" and "wf_refs h bs" and "r < length h"
  shows "own_id h' bs r = own_id h bs r"
proof -
  have len: "length h' = length h" using assms(1) by (metis length_map)
  have "b_ID (h' ! q) = b_ID (h ! q)" if "q < length h" for q
    using arg_cong [OF assms(1), of "\<lambda>xs. xs ! q"] that len by simp
  then show ?thesis using assms(2,3) by (auto simp: own_id_def wf_refs_def)
qed

lemma probe_returns_parts:
  assumes "i < length (cs_pending s)"
  shows "cs_checker (probe_returns i net s) = fst (probe net (cs_checker s) (cs_heap s ! (cs_pending s ! i)))"
    and "cs_heap (probe_returns i net s) = (cs_heap s)[cs_pending s ! i := snd (probe net (cs_checker s) (cs_heap s ! (cs_pending s ! i)))]"
    and "set (cs_pending (probe_returns i net s)) \<subseteq> set (cs_pending s)"
  using assms set_take_subset [of i "cs_pending s"] set_drop_subset [of "Suc i" "cs_pending s"]
  by (auto simp: probe_returns_def split_beta Let_def)

lemma probe_returns_none: "\<not> i < length (cs_pending s) \<Longrightarrow> probe_returns i net s = s"
  by (simp add: probe_returns_def)

lemma event_ids: "map b_ID (cs_heap (Checker_event ev s)) = map b_ID (cs_heap s)"
proof (cases ev)
  case (ProbeReturns i net)
  then show ?thesis by (cases "i < length (cs_pending s)") (simp_all add: probe_returns_parts ids_update probe_returns_none)
qed (simp_all add: Checker_tick_def)

lemma event_pool: "ck_pool (cs_checker (Checker_event ev s)) = ck_pool (cs_checker s)"
proof (cases ev)
  case (ProbeReturns i net)
  then show ?thesis by (cases "i < length (cs_pending s)") (simp_all add: probe_returns_parts probe_returns_none)
qed (simp_all add: Checker_tick_def)

lemma event_pending: "set (cs_pending (Checker_event ev s)) \<subseteq> set (cs_pending s) \<union> set (p_backends (ck_pool (cs_checker s)))"
proof (cases ev)
  case (ProbeReturns i net)
  then show ?thesis using probe_returns_parts(3) [of i s net]
    by (cases "i < length (cs_pending s)") (auto simp: probe_returns_def)
qed (auto simp: Checker_tick_def Pool_Backends_def)

lemma check_ok_event:
  assumes "check_ok r s"
  shows "check_ok r (Checker_event ev s)"
proof -
  let ?bs = "p_backends (ck_pool (cs_checker s))" and ?s = "Checker_event ev s"
  have wf: "r \<in> set ?bs" "wf_refs (cs_heap s) ?bs" using assms by (simp_all add: check_ok_def Let_def)
  then have lt: "r < length (cs_heap s)" by (simp add: wf_refs_def)
  have "length (cs_heap ?s) = length (cs_heap s)" using event_ids [of ev s] by (metis length_map)
  then show ?thesis
    using assms event_pending [of ev s] own_id_ids [OF event_ids [of ev s] wf(2) lt]
    by (auto simp: check_ok_def Let_def event_pool wf_refs_def)
qed

lemma event_seen:
  assumes "seen_as r s cb" and "check_ok r s"
  shows "seen_as r (Checker_event ev s) (Checker_probes (returned_probes r [ev] s) cb)"
proof (cases ev)
  case (ProbeReturns i net)
  show ?thesis
  proof (cases "i < length (cs_pending s)")
    case i: True
    let ?q = "cs_pending s ! i"
    have "?q \<in> set (p_backends (ck_pool (cs_checker s)))" using assms(2) i by (auto simp: check_ok_def Let_def)
    then have "?q < length (cs_heap s)" "?q \<noteq> r \<Longrightarrow> b_ID (cs_heap s ! ?q) \<noteq> b_ID (cs_heap s ! r)"
      using assms(2) by (auto simp: check_ok_def Let_def wf_refs_def own_id_def)
    then show ?thesis using assms(1) ProbeReturns i probe_other [of "cs_heap s ! ?q" "b_ID (cs_heap s ! r)" net "cs_checker s"]
      by (cases "?q = r")
        (auto simp: probe_returns_parts seen_as_def probe_def probe_count_def transition_def probe_result_def probeHTTP_def
          map_count_def Let_def backend_defs split: Health.splits)
  next
    case False
    then show ?thesis using assms(1) ProbeReturns by (simp add: probe_returns_def)
  qed
qed (use assms(1) in \<open>simp_all add: Checker_tick_def seen_as_def\<close>)

lemma Checker_probes_append: "Checker_probes (xs @ ys) cb = Checker_probes ys (Checker_probes xs cb)"
  by (induction xs arbitrary: cb) auto

lemma run_seen:
  assumes "seen_as r s cb" and "check_ok r s"
  shows "seen_as r (Checker_Run evs s) (Checker_probes (returned_probes r evs s) cb) \<and>
    map b_ID (cs_heap (Checker_Run evs s)) = map b_ID (cs_heap s)"
  using assms
proof (induction evs arbitrary: s cb)
  case (Cons ev evs)
  have "returned_probes r (ev # evs) s = returned_probes r [ev] s @ returned_probes r evs (Checker_event ev s)" by simp
  then show ?case
    using Cons.IH [OF event_seen [OF Cons.prems, of ev] check_ok_event [OF Cons.prems(2), of ev]] event_ids [of ev s]
    by (simp only: Checker_probes_append) simp
qed simp

section \<open>The state machine is a health monitor\<close>

interpretation sm_tab: get_or_create sm_state sm_states "\<lambda>_. newProbeState" "\<lambda>_. True"
  by unfold_locales (auto simp: sm_state_def)

definition sm_ps :: "state_machine \<times> backend \<Rightarrow> probeState" where
  "sm_ps smb = fst (sm_state (fst smb) (b_ID (snd smb)))"

lemma sm_switch_id [simp]: "b_ID (snd (sm_switch cfg now ps b)) = b_ID b"
  by (simp add: sm_switch_def Let_def backend_defs split: Health.splits)

lemma sm_Observe_parts:
  "fst (sm_Observe now ok smb) = (fst smb)\<lparr>sm_states := (sm_states (fst smb))(b_ID (snd smb) \<mapsto>
       fst (sm_switch (sm_cfg (fst smb)) now (ps_record now ok (sm_ps smb)) (snd smb)))\<rparr>"
  "snd (sm_Observe now ok smb) = snd (sm_switch (sm_cfg (fst smb)) now (ps_record now ok (sm_ps smb)) (snd smb))"
  by (cases smb; simp add: sm_Observe_def sm_ps_def sm_state_def split_beta split: option.splits)+

lemma sm_Observe_simps [simp]:
  "b_ID (snd (sm_Observe now ok smb)) = b_ID (snd smb)"
  "sm_cfg (fst (sm_Observe now ok smb)) = sm_cfg (fst smb)"
  by (simp_all add: sm_Observe_parts)

lemma sm_ps_Observe:
  "sm_ps (sm_Observe now ok smb) =
     fst (sm_switch (sm_cfg (fst smb)) now (ps_record now ok (sm_ps smb)) (snd smb))"
  unfolding sm_ps_def [of "sm_Observe now ok smb"] by (simp add: sm_Observe_parts(1) sm_state_def)

lemma sm_switch_counters [simp]:
  "ps_failures (fst (sm_switch cfg now ps b)) = ps_failures ps"
  "ps_successes (fst (sm_switch cfg now ps b)) = ps_successes ps"
  by (simp_all add: sm_switch_def Let_def split: Health.splits)

lemma ps_record_counters [simp]:
  "ps_failures (ps_record now ok ps) = (if ok then 0 else ps_failures ps + 1)"
  "ps_successes (ps_record now ok ps) = (if ok then ps_successes ps + 1 else 0)"
  "ps_backoff (ps_record now ok ps) = ps_backoff ps"
  by (simp_all add: ps_record_def Let_def)

lemma sm_switch_health:
  "GetHealth (snd (sm_switch cfg now ps b)) =
     (case GetHealth b of
        HealthHealthy \<Rightarrow> if ps_failures ps \<ge> h_FailureThreshold cfg then HealthUnhealthy else HealthHealthy
      | HealthUnhealthy \<Rightarrow>
          if time_Since now (ps_unhealthySince ps) \<ge> ps_backoff ps \<and> ps_successes ps \<ge> h_SuccessThreshold cfg
          then HealthProbation else HealthUnhealthy
      | HealthProbation \<Rightarrow> if ps_failures ps > 0 then HealthUnhealthy
          else if ps_successes ps \<ge> h_SuccessThreshold cfg then HealthHealthy else HealthProbation
      | HealthDisabled \<Rightarrow> HealthDisabled)"
  by (simp add: sm_switch_def Let_def backend_defs split: Health.splits)

lemma sm_run_fold: "sm_run evs smb = fold (\<lambda>e smb. sm_Observe (fst e) (snd e) smb) evs smb"
  by (induction evs smb rule: sm_run.induct) auto

interpretation smm: health_monitor "\<lambda>e smb. sm_Observe (fst e) (snd e) smb" snd
  "\<lambda>smb. ps_failures (sm_ps smb)" "\<lambda>smb. GetHealth (snd smb)"
  "\<lambda>smb. sm_cfg (fst smb) = cfg \<and> 1 \<le> h_SuccessThreshold cfg \<and> 0 \<le> ps_failures (sm_ps smb)"
  "h_FailureThreshold cfg" for cfg
  by unfold_locales
    (auto simp: sm_ps_Observe sm_Observe_parts(2) sm_switch_health split: Health.splits)

section \<open>Recovery\<close>

text \<open>The state of a backend that was unhealthy after \<open>k\<close> successful probes in a row.\<close>

lemma Checker_recovery_counts:
  assumes "1 \<le> h_SuccessThreshold (ck_cfg c)" and "1 \<le> h_FailureThreshold (ck_cfg c)"
    and "GetHealth b = HealthUnhealthy" and "map_count (ck_successes c) (b_ID b) = 0"
    and "\<forall>net\<in>set nets. probe_result net c b"
  shows "let cb = Checker_probes nets (c, b); k = int (length nets); n = h_SuccessThreshold (ck_cfg c) in
    ck_good c b cb \<and> b_ID (snd cb) = b_ID b \<and> map_count (ck_successes (fst cb)) (b_ID b) = k \<and>
    (0 < k \<longrightarrow> map_count (ck_failures (fst cb)) (b_ID b) = 0) \<and>
    GetHealth (snd cb) = (if k < n then HealthUnhealthy else if k = n then HealthProbation else HealthHealthy)"
  using assms(5)
proof (induction nets rule: rev_induct)
  case Nil
  then show ?case using assms(1-4) by (simp add: ck_good_def Let_def)
next
  case (snoc net nets)
  let ?cb = "Checker_probes nets (c, b)"
  have ok: "probe_result net (fst ?cb) (snd ?cb)" and g: "ck_good c b ?cb"
    using snoc ck_good_result [of c b ?cb net] by (auto simp: Let_def)
  then have cfg: "ck_cfg (fst ?cb) = ck_cfg c" by (simp add: ck_good_def)
  have s: "map_count (ck_successes (fst (probe net (fst ?cb) (snd ?cb)))) (b_ID b) = int (length nets) + 1"
    "map_count (ck_failures (fst (probe net (fst ?cb) (snd ?cb)))) (b_ID b) = 0"
    using snoc probe_successes [of net "fst ?cb" "snd ?cb"] probe_failures [of net "fst ?cb" "snd ?cb"] ok
    by (auto simp: Let_def)
  have "GetHealth (snd (probe net (fst ?cb) (snd ?cb))) = (let k = int (length nets) + 1;
      n = h_SuccessThreshold (ck_cfg c) in
      if k < n then HealthUnhealthy else if k = n then HealthProbation else HealthHealthy)"
    using snoc s cfg assms(1,2) probe_health [of net "fst ?cb" "snd ?cb"]
    by (auto simp: Let_def)
  then show ?case
    using snoc.IH snoc.prems s ck_good_probe [OF g, of net]
    by (auto simp: Let_def Checker_probes_append)
qed

section \<open>Backoff\<close>

lemma sm_run_append: "sm_run (xs @ ys) smb = sm_run ys (sm_run xs smb)"
  by (simp add: sm_run_fold)

text \<open>An unhealthy backend whose backoff is running stays unhealthy, whatever the probes say.\<close>

lemma sm_during_backoff:
  assumes "GetHealth (snd smb) = HealthUnhealthy" and "ps_unhealthySince (sm_ps smb) = Some t"
    and "0 < ps_backoff (sm_ps smb)" and "\<forall>e\<in>set evs. fst e < t + ps_backoff (sm_ps smb)"
  shows "GetHealth (snd (sm_run evs smb)) = HealthUnhealthy"
  using assms
proof (induction evs arbitrary: smb)
  case (Cons e evs)
  obtain now ok where e: "e = (now, ok)" by (cases e)
  let ?ps = "ps_record now ok (sm_ps smb)"
  have since: "ps_unhealthySince ?ps = Some t" using Cons.prems(2) by (simp add: ps_record_def Let_def)
  have "time_Since now (ps_unhealthySince ?ps) < ps_backoff ?ps"
    using since Cons.prems(3,4) e by (auto simp: time_Since_def)
  then have "sm_switch (sm_cfg (fst smb)) now ?ps (snd smb) = (?ps, snd smb)"
    using Cons.prems(1) by (simp add: sm_switch_def Let_def)
  then have "GetHealth (snd (sm_Observe now ok smb)) = HealthUnhealthy" and "sm_ps (sm_Observe now ok smb) = ?ps"
    using Cons.prems(1) by (simp_all add: sm_Observe_parts(2) sm_ps_Observe)
  then show ?case using Cons.IH [of "sm_Observe now ok smb"] Cons.prems since e by simp
qed simp

text \<open>Successful probes never take a backend out of service.\<close>

lemma sm_successes:
  assumes "1 \<le> h_FailureThreshold (sm_cfg (fst smb))" and "\<forall>e\<in>set evs. snd e"
    and "GetHealth (snd smb) = HealthHealthy \<or> GetHealth (snd smb) = HealthProbation"
  shows "GetHealth (snd (sm_run evs smb)) = HealthHealthy \<or> GetHealth (snd (sm_run evs smb)) = HealthProbation"
  using assms
proof (induction evs arbitrary: smb)
  case (Cons e evs)
  obtain now where e: "e = (now, True)" using Cons.prems(2) by (cases e) auto
  have "GetHealth (snd (sm_Observe now True smb)) = HealthHealthy \<or>
      GetHealth (snd (sm_Observe now True smb)) = HealthProbation"
    using Cons.prems(1,3) by (auto simp: sm_Observe_parts(2) sm_switch_health)
  then show ?case using Cons e by simp
qed simp

lemma sm_switch_unhealthy:
  "GetHealth b = HealthUnhealthy \<Longrightarrow>
   sm_switch cfg now ps b = (ps, b) \<or> GetHealth (snd (sm_switch cfg now ps b)) = HealthProbation"
  by (simp add: sm_switch_def Let_def backend_defs)

text \<open>Successful probes readmit it when they are enough and the last one is after the backoff.\<close>

lemma sm_after_backoff:
  assumes "GetHealth (snd smb) = HealthUnhealthy" and "ps_unhealthySince (sm_ps smb) = Some t"
    and "ps_backoff (sm_ps smb) \<le> max_int64" and "1 \<le> h_FailureThreshold (sm_cfg (fst smb))"
    and "\<forall>e\<in>set evs. snd e" and "t + ps_backoff (sm_ps smb) \<le> now"
    and "h_SuccessThreshold (sm_cfg (fst smb)) \<le> ps_successes (sm_ps smb) + int (length evs) + 1"
  shows "GetHealth (snd (sm_run (evs @ [(now, True)]) smb)) = HealthHealthy \<or>
    GetHealth (snd (sm_run (evs @ [(now, True)]) smb)) = HealthProbation"
  using assms
proof (induction evs arbitrary: smb)
  case Nil
  then have "ps_backoff (sm_ps smb) \<le> time_Since now (Some t)" by (simp add: time_Since_def)
  then show ?case using Nil by (simp add: sm_Observe_parts(2) sm_switch_health ps_record_def)
next
  case (Cons e evs)
  obtain now' where e: "e = (now', True)" using Cons.prems(5) by (cases e) auto
  let ?s = "sm_Observe now' True smb" and ?ps = "ps_record now' True (sm_ps smb)"
  consider "GetHealth (snd ?s) = HealthProbation" |
    "GetHealth (snd ?s) = HealthUnhealthy" "sm_ps ?s = ?ps"
    using sm_switch_unhealthy [OF Cons.prems(1), of "sm_cfg (fst smb)" now' ?ps] Cons.prems(1)
    by (auto simp: sm_Observe_parts(2) sm_ps_Observe)
  then show ?case
  proof cases
    case 1
    then show ?thesis using sm_successes [of ?s "evs @ [(now, True)]"] Cons.prems(4,5) e by auto
  next
    case 2
    then show ?thesis using Cons.IH [of ?s] Cons.prems e by (simp add: ps_record_def)
  qed
qed

text \<open>
  The backoff law: \<open>readmissions\<close> counts the entries into probation since the last full
  recovery.
\<close>

fun readmissions :: "(timestamp \<times> bool) list \<Rightarrow> state_machine \<times> backend \<Rightarrow> nat \<Rightarrow> nat" where
  "readmissions [] smb k = k"
| "readmissions ((now, ok) # evs) smb k =
     (let smb' = sm_Observe now ok smb; h = GetHealth (snd smb); h' = GetHealth (snd smb')
      in readmissions evs smb'
           (if h = HealthUnhealthy \<and> h' = HealthProbation then k + 1
            else if h = HealthProbation \<and> h' = HealthHealthy then 0 else k))"

lemma sm_backoff_run:
  "ps_backoff (sm_ps smb) = min (5 * second * 2 ^ k) (5 * minute) \<Longrightarrow>
   ps_backoff (sm_ps (sm_run evs smb)) = min (5 * second * 2 ^ readmissions evs smb k) (5 * minute)"
proof (induction evs smb k rule: readmissions.induct)
  case (2 now ok evs smb k)
  let ?s = "sm_Observe now ok smb"
  have "ps_backoff (sm_ps ?s) = min (5 * second * 2 ^ (if GetHealth (snd smb) = HealthUnhealthy \<and>
        GetHealth (snd ?s) = HealthProbation then k + 1
      else if GetHealth (snd smb) = HealthProbation \<and> GetHealth (snd ?s) = HealthHealthy then 0 else k)) (5 * minute)"
    using 2(2)
    by (cases "GetHealth (snd smb)")
      (auto simp: sm_Observe_parts(2) sm_ps_Observe sm_switch_def Let_def backend_defs min_duration_def min_def)
  then show ?case using 2(1) by (simp add: Let_def)
qed simp

text \<open>
  The time the backoff is measured from: that of the first failed probe since the start or since the
  last readmission to probation, and of the failure that ended a probation.
\<close>

fun backoff_start :: "(timestamp \<times> bool) list \<Rightarrow> state_machine \<times> backend \<Rightarrow> timestamp option \<Rightarrow> timestamp option" where
  "backoff_start [] smb t = t"
| "backoff_start ((now, ok) # evs) smb t =
     (let smb' = sm_Observe now ok smb; h = GetHealth (snd smb); h' = GetHealth (snd smb')
      in backoff_start evs smb'
           (if h = HealthUnhealthy \<and> h' = HealthProbation then None
            else if h = HealthProbation \<and> h' = HealthUnhealthy then Some now
            else if \<not> ok \<and> t = None then Some now else t))"

lemma sm_since_run:
  "ps_unhealthySince (sm_ps smb) = t \<Longrightarrow> ps_unhealthySince (sm_ps (sm_run evs smb)) = backoff_start evs smb t"
proof (induction evs smb t rule: backoff_start.induct)
  case (2 now ok evs smb t)
  let ?s = "sm_Observe now ok smb"
  have "ps_unhealthySince (sm_ps ?s) =
      (if GetHealth (snd smb) = HealthUnhealthy \<and> GetHealth (snd ?s) = HealthProbation then None
       else if GetHealth (snd smb) = HealthProbation \<and> GetHealth (snd ?s) = HealthUnhealthy then Some now
       else if \<not> ok \<and> t = None then Some now else t)"
    using 2(2)
    by (cases "GetHealth (snd smb)")
      (auto simp: sm_Observe_parts(2) sm_ps_Observe sm_switch_def ps_record_def Let_def backend_defs)
  then show ?case using 2(1) by (simp add: Let_def)
qed simp

lemma sm_successes_nonneg: "0 \<le> ps_successes (sm_ps smb) \<Longrightarrow> 0 \<le> ps_successes (sm_ps (sm_run evs smb))"
  by (induction evs smb rule: sm_run.induct) (simp_all add: sm_ps_Observe)

lemma sm_run_cfg [simp]: "sm_cfg (fst (sm_run evs smb)) = sm_cfg (fst smb)"
  by (induction evs smb rule: sm_run.induct) simp_all

lemma sm_ps_new [simp]: "sm_ps (NewStateMachine cfg, b) = newProbeState"
  by (simp add: sm_ps_def sm_state_def NewStateMachine_def)

section \<open>Properties\<close>

text \<open>C15: the active checker ejects a backend by its failure threshold and no sooner. Starting
  from a healthy backend, a sequence of probes in which no \<open>FailureThreshold\<close> consecutive ones
  fail leaves it healthy; and whenever the last \<open>FailureThreshold\<close> probes failed, it is
  unhealthy.\<close>

theorem Checker_ejects_by_threshold:
  assumes "1 \<le> h_FailureThreshold (ck_cfg c)" and "1 \<le> h_SuccessThreshold (ck_cfg c)"
    and "GetHealth b = HealthHealthy" and "map_count (ck_failures c) (b_ID b) = 0"
  shows "((\<forall>us. sublist us nets \<longrightarrow> int (length us) = h_FailureThreshold (ck_cfg c) \<longrightarrow>
            (\<exists>net\<in>set us. probe_result net c b)) \<longrightarrow>
          GetHealth (snd (Checker_probes nets (c, b))) = HealthHealthy) \<and>
         ((\<exists>vs us. nets = vs @ us \<and> int (length us) = h_FailureThreshold (ck_cfg c) \<and>
            (\<forall>net\<in>set us. \<not> probe_result net c b)) \<longrightarrow>
          GetHealth (snd (Checker_probes nets (c, b))) = HealthUnhealthy)"
proof -
  have g: "ck_good c b (c, b) \<and> 0 \<le> map_count (ck_failures (fst (c, b))) (b_ID (snd (c, b)))"
    using assms by (simp add: ck_good_def)
  have "GetHealth (snd (Checker_probes nets (c, b))) = HealthHealthy"
    if "\<forall>us. sublist us nets \<longrightarrow> int (length us) = h_FailureThreshold (ck_cfg c) \<longrightarrow>
      (\<exists>net\<in>set us. probe_result net c b)"
    using ck.stays_healthy [OF g _ _ assms(1) that] assms by (simp add: Checker_probes_fold)
  moreover have "GetHealth (snd (Checker_probes nets (c, b))) = HealthUnhealthy"
    if "nets = vs @ us" "int (length us) = h_FailureThreshold (ck_cfg c)"
      "\<forall>net\<in>set us. \<not> probe_result net c b" for vs us
    using Checker_probes_eject [of c b us vs] assms that by simp
  ultimately show ?thesis by blast
qed

text \<open>A concrete backend and network states in which its health endpoint answers or does not.\<close>

definition network_answering :: "int \<Rightarrow> network" where
  "network_answering status = \<lparr>net_Get = (\<lambda>_. Inr status), net_Dial = (\<lambda>_ _. True), net_URLString = u_Host\<rparr>"

lemmas sample_defs = sample_backend_def network_answering_def NewChecker_def health_DefaultConfig_def
  backend_defs map_count_def probe_result_def probeHTTP_def

theorem Checker_ejects_by_threshold_witness:
  "GetHealth (snd (Checker_probes (replicate 3 (network_answering 503))
     (NewChecker (NewPool []) health_DefaultConfig, sample_backend HealthHealthy))) = HealthUnhealthy"
proof -
  let ?c = "NewChecker (NewPool []) health_DefaultConfig" and ?b = "sample_backend HealthHealthy"
  let ?nets = "replicate 3 (network_answering 503)"
  have "\<exists>vs us. ?nets = vs @ us \<and> int (length us) = h_FailureThreshold (ck_cfg ?c) \<and>
      (\<forall>net\<in>set us. \<not> probe_result net ?c ?b)"
    by (intro exI [of _ "[]"] exI [of _ ?nets]) (simp add: sample_defs)
  with Checker_ejects_by_threshold [of ?c ?b ?nets] show ?thesis
    by (simp add: sample_defs del: Checker_probes.simps)
qed

text \<open>C16: recovery in the active checker. From an unhealthy backend with no successes, \<open>k\<close>
  successful probes leave it unhealthy while \<open>k\<close> is below \<open>SuccessThreshold\<close>, put it on probation
  at the threshold, and return it to service with the very next probe: probation lasts one
  probe. There is no backoff, and the threshold counts before probation and not, as \<open>DESIGN.md\<close> has
  it, during probation.\<close>

theorem Checker_recovers:
  assumes "1 \<le> h_SuccessThreshold (ck_cfg c)" and "1 \<le> h_FailureThreshold (ck_cfg c)"
    and "GetHealth b = HealthUnhealthy" and "map_count (ck_successes c) (b_ID b) = 0"
    and "\<forall>net\<in>set nets. probe_result net c b"
  shows "GetHealth (snd (Checker_probes nets (c, b))) =
    (if int (length nets) < h_SuccessThreshold (ck_cfg c) then HealthUnhealthy
     else if int (length nets) = h_SuccessThreshold (ck_cfg c) then HealthProbation else HealthHealthy)"
  using Checker_recovery_counts [OF assms] by (simp add: Let_def)

theorem Checker_recovers_witness:
  "GetHealth (snd (Checker_probes (replicate 3 (network_answering 200))
     (NewChecker (NewPool []) health_DefaultConfig, sample_backend HealthUnhealthy))) = HealthHealthy"
  using Checker_recovers [of "NewChecker (NewPool []) health_DefaultConfig" "sample_backend HealthUnhealthy"
    "replicate 3 (network_answering 200)"]
  by (simp add: sample_defs del: Checker_probes.simps)

text \<open>C17: exponential backoff of the state machine. After any history of observations the
  backoff of a backend is five seconds doubled once per readmission since its last full
  recovery, capped at five minutes; so it never leaves that range.\<close>

theorem SM_exponential_backoff:
  "ps_backoff (sm_ps (sm_run evs (NewStateMachine cfg, b))) =
     min (5 * second * 2 ^ readmissions evs (NewStateMachine cfg, b) 0) (5 * minute) \<and>
   5 * second \<le> ps_backoff (sm_ps (sm_run evs (NewStateMachine cfg, b)))"
proof -
  have "ps_backoff (sm_ps (sm_run evs (NewStateMachine cfg, b))) =
     min (5 * second * 2 ^ readmissions evs (NewStateMachine cfg, b) 0) (5 * minute)"
    by (rule sm_backoff_run) (simp add: newProbeState_def)
  then show ?thesis by simp
qed

text \<open>C18: readmission by the state machine. After any history, let a backend be unhealthy, \<open>t\<close> the time
  its backoff is measured from (that of the first failed probe since its last readmission, not of its transition to unhealthy) and \<open>backoff\<close>
  five seconds doubled per readmission since its last full recovery, at most five minutes. It stays
  unhealthy while all observations are before \<open>t + backoff\<close>, whatever they are; and once at least \<open>SuccessThreshold\<close> successes in a row have
  been observed, the last one at or after \<open>t + backoff\<close>, it is on probation or healthy.\<close>

theorem SM_readmission:
  assumes "GetHealth (snd (sm_run hist (NewStateMachine cfg, b))) = HealthUnhealthy"
    and "backoff_start hist (NewStateMachine cfg, b) None = Some t"
    and "backoff = min (5 * second * 2 ^ readmissions hist (NewStateMachine cfg, b) 0) (5 * minute)"
    and "1 \<le> h_FailureThreshold cfg"
  shows "((\<forall>e\<in>set evs. fst e < t + backoff) \<longrightarrow>
      GetHealth (snd (sm_run (hist @ evs) (NewStateMachine cfg, b))) = HealthUnhealthy) \<and>
    ((\<forall>e\<in>set evs. snd e) \<and> h_SuccessThreshold cfg \<le> int (length evs) + 1 \<and> t + backoff \<le> now \<longrightarrow>
      GetHealth (snd (sm_run (hist @ evs @ [(now, True)]) (NewStateMachine cfg, b))) \<in> {HealthHealthy, HealthProbation})"
proof -
  let ?s = "sm_run hist (NewStateMachine cfg, b)"
  have since: "ps_unhealthySince (sm_ps ?s) = Some t" and bo: "ps_backoff (sm_ps ?s) = backoff"
    and succ: "0 \<le> ps_successes (sm_ps ?s)"
    using sm_since_run [of "(NewStateMachine cfg, b)" None hist] sm_backoff_run [of "(NewStateMachine cfg, b)" 0 hist]
      sm_successes_nonneg [of "(NewStateMachine cfg, b)" hist] assms(2,3) by (simp_all add: newProbeState_def)
  have "0 < backoff" "backoff \<le> max_int64" using assms(3) by simp_all
  moreover have "sm_cfg (fst ?s) = cfg" by (simp add: NewStateMachine_def)
  ultimately show ?thesis
    using sm_during_backoff [OF assms(1) since, of evs] sm_after_backoff [OF assms(1) since, of evs now] assms(4) bo succ
    by (auto simp: sm_run_append)
qed

theorem SM_readmission_witness:
  "let hist = [(0, False), (1 * second, False), (2 * second, False)]; s = (NewStateMachine health_DefaultConfig, sample_backend HealthHealthy)
   in GetHealth (snd (sm_run (hist @ [(4 * second, True)]) s)) = HealthUnhealthy \<and>
      GetHealth (snd (sm_run (hist @ [(4 * second, True)] @ [(5 * second, True)]) s)) \<in> {HealthHealthy, HealthProbation}"
proof -
  let ?hist = "[(0, False), (1 * second, False), (2 * second, False)]"
  let ?s = "(NewStateMachine health_DefaultConfig, sample_backend HealthHealthy)"
  have "GetHealth (snd (sm_run ?hist ?s)) = HealthUnhealthy" "backoff_start ?hist ?s None = Some 0"
    "5 * second = min (5 * second * 2 ^ readmissions ?hist ?s 0) (5 * minute)" "1 \<le> h_FailureThreshold health_DefaultConfig"
    by (simp_all add: Let_def sm_Observe_def sm_state_def NewStateMachine_def newProbeState_def ps_record_def
      sm_switch_def time_Since_def sample_backend_def health_DefaultConfig_def backend_defs min_duration_def)
  from SM_readmission [OF this, of "[(4 * second, True)]" "5 * second"] show ?thesis
    by (simp add: Let_def health_DefaultConfig_def del: sm_run.simps append.simps)
qed

text \<open>The backoff can be skipped. The time stamp it is measured from is that of the first
  failure ever recorded since the last readmission, not of the transition to unhealthy: with the
  default configuration, one failed probe at time 0 and a much later outage make the backend
  unhealthy at 100 s and readmit it at 102 s, before the backoff of five seconds.\<close>

theorem SM_stale_backoff:
  "let evs = [(0, False), (10 * second, True), (80 * second, False), (90 * second, False),
        (100 * second, False)];
       sm0 = NewStateMachine health_DefaultConfig;
       b = \<lparr>b_ID = ''b1'', b_URL = u, b_Weight = 1, b_activeConns = 0, b_health = HealthHealthy\<rparr>
   in GetHealth (snd (sm_run (butlast evs) (sm0, b))) = HealthHealthy \<and>
      GetHealth (snd (sm_run evs (sm0, b))) = HealthUnhealthy \<and>
      ps_backoff (sm_ps (sm_run evs (sm0, b))) = 5 * second \<and>
      GetHealth (snd (sm_run (evs @ [(101 * second, True), (102 * second, True)]) (sm0, b))) = HealthProbation"
  by (simp add: Let_def sm_Observe_def sm_ps_def sm_state_def NewStateMachine_def newProbeState_def ps_record_def
      sm_switch_def time_Since_def health_DefaultConfig_def backend_defs min_duration_def)

end
