(* ===== verification/HealthPassive.thy ===== *)
theory HealthPassive
  imports HealthActive
begin

text \<open>
  \<open>internal/health/passive.go\<close>: outlier detection from the results of proxied requests. A
  sliding window of outcomes per backend, ejection when the error rate reaches the threshold,
  and readmission after an exponential backoff. The rate is a \<open>float64\<close> quotient; the counts
  are far below \<open>2^53\<close>, so their conversion to \<open>float64\<close> is exact.
  Every method runs under the checker's mutex and is one step. The health of the backend is
  shared with the active checker, so each operation takes the backend as it finds it.
\<close>

section \<open>The passive checker\<close>

record event =
  ev_ts :: timestamp
  ev_err :: bool

record passive_checker =
  pc_windows :: "string \<rightharpoonup> event list"
  pc_cfg :: health_config
  pc_backoffs :: "string \<rightharpoonup> duration"
  pc_ejected :: "string \<rightharpoonup> timestamp"

definition NewPassiveChecker :: "health_config \<Rightarrow> passive_checker" where
  "NewPassiveChecker cfg =
     \<lparr>pc_windows = Map.empty, pc_cfg = cfg, pc_backoffs = Map.empty, pc_ejected = Map.empty\<rparr>"

text \<open>A missing window reads as the nil slice; a missing backoff as zero (\<open>map_count\<close>).\<close>

definition pc_window :: "passive_checker \<Rightarrow> string \<Rightarrow> event list" where
  "pc_window pc i = (case pc_windows pc i of None \<Rightarrow> [] | Some es \<Rightarrow> es)"

text \<open>\<open>evts[start:]\<close> after the loop that advances \<open>start\<close>.\<close>

fun trim_loop :: "timestamp \<Rightarrow> event list \<Rightarrow> event list" where
  "trim_loop cutoff [] = []"
| "trim_loop cutoff (e # evts) = (if ev_ts e < cutoff then trim_loop cutoff evts else e # evts)"

fun errs_loop :: "event list \<Rightarrow> nat \<Rightarrow> nat" where
  "errs_loop [] errs = errs"
| "errs_loop (e # evts) errs = errs_loop evts (if ev_err e then errs + 1 else errs)"

definition error_rate :: "event list \<Rightarrow> float64" where
  "error_rate evts = fround (of_nat (errs_loop evts 0) / of_nat (length evts))"

definition pc_Observe ::
  "timestamp \<Rightarrow> bool \<Rightarrow> passive_checker \<times> backend \<Rightarrow> passive_checker \<times> backend" where
  "pc_Observe now isError pcb =
     (let (pc, b) = pcb;
          cutoff = now + (- h_PassiveWindow (pc_cfg pc));
          evts = trim_loop cutoff (pc_window pc (b_ID b)) @ [\<lparr>ev_ts = now, ev_err = isError\<rparr>];
          pc = pc\<lparr>pc_windows := (pc_windows pc)(b_ID b \<mapsto> evts)\<rparr>;
          total = length evts
      in if total = 0 then (pc, b)
         else (let rate = error_rate evts
               in if rate \<ge> h_PassiveErrorRate (pc_cfg pc) \<and> GetHealth b = HealthHealthy
                  then (let pc = (if map_count (pc_backoffs pc) (b_ID b) = 0
                                  then pc\<lparr>pc_backoffs := (pc_backoffs pc)(b_ID b \<mapsto> 5 * second)\<rparr> else pc)
                        in (pc\<lparr>pc_ejected := (pc_ejected pc)(b_ID b \<mapsto> now)\<rparr>, SetHealth HealthUnhealthy b))
                  else (pc, b)))"

definition TryReadmit :: "timestamp \<Rightarrow> passive_checker \<times> backend \<Rightarrow> passive_checker \<times> backend" where
  "TryReadmit now pcb =
     (let (pc, b) = pcb in
      if GetHealth b \<noteq> HealthUnhealthy then (pc, b)
      else (case pc_ejected pc (b_ID b) of
              None \<Rightarrow> (pc, b)
            | Some ejectedAt \<Rightarrow>
                (let backoff = map_count (pc_backoffs pc) (b_ID b)
                 in if time_Since now (Some ejectedAt) \<ge> backoff
                    then (pc\<lparr>pc_backoffs := (pc_backoffs pc)(b_ID b \<mapsto> min_duration (backoff * 2) (5 * minute)),
                             pc_ejected := (pc_ejected pc)(b_ID b := None),
                             pc_windows := (pc_windows pc)(b_ID b \<mapsto> [])\<rparr>,
                          SetHealth HealthProbation b)
                    else (pc, b))))"

text \<open>The calls on the checker, each with the backend as its caller finds it.\<close>

datatype pc_call = PObserve timestamp bool backend | PReadmit timestamp backend

fun pc_exec :: "pc_call \<Rightarrow> passive_checker \<Rightarrow> passive_checker \<times> backend" where
  "pc_exec (PObserve now isError b) pc = pc_Observe now isError (pc, b)"
| "pc_exec (PReadmit now b) pc = TryReadmit now (pc, b)"

fun pc_run :: "pc_call list \<Rightarrow> passive_checker \<Rightarrow> passive_checker" where
  "pc_run [] pc = pc"
| "pc_run (op # ops) pc = pc_run ops (fst (pc_exec op pc))"

section \<open>The window\<close>

lemma trim_loop_sorted: "sorted (map ev_ts es) \<Longrightarrow> trim_loop c es = filter (\<lambda>e. c \<le> ev_ts e) es"
proof (induction es)
  case (Cons e es)
  then show ?case by (auto simp: filter_empty_conv intro!: filter_True [symmetric])
qed simp

lemma errs_loop_count: "errs_loop es n = n + length (filter ev_err es)"
  by (induction es arbitrary: n) auto

fun call_time :: "pc_call \<Rightarrow> timestamp" where
  "call_time (PObserve now isError b) = now"
| "call_time (PReadmit now b) = now"

text \<open>Whether a call readmits the backend \<open>i\<close>.\<close>

fun readmits :: "string \<Rightarrow> pc_call \<Rightarrow> passive_checker \<Rightarrow> bool" where
  "readmits i (PObserve now isError b) pc = False"
| "readmits i (PReadmit now b) pc \<longleftrightarrow>
     b_ID b = i \<and> GetHealth b = HealthUnhealthy \<and> GetHealth (snd (TryReadmit now (pc, b))) = HealthProbation"

text \<open>The log of all results reported for \<open>i\<close> since its last readmission.\<close>

fun log_step :: "string \<Rightarrow> pc_call \<Rightarrow> passive_checker \<Rightarrow> event list \<Rightarrow> event list" where
  "log_step i (PObserve now isError b) pc lg =
     (if b_ID b = i then lg @ [\<lparr>ev_ts = now, ev_err = isError\<rparr>] else lg)"
| "log_step i (PReadmit now b) pc lg = (if readmits i (PReadmit now b) pc then [] else lg)"

fun result_log :: "string \<Rightarrow> pc_call list \<Rightarrow> passive_checker \<Rightarrow> event list \<Rightarrow> event list" where
  "result_log i [] pc lg = lg"
| "result_log i (op # ops) pc lg = result_log i ops (fst (pc_exec op pc)) (log_step i op pc lg)"

text \<open>The events of a log that are at most \<open>w\<close> older than its last one.\<close>

definition recent :: "duration \<Rightarrow> event list \<Rightarrow> event list" where
  "recent w lg = filter (\<lambda>e. ev_ts (last lg) - w \<le> ev_ts e) lg"

lemma pc_window_Observe:
  "pc_window (fst (pc_Observe now isError (pc, b))) i =
     (if b_ID b = i then trim_loop (now - h_PassiveWindow (pc_cfg pc)) (pc_window pc i) @ [\<lparr>ev_ts = now, ev_err = isError\<rparr>]
      else pc_window pc i)"
  by (auto simp: pc_Observe_def pc_window_def Let_def)

lemma TryReadmit_cases:
  assumes "TryReadmit now (pc, b) = (pc', b')"
  shows "(pc', b') = (pc, b) \<or>
    (\<exists>t. GetHealth b = HealthUnhealthy \<and> GetHealth b' = HealthProbation \<and> pc_ejected pc (b_ID b) = Some t \<and>
      map_count (pc_backoffs pc) (b_ID b) \<le> time_Since now (Some t) \<and>
      pc' = pc\<lparr>pc_backoffs := (pc_backoffs pc)(b_ID b \<mapsto>
                 min_duration (map_count (pc_backoffs pc) (b_ID b) * 2) (5 * minute)),
               pc_ejected := (pc_ejected pc)(b_ID b := None), pc_windows := (pc_windows pc)(b_ID b \<mapsto> [])\<rparr>)"
  using assms by (auto simp: TryReadmit_def Let_def backend_defs split: if_splits option.splits)

lemma pc_cfg_exec [simp]: "pc_cfg (fst (pc_exec op pc)) = pc_cfg pc"
  by (cases op) (auto simp: pc_Observe_def TryReadmit_def Let_def split: option.splits)

lemma pc_window_exec:
  assumes "pc_window pc i = recent w lg" and "sorted (map ev_ts lg)" and "0 \<le> w"
    and "w = h_PassiveWindow (pc_cfg pc)" and "\<forall>e\<in>set lg. ev_ts e \<le> call_time op"
  shows "pc_window (fst (pc_exec op pc)) i = recent w (log_step i op pc lg)"
proof (cases op)
  case (PObserve now isError b)
  have "sorted (map ev_ts (recent w lg))"
    unfolding recent_def by (rule sorted_filter) (rule assms(2))
  then have "trim_loop (now - w) (recent w lg) = filter (\<lambda>e. now - w \<le> ev_ts e) lg"
    using assms(5) [rule_format, of "last lg"] PObserve unfolding recent_def
    by (cases "lg = []") (auto simp: trim_loop_sorted intro!: filter_cong)
  then show ?thesis using PObserve assms(1,3,4)
    by (auto simp: pc_window_Observe recent_def)
next
  case (PReadmit now b)
  obtain pc' b' where r: "TryReadmit now (pc, b) = (pc', b')" by fastforce
  then show ?thesis using TryReadmit_cases [OF r] assms(1) PReadmit
    by (auto simp: pc_window_def recent_def)
qed

lemma log_step_sorted:
  assumes "sorted (map ev_ts lg)" and "\<forall>e\<in>set lg. ev_ts e \<le> call_time op"
  shows "sorted (map ev_ts (log_step i op pc lg)) \<and> (\<forall>e\<in>set (log_step i op pc lg). ev_ts e \<le> call_time op)"
  using assms by (cases op) (auto simp: sorted_append)

lemma pc_window_run:
  assumes "pc_window pc i = recent w lg" and "sorted (map ev_ts lg)" and "0 \<le> w"
    and "w = h_PassiveWindow (pc_cfg pc)" and "\<forall>e\<in>set lg. \<forall>op\<in>set ops. ev_ts e \<le> call_time op"
    and "sorted (map call_time ops)"
  shows "pc_window (pc_run ops pc) i = recent w (result_log i ops pc lg)"
  using assms
proof (induction ops arbitrary: pc lg)
  case (Cons op ops)
  let ?lg = "log_step i op pc lg"
  have le: "sorted (map ev_ts ?lg) \<and> (\<forall>e\<in>set ?lg. ev_ts e \<le> call_time op)"
    using Cons.prems by (intro log_step_sorted) auto
  moreover have "pc_window (fst (pc_exec op pc)) i = recent w ?lg"
    using Cons.prems by (intro pc_window_exec) auto
  moreover have "\<forall>e\<in>set ?lg. \<forall>op'\<in>set ops. ev_ts e \<le> call_time op'"
    using le Cons.prems(6) by fastforce
  ultimately show ?case using Cons.IH [of "fst (pc_exec op pc)" ?lg] Cons.prems by simp
qed simp

section \<open>The backoff\<close>

fun readmit_count :: "string \<Rightarrow> pc_call list \<Rightarrow> passive_checker \<Rightarrow> nat \<Rightarrow> nat" where
  "readmit_count i [] pc k = k"
| "readmit_count i (op # ops) pc k =
     readmit_count i ops (fst (pc_exec op pc)) (if readmits i op pc then k + 1 else k)"

definition backoff_at :: "nat \<Rightarrow> duration" where
  "backoff_at k = min (5 * second * 2 ^ k) (5 * minute)"

lemma backoff_at_bounds: "5 * second \<le> backoff_at k" "backoff_at k \<le> 5 * minute"
  by (simp_all add: backoff_at_def)

lemma backoff_at_double: "min_duration (backoff_at k * 2) (5 * minute) = backoff_at (k + 1)"
  by (auto simp: min_duration_def backoff_at_def)

definition backoff_inv :: "string \<Rightarrow> nat \<Rightarrow> passive_checker \<Rightarrow> bool" where
  "backoff_inv i k pc \<longleftrightarrow>
     (pc_backoffs pc i = None \<and> pc_ejected pc i = None \<and> k = 0) \<or> pc_backoffs pc i = Some (backoff_at k)"

lemma backoff_inv_exec:
  assumes "backoff_inv i k pc"
  shows "backoff_inv i (if readmits i op pc then k + 1 else k) (fst (pc_exec op pc))"
proof (cases op)
  case (PObserve now isError b)
  have "backoff_at 0 = 5 * second" by (simp add: backoff_at_def)
  moreover have "backoff_at k \<noteq> 0" using backoff_at_bounds(1) [of k] by auto
  ultimately show ?thesis using assms PObserve
    by (auto simp: backoff_inv_def pc_Observe_def Let_def map_count_def)
next
  case (PReadmit now b)
  obtain pc' b' where r: "TryReadmit now (pc, b) = (pc', b')" by fastforce
  then show ?thesis
    using TryReadmit_cases [OF r] assms PReadmit backoff_at_double [of k]
    by (auto simp: backoff_inv_def map_count_def)
qed

lemma backoff_inv_run: "backoff_inv i k pc \<Longrightarrow> backoff_inv i (readmit_count i ops pc k) (pc_run ops pc)"
proof (induction ops arbitrary: k pc)
  case (Cons op ops)
  then show ?case using backoff_inv_exec [OF Cons.prems, of op] by simp
qed simp

text \<open>What a report does to a healthy backend, in terms of the exact fraction of errors.\<close>

lemma pc_Observe_rate:
  assumes "GetHealth b = HealthHealthy"
  shows "let (pc', b') = pc_Observe now isError (pc, b);
             es = pc_window pc' (b_ID b);
             rate = of_nat (length (filter ev_err es)) / of_nat (length es)
         in es \<noteq> [] \<and>
            (h_PassiveErrorRate (pc_cfg pc) \<le> rate * (1 - 1 / 2 ^ 53) \<longrightarrow> GetHealth b' = HealthUnhealthy) \<and>
            (GetHealth b' = HealthUnhealthy \<longrightarrow>
               h_PassiveErrorRate (pc_cfg pc) \<le> rate * (1 + 1 / 2 ^ 53) \<and> pc_ejected pc' (b_ID b) = Some now) \<and>
            (GetHealth b' = HealthUnhealthy \<or> b' = b)"
proof -
  obtain pc' b' where o: "pc_Observe now isError (pc, b) = (pc', b')" by fastforce
  define es where "es = pc_window pc' (b_ID b)"
  have es: "es = trim_loop (now - h_PassiveWindow (pc_cfg pc)) (pc_window pc (b_ID b)) @ [\<lparr>ev_ts = now, ev_err = isError\<rparr>]"
    using pc_window_Observe [of now isError pc b "b_ID b"] o by (simp add: es_def)
  have h: "GetHealth b' = (if h_PassiveErrorRate (pc_cfg pc) \<le> error_rate es then HealthUnhealthy else HealthHealthy)"
    "GetHealth b' = HealthUnhealthy \<longrightarrow> pc_ejected pc' (b_ID b) = Some now"
    "GetHealth b' \<noteq> HealthUnhealthy \<longrightarrow> b' = b"
    using o assms es by (auto simp: pc_Observe_def Let_def backend_defs split: if_splits)
  define rate :: rat where "rate = of_nat (length (filter ev_err es)) / of_nat (length es)"
  have err: "\<bar>error_rate es - rate\<bar> \<le> rate / 2 ^ 53"
    using fround_error [of rate]
    by (simp add: error_rate_def errs_loop_count rate_def)
  note bounds = relative_error [OF err]
  have "es \<noteq> []" by (simp add: es)
  moreover have "GetHealth b' = HealthUnhealthy" if "h_PassiveErrorRate (pc_cfg pc) \<le> rate * (1 - 1 / 2 ^ 53)"
    using order_trans [OF that bounds(1)] h(1) by simp
  moreover have "h_PassiveErrorRate (pc_cfg pc) \<le> rate * (1 + 1 / 2 ^ 53)" if "GetHealth b' = HealthUnhealthy"
    using that h(1) by (intro order_trans [OF _ bounds(2)]) (simp split: if_splits)
  ultimately show ?thesis unfolding o Let_def split
    unfolding es_def [symmetric] unfolding rate_def [symmetric] using h(2,3) by blast
qed

section \<open>Properties\<close>

text \<open>C19: the sliding window is exact. After any sequence of calls with non-decreasing times, the
  window kept for a backend is precisely the results reported for it since its last
  readmission that are at most \<open>PassiveWindow\<close> older than the latest of them.\<close>

theorem Passive_window_exact:
  assumes "sorted (map call_time ops)" and "0 \<le> h_PassiveWindow cfg"
  shows "pc_window (pc_run ops (NewPassiveChecker cfg)) i =
    recent (h_PassiveWindow cfg) (result_log i ops (NewPassiveChecker cfg) [])"
  using assms by (intro pc_window_run) (simp_all add: NewPassiveChecker_def pc_window_def recent_def)

theorem Passive_window_exact_witness:
  "let ops = [PObserve 0 True (sample_backend HealthUnhealthy), PObserve (50 * second) False (sample_backend HealthUnhealthy),
        PObserve (70 * second) False (sample_backend HealthUnhealthy)]
   in pc_window (pc_run ops (NewPassiveChecker health_DefaultConfig)) ''b1'' =
      [\<lparr>ev_ts = 50 * second, ev_err = False\<rparr>, \<lparr>ev_ts = 70 * second, ev_err = False\<rparr>]"
  using Passive_window_exact [of "[PObserve 0 True (sample_backend HealthUnhealthy),
        PObserve (50 * second) False (sample_backend HealthUnhealthy),
        PObserve (70 * second) False (sample_backend HealthUnhealthy)]" health_DefaultConfig "''b1''"]
  by (simp add: Let_def recent_def sample_backend_def health_DefaultConfig_def del: pc_run.simps)



text \<open>C21: exponential backoff of passive readmission. After any sequence of calls, an ejected
  backend that is still unhealthy is put on probation by \<open>TryReadmit\<close> exactly when the time since
  its ejection has reached five seconds doubled once per earlier readmission, capped at five
  minutes.\<close>

theorem Passive_readmits_after_backoff:
  assumes "pc_ejected (pc_run ops (NewPassiveChecker cfg)) (b_ID b) = Some t"
    and "GetHealth b = HealthUnhealthy"
  shows "GetHealth (snd (TryReadmit now (pc_run ops (NewPassiveChecker cfg), b))) = HealthProbation \<longleftrightarrow>
    min (5 * second * 2 ^ readmit_count (b_ID b) ops (NewPassiveChecker cfg) 0) (5 * minute) \<le> now - t"
proof -
  let ?pc = "pc_run ops (NewPassiveChecker cfg)"
  define k where "k = readmit_count (b_ID b) ops (NewPassiveChecker cfg) 0"
  have "backoff_inv (b_ID b) k ?pc" unfolding k_def
    by (rule backoff_inv_run) (simp add: backoff_inv_def NewPassiveChecker_def)
  then have "map_count (pc_backoffs ?pc) (b_ID b) = backoff_at k"
    using assms(1) by (auto simp: backoff_inv_def map_count_def)
  moreover have "backoff_at k \<le> time_Since now (Some t) \<longleftrightarrow> backoff_at k \<le> now - t"
    using backoff_at_bounds [of k] by (auto simp: time_Since_def)
  ultimately show ?thesis using assms
    by (auto simp: TryReadmit_def Let_def backend_defs backoff_at_def simp flip: k_def)
qed

theorem Passive_readmits_after_backoff_witness:
  "GetHealth (snd (TryReadmit (6 * second)
     (pc_run [PObserve 0 True (sample_backend HealthHealthy)] (NewPassiveChecker health_DefaultConfig),
      sample_backend HealthUnhealthy))) = HealthProbation"
proof -
  let ?ops = "[PObserve 0 True (sample_backend HealthHealthy)]" and ?b = "sample_backend HealthUnhealthy"
  have "pc_ejected (pc_run ?ops (NewPassiveChecker health_DefaultConfig)) (b_ID ?b) = Some 0"
    using pc_Observe_rate [of "sample_backend HealthHealthy" 0 True "NewPassiveChecker health_DefaultConfig"]
      pc_window_Observe [of 0 True "NewPassiveChecker health_DefaultConfig" "sample_backend HealthHealthy"]
    by (simp add: split_beta Let_def sample_backend_def backend_defs NewPassiveChecker_def health_DefaultConfig_def
        pc_window_def)
  from Passive_readmits_after_backoff [OF this, of "6 * second"] show ?thesis
    by (simp add: sample_backend_def backend_defs)
qed

end
