(* ===== verification/RateLimiter.thy ===== *)
theory RateLimiter
  imports Http Float64
begin

text \<open>
  \<open>internal/middleware/ratelimit.go\<close>: the per-address token bucket limiter, its middleware
  and the eviction of stale buckets. Token counts are \<open>int64\<close> words; time stamps are
  nanoseconds as integers. The sequential model runs \<open>Allow\<close> as a whole at one
  time \<open>now\<close> (its two readings of the clock coincide and its compare-and-swap succeeds at once);
  \<open>BucketConcurrency\<close> interleaves the atomic operations of concurrent calls.
\<close>

section \<open>The limiter\<close>

record bucket =
  bk_tokens :: int64
  bk_lastRefill :: timestamp

record rate_limiter =
  rl_rate :: float64
  rl_burst :: int64
  rl_buckets :: "string \<rightharpoonup> bucket"

definition NewRateLimiter :: "float64 \<Rightarrow> int64 \<Rightarrow> rate_limiter" where
  "NewRateLimiter ratePerSec burst =
     \<lparr>rl_rate = ratePerSec, rl_burst = burst, rl_buckets = Map.empty\<rparr>"

definition rl_bucket :: "timestamp \<Rightarrow> rate_limiter \<Rightarrow> string \<Rightarrow> bucket \<times> rate_limiter" where
  "rl_bucket now rl ip =
     (case rl_buckets rl ip of
        None \<Rightarrow> (let b = \<lparr>bk_tokens = rl_burst rl, bk_lastRefill = now\<rparr>
                 in (b, rl\<lparr>rl_buckets := (rl_buckets rl)(ip \<mapsto> b)\<rparr>))
      | Some b \<Rightarrow> (b, rl))"

text \<open>\<open>refill := int64(float64(now-last) / float64(time.Second) * rl.rate)\<close>.\<close>

definition refill_amount :: "(float64 \<Rightarrow> int64) \<Rightarrow> float64 \<Rightarrow> duration \<Rightarrow> int64" where
  "refill_amount oor rate d =
     (let elapsed = fround (fround (of_int d) / of_int second)
      in float_to_int64 oor (fround (elapsed * rate)))"

definition refilled :: "int64 \<Rightarrow> int64 \<Rightarrow> int64 \<Rightarrow> int64" where
  "refilled burst cur refill =
     (let newVal = cur + refill in if sint newVal > sint burst then burst else newVal)"

definition bk_refill :: "(float64 \<Rightarrow> int64) \<Rightarrow> rate_limiter \<Rightarrow> timestamp \<Rightarrow> bucket \<Rightarrow> bucket" where
  "bk_refill oor rl now b =
     (let last = bk_lastRefill b; b = b\<lparr>bk_lastRefill := now\<rparr>;
          refill = refill_amount oor (rl_rate rl) (now - last)
      in if sint refill > 0 then b\<lparr>bk_tokens := refilled (rl_burst rl) (bk_tokens b) refill\<rparr> else b)"

text \<open>The compare-and-swap loop, when no other call interferes.\<close>

definition bk_take :: "bucket \<Rightarrow> bool \<times> bucket" where
  "bk_take b = (if sint (bk_tokens b) \<le> 0 then (False, b) else (True, b\<lparr>bk_tokens := bk_tokens b - 1\<rparr>))"

definition rl_Allow :: "(float64 \<Rightarrow> int64) \<Rightarrow> timestamp \<Rightarrow> rate_limiter \<Rightarrow> string \<Rightarrow> bool \<times> rate_limiter" where
  "rl_Allow oor now rl ip =
     (let (b, rl) = rl_bucket now rl ip;
          b = bk_refill oor rl now b;
          (ok, b) = bk_take b
      in (ok, rl\<lparr>rl_buckets := (rl_buckets rl)(ip \<mapsto> b)\<rparr>))"

section \<open>Middleware and cleanup\<close>

definition mw_clientIP :: "request \<Rightarrow> string" where
  "mw_clientIP r =
     (let xff = Header_Get (r_Header r) ''X-Forwarded-For'' in
      if xff \<noteq> [] then xff
      else (let ip = r_RemoteAddr r
            in case last_index_byte CHR '':'' ip of Some i \<Rightarrow> take i ip | None \<Rightarrow> ip))"

definition rl_Middleware ::
  "codec \<Rightarrow> (float64 \<Rightarrow> int64) \<Rightarrow> timestamp \<Rightarrow> (request \<Rightarrow> 's \<times> writer \<Rightarrow> 's \<times> writer) \<Rightarrow>
   request \<Rightarrow> rate_limiter \<times> 's \<times> writer \<Rightarrow> rate_limiter \<times> 's \<times> writer" where
  "rl_Middleware z oor now next r st =
     (let (rl, s, w) = st; ip = mw_clientIP r; (ok, rl) = rl_Allow oor now rl ip
      in if \<not> ok then
           (let w = w_setHeader (\<lambda>h. Header_Set h ''Retry-After'' ''1'') w
            in (rl, s, http_Error z (''{'' @ [CHR 0x22] @ ''error'' @ [CHR 0x22] @ '':'' @ [CHR 0x22] @
                 ''rate limit exceeded'' @ [CHR 0x22] @ ''}'') 429 w))
         else (rl, next r (s, w)))"

definition rl_evict :: "timestamp \<Rightarrow> rate_limiter \<Rightarrow> rate_limiter" where
  "rl_evict cutoff rl =
     rl\<lparr>rl_buckets := (\<lambda>ip. case rl_buckets rl ip of
          None \<Rightarrow> None | Some b \<Rightarrow> if bk_lastRefill b < cutoff then None else Some b)\<rparr>"

datatype cleanup_event = CleanupDone | CleanupTick timestamp

fun StartCleanup :: "duration \<Rightarrow> cleanup_event list \<Rightarrow> rate_limiter \<Rightarrow> rate_limiter" where
  "StartCleanup interval [] rl = rl"
| "StartCleanup interval (CleanupDone # evs) rl = rl"
| "StartCleanup interval (CleanupTick now # evs) rl =
     StartCleanup interval evs (rl_evict (now + (- interval)) rl)"

text \<open>A sequence of calls of \<open>Allow\<close>: the requests of an address that were admitted.\<close>

fun rl_run :: "(float64 \<Rightarrow> int64) \<Rightarrow> (timestamp \<times> string) list \<Rightarrow> rate_limiter \<Rightarrow> bool list \<times> rate_limiter" where
  "rl_run oor [] rl = ([], rl)"
| "rl_run oor ((now, ip) # reqs) rl =
     (let (ok, rl) = rl_Allow oor now rl ip; (oks, rl) = rl_run oor reqs rl in (ok # oks, rl))"

definition admitted :: "(float64 \<Rightarrow> int64) \<Rightarrow> string \<Rightarrow> (timestamp \<times> string) list \<Rightarrow> rate_limiter \<Rightarrow> nat" where
  "admitted oor ip reqs rl =
     length (filter (\<lambda>(q, ok). snd q = ip \<and> ok) (zip reqs (fst (rl_run oor reqs rl))))"

section \<open>The amount of a refill\<close>

interpretation rl_tab: get_or_create "rl_bucket now" rl_buckets
  "\<lambda>rl. \<lparr>bk_tokens = rl_burst rl, bk_lastRefill = now\<rparr>" "\<lambda>_. True" for now
  by unfold_locales (auto simp: rl_bucket_def Let_def)

abbreviation slack :: rat where
  "slack \<equiv> 1 + 1 / 2 ^ 51"

text \<open>What accrues in \<open>d\<close> nanoseconds at \<open>rate\<close>, with an allowance for three roundings.\<close>

definition accrual :: "float64 \<Rightarrow> duration \<Rightarrow> rat" where
  "accrual rate d = of_int d / of_int second * rate * slack"

lemma accrual_add: "accrual rate (d + e) = accrual rate d + accrual rate e"
  by (simp add: accrual_def add_divide_distrib distrib_right)

lemma accrual_mono: "0 \<le> rate \<Longrightarrow> d \<le> e \<Longrightarrow> accrual rate d \<le> accrual rate e"
  unfolding accrual_def by (intro mult_right_mono divide_right_mono) simp_all

lemma accrual_nonneg: "0 \<le> rate \<Longrightarrow> 0 \<le> d \<Longrightarrow> 0 \<le> accrual rate d"
  by (simp add: accrual_def)

lemma fround_3:
  assumes "0 \<le> d" and "0 \<le> rate"
  shows "0 \<le> fround (fround (fround d / of_int second) * rate)"
    and "fround (fround (fround d / of_int second) * rate) \<le> d / of_int second * rate * slack"
proof -
  let ?k = "1 + 1 / 2 ^ 53 :: rat"
  define e where "e = fround (fround d / of_int second)"
  have n: "0 \<le> fround d" "0 \<le> e" using assms by (simp_all add: fround_nonneg e_def)
  have "fround d / of_int second \<le> d / of_int second * ?k"
    using fround_bounds(2) [OF assms(1)] by (simp add: divide_right_mono)
  then have "fround d / of_int second * ?k \<le> d / of_int second * ?k * ?k"
    by (rule mult_right_mono) simp
  then have "e \<le> d / of_int second * ?k * ?k"
    using fround_bounds(2) [of "fround d / of_int second"] n(1) unfolding e_def by (meson divide_nonneg_nonneg order_trans of_int_0_le_iff zero_le_numeral)
  then have "e * rate * ?k \<le> d / of_int second * ?k * ?k * rate * ?k"
    using assms(2) by (intro mult_right_mono) auto
  also have "\<dots> = d / of_int second * rate * (?k * ?k * ?k)" by (simp only: mult_ac)
  also have "\<dots> \<le> d / of_int second * rate * slack"
    using assms by (intro mult_left_mono) auto
  finally have "e * rate * ?k \<le> d / of_int second * rate * slack" .
  moreover have "fround (e * rate) \<le> e * rate * ?k" using n(2) assms(2) by (intro fround_bounds(2)) simp
  ultimately show "fround (fround (fround d / of_int second) * rate) \<le> d / of_int second * rate * slack"
    unfolding e_def by linarith
  show "0 \<le> fround (fround (fround d / of_int second) * rate)"
    using n(2) assms(2) unfolding e_def by (intro fround_nonneg) simp
qed

lemma sint_of_int64: "min_int64 \<le> n \<Longrightarrow> n \<le> max_int64 \<Longrightarrow> sint (word_of_int n :: int64) = n"
  by (simp add: sint_sbintrunc' signed_take_bit_int_eq_self)

lemma float_to_int64_floor:
  "0 \<le> x \<Longrightarrow> \<lfloor>x\<rfloor> \<le> max_int64 \<Longrightarrow> sint (float_to_int64 oor x) = \<lfloor>x\<rfloor>"
  using sint_of_int64 [of "\<lfloor>x\<rfloor>"] by (auto simp: float_to_int64_def Let_def)

lemma refill_bounds:
  assumes "0 \<le> d" and "0 \<le> rate" and "accrual rate d \<le> of_int max_int64"
  shows "0 \<le> sint (refill_amount oor rate d)"
    and "of_int (sint (refill_amount oor rate d)) \<le> accrual rate d"
proof -
  define x where "x = fround (fround (fround (of_int d) / of_int second) * rate)"
  have x: "0 \<le> x" "x \<le> accrual rate d"
    using fround_3 [of "of_int d" rate] assms(1,2) by (simp_all add: x_def accrual_def)
  have "x \<le> of_int max_int64" by (rule order_trans [OF x(2) assms(3)])
  then have "\<lfloor>x\<rfloor> \<le> max_int64" by (metis floor_mono floor_of_int)
  then have eq: "sint (refill_amount oor rate d) = \<lfloor>x\<rfloor>"
    using float_to_int64_floor [OF x(1)] by (simp only: refill_amount_def Let_def x_def)
  show "0 \<le> sint (refill_amount oor rate d)" using x(1) by (simp add: eq)
  show "of_int (sint (refill_amount oor rate d)) \<le> accrual rate d"
    unfolding eq by (rule order_trans [OF of_int_floor_le x(2)])
qed

declare of_int_sint [simp del]

section \<open>One bucket\<close>

definition bk_step :: "(float64 \<Rightarrow> int64) \<Rightarrow> rate_limiter \<Rightarrow> timestamp \<Rightarrow> bucket \<Rightarrow> bool \<times> bucket" where
  "bk_step oor rl now b = bk_take (bk_refill oor rl now b)"

text \<open>The tokens of a bucket are between zero and the burst, and small enough not to wrap.\<close>

definition bk_inv :: "rate_limiter \<Rightarrow> bucket \<Rightarrow> bool" where
  "bk_inv rl b \<longleftrightarrow> 0 \<le> sint (bk_tokens b) \<and> sint (bk_tokens b) \<le> sint (rl_burst rl)"

lemma sint_add_int64:
  fixes x y :: int64
  shows "min_int64 \<le> sint x + sint y \<Longrightarrow> sint x + sint y \<le> max_int64 \<Longrightarrow> sint (x + y) = sint x + sint y"
  by (simp add: sint_word_ariths signed_take_bit_int_eq_self)

lemma sint_sub_one:
  fixes x :: int64
  shows "min_int64 < sint x \<Longrightarrow> sint (x - 1) = sint x - 1"
  using sint_less [of x] by (simp add: sint_word_ariths signed_take_bit_int_eq_self)

lemma bk_take_sint:
  "0 \<le> sint (bk_tokens b) \<Longrightarrow> bk_take b = (ok, b') \<Longrightarrow>
   sint (bk_tokens b') + of_bool ok = sint (bk_tokens b) \<and> 0 \<le> sint (bk_tokens b') \<and>
   bk_lastRefill b' = bk_lastRefill b"
  by (auto simp: bk_take_def sint_sub_one split: if_splits)

lemma bk_refill_bound:
  assumes "bk_inv rl b" and "bk_lastRefill b \<le> now" and "0 \<le> rl_rate rl"
    and "sint (rl_burst rl) \<le> 2 ^ 62" and "accrual (rl_rate rl) (now - bk_lastRefill b) \<le> 2 ^ 61"
  shows "bk_inv rl (bk_refill oor rl now b)" and "bk_lastRefill (bk_refill oor rl now b) = now"
    and "of_int (sint (bk_tokens (bk_refill oor rl now b))) \<le>
      of_int (sint (bk_tokens b)) + accrual (rl_rate rl) (now - bk_lastRefill b)"
    and "accrual (rl_rate rl) (now - bk_lastRefill b) < 1 \<Longrightarrow>
      bk_tokens (bk_refill oor rl now b) = bk_tokens b"
proof -
  let ?d = "now - bk_lastRefill b" and ?f = "refill_amount oor (rl_rate rl) (now - bk_lastRefill b)"
  have d: "0 \<le> ?d" using assms(2) by simp
  have "accrual (rl_rate rl) ?d \<le> of_int max_int64" by (rule order_trans [OF assms(5)]) simp
  note f = refill_bounds [OF d assms(3) this, of oor]
  have "of_int (sint ?f) \<le> (of_int (2 ^ 61) :: rat)" using f(2) assms(5) by simp
  then have f61: "sint ?f \<le> 2 ^ 61" by (simp only: of_int_le_iff)
  have t: "0 \<le> sint (bk_tokens b)" "sint (bk_tokens b) \<le> sint (rl_burst rl)"
    using assms(1) by (simp_all add: bk_inv_def)
  have sum: "sint (bk_tokens b + ?f) = sint (bk_tokens b) + sint ?f"
    using t f(1) f61 assms(4) by (intro sint_add_int64) auto
  have acc: "0 \<le> accrual (rl_rate rl) ?d" using accrual_nonneg [OF assms(3) d] .
  show "bk_inv rl (bk_refill oor rl now b)"
    using t f(1) sum by (auto simp: bk_inv_def bk_refill_def refilled_def Let_def)
  show "bk_lastRefill (bk_refill oor rl now b) = now"
    by (simp add: bk_refill_def Let_def)
  have "of_int (sint (bk_tokens (bk_refill oor rl now b))) \<le> (of_int (sint (bk_tokens b) + sint ?f) :: rat)"
    unfolding of_int_le_iff using f(1) sum by (auto simp: bk_refill_def refilled_def Let_def)
  then show "of_int (sint (bk_tokens (bk_refill oor rl now b))) \<le>
      of_int (sint (bk_tokens b)) + accrual (rl_rate rl) ?d"
    using f(2) by simp
  show "bk_tokens (bk_refill oor rl now b) = bk_tokens b" if "accrual (rl_rate rl) ?d < 1"
  proof -
    have "of_int (sint ?f) < (1 :: rat)" using f(2) that by (rule le_less_trans)
    then have "sint ?f \<le> 0" by simp
    then show ?thesis by (simp add: bk_refill_def Let_def)
  qed
qed

fun bk_admitted :: "(float64 \<Rightarrow> int64) \<Rightarrow> rate_limiter \<Rightarrow> timestamp list \<Rightarrow> bucket \<Rightarrow> nat" where
  "bk_admitted oor rl [] b = 0"
| "bk_admitted oor rl (now # ts) b =
     (let (ok, b) = bk_step oor rl now b in of_bool ok + bk_admitted oor rl ts b)"

text \<open>Requests so close together that every single refill rounds down to nothing.\<close>

lemma bk_admitted_starved:
  assumes "bk_inv rl b" and "0 \<le> rl_rate rl" and "sint (rl_burst rl) \<le> 2 ^ 62"
    and "successively (\<lambda>s t. s \<le> t \<and> accrual (rl_rate rl) (t - s) < 1) (bk_lastRefill b # ts)"
  shows "int (bk_admitted oor rl ts b) \<le> sint (bk_tokens b)"
  using assms
proof (induction ts arbitrary: b)
  case Nil
  then show ?case by (simp add: bk_inv_def)
next
  case (Cons now ts)
  let ?b = "bk_refill oor rl now b"
  obtain ok b' where tk: "bk_take ?b = (ok, b')" by fastforce
  have lt: "bk_lastRefill b \<le> now" "accrual (rl_rate rl) (now - bk_lastRefill b) < 1"
    using Cons.prems(4) by simp_all
  have "accrual (rl_rate rl) (now - bk_lastRefill b) \<le> 2 ^ 61"
    by (rule order_trans [OF less_imp_le [OF lt(2)]]) simp
  note f = bk_refill_bound [OF Cons.prems(1) lt(1) Cons.prems(2,3) this, of oor]
  have t: "sint (bk_tokens b') + of_bool ok = sint (bk_tokens b)" "0 \<le> sint (bk_tokens b')"
      "bk_lastRefill b' = now"
    using bk_take_sint [OF _ tk] f(1,2) f(4) [OF lt(2)] by (auto simp: bk_inv_def)
  then have "bk_inv rl b'" using Cons.prems(1) by (cases ok) (auto simp: bk_inv_def)
  then have "int (bk_admitted oor rl ts b') \<le> sint (bk_tokens b')"
    using Cons.IH [of b'] Cons.prems t(3) by (cases ts) simp_all
  then show ?case using t(1) by (simp add: bk_step_def tk)
qed

section \<open>The limiter as one bucket per address\<close>

definition times_of :: "string \<Rightarrow> (timestamp \<times> string) list \<Rightarrow> timestamp list" where
  "times_of ip reqs = map fst (filter (\<lambda>q. snd q = ip) reqs)"

lemma rl_Allow_eq:
  "rl_Allow oor now rl ip =
     (let (ok, b) = bk_step oor rl now (fst (rl_bucket now rl ip))
      in (ok, rl\<lparr>rl_buckets := (rl_buckets rl)(ip \<mapsto> b)\<rparr>))"
  by (auto simp: rl_Allow_def rl_bucket_def bk_step_def bk_refill_def Let_def split: option.splits prod.splits)

lemma bk_admitted_cong:
  "rl_rate rl = rl_rate rl' \<Longrightarrow> rl_burst rl = rl_burst rl' \<Longrightarrow> bk_admitted oor rl ts b = bk_admitted oor rl' ts b"
  by (induction ts arbitrary: b) (auto simp: bk_step_def bk_refill_def Let_def)

lemma admitted_Cons:
  "admitted oor ip ((now, j) # reqs) rl =
     of_bool (j = ip \<and> fst (rl_Allow oor now rl j)) + admitted oor ip reqs (snd (rl_Allow oor now rl j))"
  by (simp add: admitted_def split_beta)

text \<open>Requests of other addresses do not matter.\<close>

lemma admitted_bucket:
  "admitted oor ip reqs rl = (case times_of ip reqs of [] \<Rightarrow> 0
     | t # ts \<Rightarrow> bk_admitted oor rl (t # ts) (fst (rl_bucket t rl ip)))"
proof (induction reqs arbitrary: rl)
  case Nil
  then show ?case by (simp add: admitted_def times_of_def)
next
  case (Cons q reqs)
  obtain now j where q: "q = (now, j)" by fastforce
  let ?b = "fst (rl_bucket now rl j)"
  obtain ok b where st: "bk_step oor rl now ?b = (ok, b)" by fastforce
  define rl' where "rl' = rl\<lparr>rl_buckets := (rl_buckets rl)(j \<mapsto> b)\<rparr>"
  have al: "rl_Allow oor now rl j = (ok, rl')" by (simp add: rl_Allow_eq st rl'_def)
  have c: "bk_admitted oor rl' ts x = bk_admitted oor rl ts x" "bk_step oor rl' t x = bk_step oor rl t x" for ts t x
    by (rule bk_admitted_cong) (simp_all add: rl'_def bk_step_def bk_refill_def Let_def)
  show ?case
  proof (cases "j = ip")
    case True
    then have "fst (rl_bucket t rl' ip) = b" for t by (simp add: rl_bucket_def rl'_def)
    then show ?thesis using True q al st c Cons.IH [of rl']
      by (simp add: admitted_Cons times_of_def split: list.splits)
  next
    case False
    then have "fst (rl_bucket t rl' ip) = fst (rl_bucket t rl ip)" for t
      by (simp add: rl_bucket_def rl'_def Let_def split: option.splits)
    then show ?thesis using False q al c Cons.IH [of rl']
      by (simp add: admitted_Cons times_of_def split: list.splits)
  qed
qed

section \<open>Requests and cleanups\<close>

text \<open>What happens to a limiter whose cleanup runs with \<open>interval\<close>: the requests that are admitted
  of an address, and how often its bucket is evicted.\<close>

datatype 'r limiter_event = Arrives timestamp 'r | CleansUp timestamp

fun event_time :: "'r limiter_event \<Rightarrow> timestamp" where
  "event_time (Arrives now r) = now" | "event_time (CleansUp now) = now"

fun traffic :: "(float64 \<Rightarrow> int64) \<Rightarrow> duration \<Rightarrow> string \<Rightarrow> string limiter_event list \<Rightarrow> rate_limiter \<Rightarrow> nat \<times> nat" where
  "traffic oor interval ip [] rl = (0, 0)"
| "traffic oor interval ip (Arrives now j # evs) rl =
     (let (ok, rl) = rl_Allow oor now rl j; (a, e) = traffic oor interval ip evs rl in (of_bool (j = ip \<and> ok) + a, e))"
| "traffic oor interval ip (CleansUp now # evs) rl =
     (let rl' = StartCleanup interval [CleanupTick now] rl; (a, e) = traffic oor interval ip evs rl'
      in (a, of_bool (rl_buckets rl ip \<noteq> None \<and> rl_buckets rl' ip = None) + e))"

text \<open>The bucket of the address, or the one that the next request, at \<open>now\<close> or later, will make.\<close>

definition bucket_at :: "rate_limiter \<Rightarrow> string \<Rightarrow> timestamp \<Rightarrow> bucket" where
  "bucket_at rl ip now = (case rl_buckets rl ip of None \<Rightarrow> \<lparr>bk_tokens = rl_burst rl, bk_lastRefill = now\<rparr> | Some b \<Rightarrow> b)"

definition held :: "rate_limiter \<Rightarrow> timestamp \<Rightarrow> bucket \<Rightarrow> rat" where
  "held rl end b = of_int (sint (bk_tokens b)) + accrual (rl_rate rl) (end - bk_lastRefill b)"

definition rl_ok :: "rate_limiter \<Rightarrow> string \<Rightarrow> timestamp \<Rightarrow> bool" where
  "rl_ok rl ip now \<longleftrightarrow> 0 \<le> rl_rate rl \<and> 0 \<le> sint (rl_burst rl) \<and> sint (rl_burst rl) \<le> 2 ^ 62 \<and>
     bk_inv rl (bucket_at rl ip now) \<and> bk_lastRefill (bucket_at rl ip now) \<le> now"

lemma bk_step_bound:
  assumes "bk_inv rl b" and "bk_lastRefill b \<le> now" and "now \<le> end" and "0 \<le> rl_rate rl" and "sint (rl_burst rl) \<le> 2 ^ 62"
    and "accrual (rl_rate rl) (end - bk_lastRefill b) \<le> 2 ^ 61" and "bk_step oor rl now b = (ok, b')"
  shows "bk_inv rl b'" and "bk_lastRefill b' = now" and "of_bool ok + held rl end b' \<le> held rl end b"
proof -
  let ?b = "bk_refill oor rl now b" and ?r = "rl_rate rl"
  have "accrual ?r (now - bk_lastRefill b) \<le> 2 ^ 61"
    using assms(3) by (intro order_trans [OF accrual_mono [OF assms(4)] assms(6)]) simp
  note f = bk_refill_bound [OF assms(1,2,4,5) this, of oor]
  have t: "sint (bk_tokens b') + of_bool ok = sint (bk_tokens ?b)" "0 \<le> sint (bk_tokens b')"
    using bk_take_sint [of ?b ok b'] f(1) assms(7) by (auto simp: bk_inv_def bk_step_def)
  show last: "bk_lastRefill b' = now" using bk_take_sint [of ?b ok b'] f(1,2) assms(7) by (auto simp: bk_inv_def bk_step_def)
  show "bk_inv rl b'" using t f(1) by (cases ok) (auto simp: bk_inv_def)
  have "accrual ?r (end - bk_lastRefill b) = accrual ?r (now - bk_lastRefill b) + accrual ?r (end - now)"
    using accrual_add [of ?r "now - bk_lastRefill b" "end - now"] by simp
  moreover have "of_int (sint (bk_tokens b')) + of_bool ok = (of_int (sint (bk_tokens ?b)) :: rat)"
    using t(1) by (metis of_int_add of_int_of_bool)
  ultimately show "of_bool ok + held rl end b' \<le> held rl end b" using f(3) last by (simp add: held_def)
qed

lemma held_fresh:
  assumes "0 \<le> rl_rate rl" and "t \<le> now"
  shows "held rl end (bucket_at rl ip now) \<le> held rl end (bucket_at rl ip t)"
    and "bk_lastRefill (bucket_at rl ip t) \<le> bk_lastRefill (bucket_at rl ip now)"
  using accrual_mono [OF assms(1), of "end - now" "end - t"] assms(2) by (auto simp: held_def bucket_at_def split: option.splits)

lemma rl_ok_later: "rl_ok rl ip t \<Longrightarrow> t \<le> now \<Longrightarrow> rl_ok rl ip now"
  by (auto simp: rl_ok_def bucket_at_def bk_inv_def split: option.splits)

lemma traffic_Allow:
  assumes "rl_ok rl ip now" and "now \<le> end" and "accrual (rl_rate rl) (end - bk_lastRefill (bucket_at rl ip now)) \<le> 2 ^ 61"
    and "rl_Allow oor now rl j = (ok, rl')"
  shows "rl_ok rl' ip now" and "of_bool (j = ip \<and> ok) + held rl' end (bucket_at rl' ip now) \<le> held rl end (bucket_at rl ip now)"
    and "bk_lastRefill (bucket_at rl ip now) \<le> bk_lastRefill (bucket_at rl' ip now)"
    and "rl_rate rl' = rl_rate rl" "rl_burst rl' = rl_burst rl"
proof -
  let ?b = "bucket_at rl j now"
  obtain b where st: "bk_step oor rl now ?b = (ok, b)" and rl': "rl' = rl\<lparr>rl_buckets := (rl_buckets rl)(j \<mapsto> b)\<rparr>"
    using assms(4) by (auto simp: rl_Allow_eq rl_bucket_def bucket_at_def Let_def split: option.splits prod.splits)
  show "rl_rate rl' = rl_rate rl" "rl_burst rl' = rl_burst rl" using rl' by simp_all
  have k: "bk_inv rl' x = bk_inv rl x" "held rl' end x = held rl end x" for x using rl' by (simp_all add: bk_inv_def held_def)
  have "rl_ok rl' ip now \<and> of_bool (j = ip \<and> ok) + held rl' end (bucket_at rl' ip now) \<le> held rl end (bucket_at rl ip now) \<and>
    bk_lastRefill (bucket_at rl ip now) \<le> bk_lastRefill (bucket_at rl' ip now)"
  proof (cases "j = ip")
    case True
    then have "bucket_at rl' ip now = b" using rl' by (simp add: bucket_at_def)
    then show ?thesis
      using bk_step_bound [of rl ?b now "end" oor ok b] assms(1-3) st True k rl' by (simp add: rl_ok_def)
  next
    case False
    then have "bucket_at rl' ip now = bucket_at rl ip now" using rl' by (simp add: bucket_at_def split: option.split)
    then show ?thesis using assms(1) False k rl' by (simp add: rl_ok_def)
  qed
  then show "rl_ok rl' ip now" "of_bool (j = ip \<and> ok) + held rl' end (bucket_at rl' ip now) \<le> held rl end (bucket_at rl ip now)"
    "bk_lastRefill (bucket_at rl ip now) \<le> bk_lastRefill (bucket_at rl' ip now)" by blast+
qed

text \<open>An eviction gives the address a full bucket, and happens no sooner than \<open>interval\<close> after its last request.\<close>

lemma traffic_evict:
  assumes "rl_ok rl ip now" and "now \<le> end" and "rl' = rl_evict (now - interval) rl"
    and "evicted = of_bool (rl_buckets rl ip \<noteq> None \<and> rl_buckets rl' ip = None)"
  shows "rl_ok rl' ip now" and "held rl' end (bucket_at rl' ip now) \<le> held rl end (bucket_at rl ip now) + of_nat evicted * of_int (sint (rl_burst rl))"
    and "bk_lastRefill (bucket_at rl ip now) + interval * int evicted \<le> bk_lastRefill (bucket_at rl' ip now)"
    and "rl_rate rl' = rl_rate rl" "rl_burst rl' = rl_burst rl"
proof -
  have "0 \<le> accrual (rl_rate rl) (end - bk_lastRefill b) - accrual (rl_rate rl) (end - now)" if "bk_lastRefill b \<le> now" for b
    using accrual_mono [of "rl_rate rl" "end - now" "end - bk_lastRefill b"] assms(1) that by (simp add: rl_ok_def)
  then show "held rl' end (bucket_at rl' ip now) \<le> held rl end (bucket_at rl ip now) + of_nat evicted * of_int (sint (rl_burst rl))"
    using assms by (fastforce simp: rl_evict_def held_def bucket_at_def rl_ok_def bk_inv_def split: option.splits)
qed (use assms in \<open>auto simp: rl_evict_def bucket_at_def rl_ok_def bk_inv_def split: option.splits if_splits\<close>)

lemma traffic_bound:
  assumes "rl_ok rl ip t" and "sorted (t # map event_time evs)" and "\<forall>ev\<in>set evs. event_time ev \<le> end" and "t \<le> end"
    and "accrual (rl_rate rl) (end - bk_lastRefill (bucket_at rl ip t)) \<le> 2 ^ 61" and "traffic oor interval ip evs rl = (a, e)"
  shows "of_nat a \<le> of_nat e * of_int (sint (rl_burst rl)) + held rl end (bucket_at rl ip t) \<and>
    interval * int e \<le> end - bk_lastRefill (bucket_at rl ip t)"
  using assms
proof (induction evs arbitrary: rl t a e)
  case Nil
  then show ?case using accrual_nonneg [of "rl_rate rl" "end - bk_lastRefill (bucket_at rl ip t)"]
    by (simp add: held_def rl_ok_def bk_inv_def)
next
  case (Cons ev evs)
  let ?now = "event_time ev"
  have now: "t \<le> ?now" "?now \<le> end" using Cons.prems(2,3) by auto
  have ok: "rl_ok rl ip ?now" using rl_ok_later [OF Cons.prems(1) now(1)] .
  have r: "0 \<le> rl_rate rl" using Cons.prems(1) by (simp add: rl_ok_def)
  note fr = held_fresh(1) [OF r now(1), of "end" ip] held_fresh(2) [OF r now(1), of ip]
  have acc: "accrual (rl_rate rl) (end - bk_lastRefill b) \<le> 2 ^ 61"
    if "bk_lastRefill (bucket_at rl ip ?now) \<le> bk_lastRefill b" for b
    using that fr(2) by (intro order_trans [OF accrual_mono [OF r] Cons.prems(5)]) simp
  show ?case
  proof (cases ev)
    case (Arrives n j)
    obtain ok' rl' a' where al: "rl_Allow oor n rl j = (ok', rl')" and tr: "traffic oor interval ip evs rl' = (a', e)"
      and a: "a = of_bool (j = ip \<and> ok') + a'"
      using Cons.prems(6) Arrives by (auto split: prod.splits)
    note al' = traffic_Allow [OF ok now(2) acc [OF order_refl], of oor j ok' rl']
    have "of_nat a' \<le> of_nat e * of_int (sint (rl_burst rl')) + held rl' end (bucket_at rl' ip ?now) \<and>
      interval * int e \<le> end - bk_lastRefill (bucket_at rl' ip ?now)"
      using al al' acc [of "bucket_at rl' ip ?now"] Cons.prems(2,3) now(2) Arrives tr by (intro Cons.IH) simp_all
    then show ?thesis using al al' Arrives a fr by auto
  next
    case (CleansUp n)
    let ?rl = "rl_evict (n - interval) rl"
    let ?k = "of_bool (rl_buckets rl ip \<noteq> None \<and> rl_buckets ?rl ip = None) :: nat"
    obtain e' where tr: "traffic oor interval ip evs ?rl = (a, e')" and e: "e = ?k + e'"
      using Cons.prems(6) CleansUp by (auto simp: Let_def split: prod.splits)
    have rl: "?rl = rl_evict (?now - interval) rl" using CleansUp by simp
    note ev = traffic_evict [OF ok now(2) rl refl]
    have "bk_lastRefill (bucket_at rl ip ?now) \<le> bk_lastRefill (bucket_at ?rl ip ?now)"
      using ok by (auto simp: rl_ok_def bucket_at_def rl_evict_def split: option.splits)
    from acc [OF this]
    have "of_nat a \<le> of_nat e' * of_int (sint (rl_burst ?rl)) + held ?rl end (bucket_at ?rl ip ?now) \<and>
      interval * int e' \<le> end - bk_lastRefill (bucket_at ?rl ip ?now)"
      using ev Cons.prems(2,3) now(2) tr by (intro Cons.IH) simp_all
    then show ?thesis using ev fr e by (auto simp: algebra_simps)
  qed
qed

section \<open>Properties of sequential use\<close>

text \<open>C37: a steady client can be starved. The time stamp of the last refill is reset by every
  request, also when the refill rounds down to nothing: if consecutive requests of an address
  are always closer together than one token takes to accrue, the address is admitted at most
  \<open>burst\<close> times, however long it goes on.\<close>

theorem RateLimiter_starvation:
  assumes "0 \<le> rate" and "0 \<le> sint burst" and "sint burst \<le> 2 ^ 62"
    and "successively (\<lambda>s t. s \<le> t \<and> of_int (t - s) / of_int second * rate * (1 + 1 / 2 ^ 51) < 1)
      (map fst (filter (\<lambda>q. snd q = ip) reqs))"
  shows "int (admitted oor ip reqs (NewRateLimiter rate burst)) \<le> sint burst"
proof (cases "times_of ip reqs")
  case Nil
  then show ?thesis using assms(2) by (simp add: admitted_bucket)
next
  case (Cons t ts)
  let ?rl = "NewRateLimiter rate burst" and ?b = "\<lparr>bk_tokens = burst, bk_lastRefill = t\<rparr>"
  have "successively (\<lambda>s t. s \<le> t \<and> accrual rate (t - s) < 1) (t # t # ts)"
    using assms(4) Cons by (simp add: times_of_def accrual_def)
  then have "int (bk_admitted oor ?rl (t # ts) ?b) \<le> sint burst"
    using bk_admitted_starved [of ?rl ?b "t # ts" oor] assms(1-3)
    by (simp add: NewRateLimiter_def bk_inv_def)
  moreover have "fst (rl_bucket t ?rl ip) = ?b" by (simp add: NewRateLimiter_def rl_bucket_def Let_def)
  ultimately show ?thesis using Cons by (simp add: admitted_bucket)
qed

text \<open>One address asking every 99 ms for ten minutes, with ten tokens per second.\<close>

definition steady_requests :: "(timestamp \<times> string) list" where
  "steady_requests = map (\<lambda>n. (99 * millisecond * int n, ''10.0.0.1'')) [0..<6000]"

lemma successively_map_upt: "(\<And>n. P (f n) (f (Suc n))) \<Longrightarrow> successively P (map f [i..<j])"
proof (induction j)
  case (Suc j)
  show ?case
  proof (cases "i < j")
    case True
    then obtain k where "j = Suc k" by (cases j) auto
    then show ?thesis using Suc True by (auto simp: successively_append_iff last_map)
  qed (use Suc in auto)
qed simp

theorem RateLimiter_starvation_witness:
  "int (admitted (\<lambda>_. 0) ''10.0.0.1'' steady_requests (NewRateLimiter 10 5)) \<le> 5"
proof -
  have "filter (\<lambda>q. snd q = ''10.0.0.1'') steady_requests = steady_requests"
    by (auto simp: steady_requests_def)
  then have "successively (\<lambda>s t. s \<le> t \<and> of_int (t - s) / of_int second * 10 * (1 + 1 / 2 ^ 51 :: rat) < 1)
      (map fst (filter (\<lambda>q. snd q = ''10.0.0.1'') steady_requests))"
    unfolding steady_requests_def map_map comp_def
    by (simp only: map_map comp_def) (rule successively_map_upt, simp)
  from RateLimiter_starvation [OF _ _ _ this, of 5 "\<lambda>_. 0"] show ?thesis by simp
qed

end
