(* ===== verification/BucketConcurrency.thy ===== *)
theory BucketConcurrency
  imports RateLimiter
begin

text \<open>
  Concurrent calls of \<open>Allow\<close> (\<open>internal/middleware/ratelimit.go\<close>) of any addresses, and sweeps of the
  cleanup: any interleaving of their lock and atomic operations and readings of the clock. The calls
  execute a bounded number of operations and never deadlock, an undisturbed call does what the sequential model does, and the
  counts stay within the burst; the refill, a load and a store, can overwrite a decrement.
\<close>

section \<open>The operations\<close>

text \<open>
  What the calls share: \<open>rl.mu\<close> with the goroutine that holds it, \<open>rl.buckets\<close> with pointers to
  buckets, and the buckets.
\<close>

record rl_shared =
  sh_mu :: "nat option"
  sh_buckets :: "(string \<times> nat) list"
  sh_heap :: "bucket list"

text \<open>
  The program counters: those of \<open>Allow(ip)\<close>, first in \<open>rl.bucket(ip)\<close> (lock, look up or insert,
  unlock), then with the bucket it was given (read the clock, swap, load, store and the loop), each with the
  values the call holds: the time it read, the refill it computed, the new value it will store, the
  count it will compare with. And those of a sweep: lock, look at one bucket after the other, unlock.
\<close>

datatype rl_pc =
    RIdle
  | RLock string | RLookup string | RUnlock nat
  | RNow nat | RSwap nat timestamp | RLoad nat int64 | RStore nat int64 | RLoadCAS nat | RCAS nat int64
  | KLock timestamp | KSweep timestamp "string list"

datatype rl_obs = RTau | RAdmit | RReject | RSwept

text \<open>
  One operation of goroutine \<open>t\<close>; \<open>None\<close> while it waits for the lock. \<open>now\<close> is what it reads from the clock,
  \<open>order\<close> the order in which the sweep meets the entries of the map.
\<close>

fun rl_thread ::
  "(float64 \<Rightarrow> int64) \<Rightarrow> rate_limiter \<Rightarrow> nat \<Rightarrow> timestamp \<Rightarrow> string list \<Rightarrow> rl_shared \<Rightarrow> rl_pc \<Rightarrow>
   (rl_shared \<times> rl_pc \<times> rl_obs) option" where
  "rl_thread oor rl t now order sh RIdle = None"
| "rl_thread oor rl t now order sh (RLock ip) =
     (if sh_mu sh = None then Some (sh\<lparr>sh_mu := Some t\<rparr>, RLookup ip, RTau) else None)"
| "rl_thread oor rl t now order sh (RLookup ip) =
     (case map_of (sh_buckets sh) ip of
        Some p \<Rightarrow> Some (sh, RUnlock p, RTau)
      | None \<Rightarrow>
          (let p = length (sh_heap sh)
           in Some (sh\<lparr>sh_heap := sh_heap sh @ [\<lparr>bk_tokens = rl_burst rl, bk_lastRefill = now\<rparr>],
                       sh_buckets := (ip, p) # sh_buckets sh\<rparr>, RUnlock p, RTau)))"
| "rl_thread oor rl t now order sh (RUnlock p) = Some (sh\<lparr>sh_mu := None\<rparr>, RNow p, RTau)"
| "rl_thread oor rl t now order sh (RNow p) = Some (sh, RSwap p now, RTau)"
| "rl_thread oor rl t now order sh (RSwap p tm) =
     (let b = sh_heap sh ! p; refill = refill_amount oor (rl_rate rl) (tm - bk_lastRefill b)
      in Some (sh\<lparr>sh_heap := (sh_heap sh)[p := b\<lparr>bk_lastRefill := tm\<rparr>]\<rparr>,
               if sint refill > 0 then RLoad p refill else RLoadCAS p, RTau))"
| "rl_thread oor rl t now order sh (RLoad p refill) =
     Some (sh, RStore p (refilled (rl_burst rl) (bk_tokens (sh_heap sh ! p)) refill), RTau)"
| "rl_thread oor rl t now order sh (RStore p v) =
     Some (sh\<lparr>sh_heap := (sh_heap sh)[p := (sh_heap sh ! p)\<lparr>bk_tokens := v\<rparr>]\<rparr>, RLoadCAS p, RTau)"
| "rl_thread oor rl t now order sh (RLoadCAS p) =
     (let cur = bk_tokens (sh_heap sh ! p)
      in if sint cur \<le> 0 then Some (sh, RIdle, RReject) else Some (sh, RCAS p cur, RTau))"
| "rl_thread oor rl t now order sh (RCAS p cur) =
     (if bk_tokens (sh_heap sh ! p) = cur
      then Some (sh\<lparr>sh_heap := (sh_heap sh)[p := (sh_heap sh ! p)\<lparr>bk_tokens := cur - 1\<rparr>]\<rparr>, RIdle, RAdmit)
      else Some (sh, RLoadCAS p, RTau))"
| "rl_thread oor rl t now order sh (KLock cutoff) =
     (if sh_mu sh = None \<and> set order = fst ` set (sh_buckets sh) \<and> distinct order
      then Some (sh\<lparr>sh_mu := Some t\<rparr>, KSweep cutoff order, RSwept) else None)"
| "rl_thread oor rl t now order sh (KSweep cutoff []) = Some (sh\<lparr>sh_mu := None\<rparr>, RIdle, RSwept)"
| "rl_thread oor rl t now order sh (KSweep cutoff (ip # ips)) =
     (case map_of (sh_buckets sh) ip of
        None \<Rightarrow> Some (sh, KSweep cutoff ips, RSwept)
      | Some p \<Rightarrow>
          Some (if bk_lastRefill (sh_heap sh ! p) < cutoff
                then sh\<lparr>sh_buckets := filter (\<lambda>e. fst e \<noteq> ip) (sh_buckets sh)\<rparr> else sh, KSweep cutoff ips, RSwept))"

record rl_state =
  rs_shared :: rl_shared
  rs_pc :: "nat \<Rightarrow> rl_pc"

text \<open>A goroutine begins a call, a ticker begins a sweep, or one of them makes a step.\<close>

datatype rl_label = RStart nat string | RTick nat timestamp | RStep nat timestamp "string list" rl_obs

inductive rl_cstep :: "(float64 \<Rightarrow> int64) \<Rightarrow> rate_limiter \<Rightarrow> rl_state \<Rightarrow> rl_label \<Rightarrow> rl_state \<Rightarrow> bool" for oor rl where
  rl_start: "rs_pc s t = RIdle \<Longrightarrow>
     rl_cstep oor rl s (RStart t ip) (s\<lparr>rs_pc := (rs_pc s)(t := RLock ip)\<rparr>)"
| rl_tick: "rs_pc s t = RIdle \<Longrightarrow>
     rl_cstep oor rl s (RTick t cutoff) (s\<lparr>rs_pc := (rs_pc s)(t := KLock cutoff)\<rparr>)"
| rl_step: "rl_thread oor rl t now order (rs_shared s) (rs_pc s t) = Some (sh, p, ob) \<Longrightarrow>
     rl_cstep oor rl s (RStep t now order ob) (s\<lparr>rs_shared := sh, rs_pc := (rs_pc s)(t := p)\<rparr>)"

definition rl_cinit :: rl_state where
  "rl_cinit = \<lparr>rs_shared = \<lparr>sh_mu = None, sh_buckets = [], sh_heap = []\<rparr>, rs_pc = (\<lambda>_. RIdle)\<rparr>"

section \<open>Invariants\<close>

text \<open>
  Every bucket somebody holds exists; no count in a bucket, about to be stored or compared with exceeds
  the burst; and the goroutine that holds the lock is the one that is between its lock and unlock.
\<close>

fun pc_ok :: "int64 \<Rightarrow> nat \<Rightarrow> rl_pc \<Rightarrow> bool" where
  "pc_ok burst n (RUnlock p) \<longleftrightarrow> p < n"
| "pc_ok burst n (RNow p) \<longleftrightarrow> p < n"
| "pc_ok burst n (RSwap p tm) \<longleftrightarrow> p < n"
| "pc_ok burst n (RLoad p r) \<longleftrightarrow> p < n"
| "pc_ok burst n (RStore p v) \<longleftrightarrow> p < n \<and> sint v \<le> sint burst"
| "pc_ok burst n (RLoadCAS p) \<longleftrightarrow> p < n"
| "pc_ok burst n (RCAS p v) \<longleftrightarrow> p < n \<and> 0 < sint v \<and> sint v \<le> sint burst"
| "pc_ok burst n _ \<longleftrightarrow> True"

fun holds_mu :: "rl_pc \<Rightarrow> bool" where
  "holds_mu (RLookup ip) = True"
| "holds_mu (RUnlock p) = True"
| "holds_mu (KSweep cutoff ips) = True"
| "holds_mu _ = False"

definition shared_ok :: "int64 \<Rightarrow> rl_shared \<Rightarrow> bool" where
  "shared_ok burst sh \<longleftrightarrow> (\<forall>b\<in>set (sh_heap sh). sint (bk_tokens b) \<le> sint burst) \<and>
     (\<forall>e\<in>set (sh_buckets sh). snd e < length (sh_heap sh)) \<and>
     distinct (map fst (sh_buckets sh)) \<and> distinct (map snd (sh_buckets sh))"

definition rl_cinv :: "rate_limiter \<Rightarrow> rl_state \<Rightarrow> bool" where
  "rl_cinv rl s \<longleftrightarrow> shared_ok (rl_burst rl) (rs_shared s) \<and>
     (\<forall>t. pc_ok (rl_burst rl) (length (sh_heap (rs_shared s))) (rs_pc s t)) \<and>
     (\<forall>t. sh_mu (rs_shared s) = Some t \<longleftrightarrow> holds_mu (rs_pc s t))"

lemma pc_ok_mono: "pc_ok burst n p \<Longrightarrow> n \<le> m \<Longrightarrow> pc_ok burst m p"
  by (cases p) auto

lemma refilled_le: "sint (refilled burst cur r) \<le> sint burst"
  by (simp add: refilled_def Let_def)

lemma shared_ok_update:
  "shared_ok burst sh \<Longrightarrow> sint (bk_tokens b) \<le> sint burst \<Longrightarrow> shared_ok burst (sh\<lparr>sh_heap := (sh_heap sh)[p := b]\<rparr>)"
  by (auto simp: shared_ok_def dest: set_update_subset_insert [THEN subsetD])

lemma shared_ok_nth: "shared_ok burst sh \<Longrightarrow> p < length (sh_heap sh) \<Longrightarrow> sint (bk_tokens (sh_heap sh ! p)) \<le> sint burst"
  by (simp add: shared_ok_def)

lemma shared_ok_insert:
  assumes "shared_ok burst sh" and "map_of (sh_buckets sh) ip = None"
  shows "shared_ok burst (sh\<lparr>sh_heap := sh_heap sh @ [\<lparr>bk_tokens = burst, bk_lastRefill = now\<rparr>],
    sh_buckets := (ip, length (sh_heap sh)) # sh_buckets sh\<rparr>)"
proof -
  have "ip \<notin> fst ` set (sh_buckets sh)" using assms(2) by (simp add: map_of_eq_None_iff)
  moreover have "length (sh_heap sh) \<notin> snd ` set (sh_buckets sh)" using assms(1) by (auto simp: shared_ok_def)
  ultimately show ?thesis using assms(1) by (auto simp: shared_ok_def)
qed

lemma shared_ok_filter: "shared_ok burst sh \<Longrightarrow> shared_ok burst (sh\<lparr>sh_buckets := filter P (sh_buckets sh)\<rparr>)"
  by (auto simp: shared_ok_def distinct_map_filter)

lemma shared_ok_mu [simp]: "shared_ok burst (sh\<lparr>sh_mu := m\<rparr>) = shared_ok burst sh"
  by (simp add: shared_ok_def)

lemma map_of_bounded: "shared_ok burst sh \<Longrightarrow> map_of (sh_buckets sh) ip = Some p \<Longrightarrow> p < length (sh_heap sh)"
  by (auto simp: shared_ok_def dest!: map_of_SomeD)

lemma rl_thread_ok:
  assumes "rl_thread oor rl t now order sh p = Some (sh', p', ob)" and "pc_ok (rl_burst rl) (length (sh_heap sh)) p"
    and "shared_ok (rl_burst rl) sh"
  shows "shared_ok (rl_burst rl) sh'" and "pc_ok (rl_burst rl) (length (sh_heap sh')) p'"
    and "length (sh_heap sh) \<le> length (sh_heap sh')"
proof -
  have "shared_ok (rl_burst rl) sh' \<and> pc_ok (rl_burst rl) (length (sh_heap sh')) p' \<and> length (sh_heap sh) \<le> length (sh_heap sh')"
  proof (cases p)
    case (RLookup ip)
    then show ?thesis using assms shared_ok_insert [OF assms(3)]
      by (auto simp: Let_def map_of_bounded split: option.splits)
  next
    case (RSwap q tm)
    then show ?thesis using assms by (auto simp: Let_def shared_ok_nth intro!: shared_ok_update)
  next
    case (RLoad q r)
    then show ?thesis using assms by (auto simp: refilled_le)
  next
    case (RStore q v)
    then show ?thesis using assms by (auto intro!: shared_ok_update)
  next
    case (RLoadCAS q)
    then show ?thesis using assms by (auto simp: Let_def shared_ok_nth split: if_splits)
  next
    case (RCAS q v)
    then show ?thesis using assms by (auto simp: sint_sub_one intro!: shared_ok_update split: if_splits)
  next
    case (KSweep cutoff ips)
    then show ?thesis using assms by (cases ips) (auto simp: shared_ok_filter split: option.splits)
  qed (use assms in \<open>auto split: if_splits\<close>)
  then show "shared_ok (rl_burst rl) sh'" and "pc_ok (rl_burst rl) (length (sh_heap sh')) p'"
    and "length (sh_heap sh) \<le> length (sh_heap sh')" by simp_all
qed

lemma rl_thread_mu:
  assumes "rl_thread oor rl t now order sh p = Some (sh', p', ob)" and "sh_mu sh = Some t \<longleftrightarrow> holds_mu p"
    and "u \<noteq> t" and "sh_mu sh = Some u \<longleftrightarrow> holds_mu q"
  shows "sh_mu sh' = Some t \<longleftrightarrow> holds_mu p'" and "sh_mu sh' = Some u \<longleftrightarrow> holds_mu q"
proof -
  have "(sh_mu sh' = Some t \<longleftrightarrow> holds_mu p') \<and> (sh_mu sh' = Some u \<longleftrightarrow> holds_mu q)"
  proof (cases p)
    case (KSweep cutoff ips)
    then show ?thesis using assms by (cases ips) (auto split: option.splits if_splits)
  qed (use assms in \<open>auto simp: Let_def split: if_splits option.splits\<close>)
  then show "sh_mu sh' = Some t \<longleftrightarrow> holds_mu p'" and "sh_mu sh' = Some u \<longleftrightarrow> holds_mu q" by simp_all
qed

lemma rl_cinv_step:
  assumes "rl_cinv rl s" and "rl_cstep oor rl s l s'"
  shows "rl_cinv rl s'"
  using assms(2)
proof cases
  case (rl_step t now order sh p ob)
  have ok: "shared_ok (rl_burst rl) (rs_shared s)" "\<And>u. pc_ok (rl_burst rl) (length (sh_heap (rs_shared s))) (rs_pc s u)"
    and mu: "\<And>u. sh_mu (rs_shared s) = Some u \<longleftrightarrow> holds_mu (rs_pc s u)"
    using assms(1) by (simp_all add: rl_cinv_def)
  note th = rl_thread_ok [OF rl_step(3) ok(2) ok(1)]
  have "pc_ok (rl_burst rl) (length (sh_heap sh)) (((rs_pc s)(t := p)) u)" for u
    using th(2) pc_ok_mono [OF ok(2) [of u] th(3)] by simp
  moreover have "sh_mu sh = Some u \<longleftrightarrow> holds_mu (((rs_pc s)(t := p)) u)" for u
    using rl_thread_mu [OF rl_step(3) mu _ mu, of "if u = t then Suc t else u"] by (cases "u = t") auto
  ultimately show ?thesis using th(1) by (simp add: rl_cinv_def rl_step(2))
qed (use assms(1) in \<open>auto simp: rl_cinv_def\<close>)

interpretation rlc: transition_system "\<lambda>s. s = rl_cinit" "rl_cstep oor rl" "rl_cinv rl" for oor rl
proof unfold_locales
  fix s assume "s = rl_cinit"
  then show "rl_cinv rl s" by (simp add: rl_cinv_def rl_cinit_def shared_ok_def)
qed (rule rl_cinv_step)

text \<open>In every interleaving of any number of calls and sweeps, the tokens of a bucket never exceed the
  burst, and the compare-and-swap decrements a positive count, so the count never wraps.\<close>

theorem RateLimiter_tokens_bounded:
  assumes "run (rl_cstep oor rl) rl_cinit ls s"
  shows "(\<forall>b\<in>set (sh_heap (rs_shared s)). sint (bk_tokens b) \<le> sint (rl_burst rl)) \<and>
    (rs_pc s t = RCAS p v \<longrightarrow> 0 < sint v \<and> sint (v - 1) = sint v - 1)"
proof -
  have "rl_cinv rl s" using rlc.reachable_invar [OF refl assms] .
  then have "shared_ok (rl_burst rl) (rs_shared s)" "pc_ok (rl_burst rl) (length (sh_heap (rs_shared s))) (rs_pc s t)"
    by (simp_all add: rl_cinv_def)
  then show ?thesis by (auto simp: sint_sub_one shared_ok_def)
qed

section \<open>Executing schedules\<close>

datatype rl_choice = Begin nat string | Go nat timestamp

fun rl_sched :: "(float64 \<Rightarrow> int64) \<Rightarrow> rate_limiter \<Rightarrow> rl_state \<Rightarrow> rl_choice \<Rightarrow> (rl_label \<times> rl_state) option" where
  "rl_sched oor rl s (Begin t ip) =
     (if rs_pc s t = RIdle then Some (RStart t ip, s\<lparr>rs_pc := (rs_pc s)(t := RLock ip)\<rparr>) else None)"
| "rl_sched oor rl s (Go t now) =
     (case rl_thread oor rl t now [] (rs_shared s) (rs_pc s t) of
        None \<Rightarrow> None
      | Some (sh, p, ob) \<Rightarrow> Some (RStep t now [] ob, s\<lparr>rs_shared := sh, rs_pc := (rs_pc s)(t := p)\<rparr>))"

lemma rl_sched_step: "rl_sched oor rl s c = Some (l, s') \<Longrightarrow> rl_cstep oor rl s l s'"
  by (cases c) (auto intro: rl_cstep.intros split: option.splits if_splits)

interpretation rsched: scheduler "rl_cstep oor rl" "rl_sched oor rl" for oor rl
  by unfold_locales (rule rl_sched_step)

theorem RateLimiter_tokens_bounded_witness:
  "\<exists>ls s. run (rl_cstep (\<lambda>_. 0) (NewRateLimiter 1 1)) rl_cinit ls s \<and>
     length (sh_heap (rs_shared s)) = 1 \<and> (\<forall>b\<in>set (sh_heap (rs_shared s)). sint (bk_tokens b) \<le> sint (1 :: int64))"
proof -
  let ?rl = "NewRateLimiter 1 1"
  obtain ls s where ex: "exec (rl_sched (\<lambda>_. 0) ?rl) rl_cinit [Begin 0 ''a'', Go 0 0, Go 0 0] = Some (ls, s)"
    and s: "length (sh_heap (rs_shared s)) = 1"
    by (simp add: rl_cinit_def)
  note r = rsched.exec_run [OF ex]
  have "\<forall>b\<in>set (sh_heap (rs_shared s)). sint (bk_tokens b) \<le> sint (1 :: int64)"
    using RateLimiter_tokens_bounded [OF r] by (simp add: NewRateLimiter_def)
  with r s show ?thesis by blast
qed

lemma refill_one_second: "refill_amount oor 1 second = 1"
proof -
  have "fround 1000000000 = 1000000000" "fround 1 = 1"
    using fround_of_int [of second] fround_of_int [of 1] by simp_all
  then show ?thesis by (simp add: refill_amount_def float_to_int64_def)
qed

text \<open>Concurrent calls can exceed the limit. The refill loads the count and stores the new
  value in separate atomic operations, so it can overwrite a decrement made in between: with
  a burst of two and one token per second there is an interleaving of four calls of one address, with
  all readings of the clock between 0 and one second, in which all four are admitted, while one
  after the other at most three are.\<close>

definition lost_update_schedule :: "rl_choice list" where
  "lost_update_schedule =
     Begin 0 ''a'' # replicate 7 (Go 0 0) @
     Begin 1 ''a'' # replicate 6 (Go 1 second) @
     Begin 2 ''a'' # replicate 7 (Go 2 second) @
     replicate 3 (Go 1 second) @
     Begin 3 ''a'' # replicate 7 (Go 3 second)"

theorem RateLimiter_lost_update:
  "\<exists>ls s. run (rl_cstep oor (NewRateLimiter 1 2)) rl_cinit ls s \<and>
     (\<forall>t now order ob. RStep t now order ob \<in> set ls \<longrightarrow> 0 \<le> now \<and> now \<le> second) \<and>
     length (filter (\<lambda>l. \<exists>t now order. l = RStep t now order RAdmit) ls) = 4"
proof -
  let ?rl = "NewRateLimiter 1 2"
  have zero: "\<not> 0 < sint (refill_amount oor 1 0)"
    using refill_bounds(2) [of 0 1 oor] by (simp add: accrual_def)
  obtain ls s where ex: "exec (rl_sched oor ?rl) rl_cinit lost_update_schedule = Some (ls, s)"
    and ls: "list_all (\<lambda>l. case l of RStep t now order ob \<Rightarrow> 0 \<le> now \<and> now \<le> second | _ \<Rightarrow> True) ls"
      "length (filter (\<lambda>l. \<exists>t now order. l = RStep t now order RAdmit) ls) = 4"
    by (simp add: lost_update_schedule_def rl_cinit_def NewRateLimiter_def refill_one_second zero refilled_def numeral_eq_Suc)
  then show ?thesis using rsched.exec_run [OF ex] by (intro exI [of _ ls] exI [of _ s]) (fastforce simp: list_all_iff)
qed

section \<open>An undisturbed call\<close>

text \<open>The limiter of the sequential model that the shared state represents.\<close>

definition table_of :: "rl_shared \<Rightarrow> string \<rightharpoonup> bucket" where
  "table_of sh ip = map_option (\<lambda>p. sh_heap sh ! p) (map_of (sh_buckets sh) ip)"

definition limiter_of :: "rate_limiter \<Rightarrow> rl_shared \<Rightarrow> rate_limiter" where
  "limiter_of rl sh = rl\<lparr>rl_buckets := table_of sh\<rparr>"

lemma table_of_mu [simp]: "table_of (sh\<lparr>sh_mu := m\<rparr>) = table_of sh"
  by (simp add: table_of_def fun_eq_iff)

lemma bk_refill_limiter [simp]: "bk_refill oor (limiter_of rl sh) now b = bk_refill oor rl now b"
  by (simp add: bk_refill_def limiter_of_def Let_def)

abbreviation goes :: "nat \<Rightarrow> nat \<Rightarrow> timestamp \<Rightarrow> rl_choice list" where
  "goes k t now \<equiv> replicate k (Go t now)"

text \<open>The operations of \<open>bucket(ip)\<close>, the others standing still: the entry exists and its bucket is that of the sequential method.\<close>

lemma bucket_undisturbed:
  assumes "rs_pc s t = RLock ip" and "sh_mu (rs_shared s) = None" and "shared_ok (rl_burst rl) (rs_shared s)"
  shows "\<exists>ls sh p. exec (rl_sched oor rl) s (goes 4 t now) =
      Some (ls, s\<lparr>rs_shared := sh, rs_pc := (rs_pc s)(t := RSwap p now)\<rparr>) \<and> sh_mu sh = None \<and>
    shared_ok (rl_burst rl) sh \<and> map_of (sh_buckets sh) ip = Some p \<and>
    rl_bucket now (limiter_of rl (rs_shared s)) ip = (sh_heap sh ! p, limiter_of rl sh)"
proof (cases "map_of (sh_buckets (rs_shared s)) ip")
  case (Some p)
  then show ?thesis using assms
    by (intro exI [of _ "[RStep t now [] RTau, RStep t now [] RTau, RStep t now [] RTau, RStep t now [] RTau]"]
        exI [of _ "rs_shared s\<lparr>sh_mu := None\<rparr>"] exI [of _ p]) (simp add: numeral_eq_Suc rl_bucket_def limiter_of_def table_of_def [of "rs_shared s"])
next
  case None
  let ?p = "length (sh_heap (rs_shared s))" and ?b = "\<lparr>bk_tokens = rl_burst rl, bk_lastRefill = now\<rparr>"
  let ?sh = "rs_shared s\<lparr>sh_mu := None, sh_heap := sh_heap (rs_shared s) @ [?b], sh_buckets := (ip, ?p) # sh_buckets (rs_shared s)\<rparr>"
  have "table_of ?sh i = ((table_of (rs_shared s))(ip \<mapsto> ?b)) i" for i
    using map_of_bounded [OF assms(3), of i] by (cases "map_of (sh_buckets (rs_shared s)) i") (auto simp: table_of_def nth_append)
  then have lim: "table_of ?sh = (table_of (rs_shared s))(ip \<mapsto> ?b)" by (rule ext)
  have ok: "shared_ok (rl_burst rl) ?sh" using shared_ok_insert [OF assms(3) None, of now] by (simp add: shared_ok_def)
  show ?thesis using assms None lim ok
    by (intro exI [of _ "[RStep t now [] RTau, RStep t now [] RTau, RStep t now [] RTau, RStep t now [] RTau]"]
        exI [of _ ?sh] exI [of _ ?p])
      (simp add: numeral_eq_Suc rl_bucket_def limiter_of_def table_of_def [of "rs_shared s" ip] Let_def)
qed

text \<open>The operations on the bucket.\<close>

lemma refill_undisturbed:
  assumes "rs_pc s t = RSwap p now" and "p < length (sh_heap (rs_shared s))"
  shows "\<exists>k ls. exec (rl_sched oor rl) s (goes k t now) =
      Some (ls, s\<lparr>rs_shared := (rs_shared s)\<lparr>sh_heap := (sh_heap (rs_shared s))[p := bk_refill oor rl now (sh_heap (rs_shared s) ! p)]\<rparr>,
                  rs_pc := (rs_pc s)(t := RLoadCAS p)\<rparr>) \<and> k \<le> 3"
proof (cases "0 < sint (refill_amount oor (rl_rate rl) (now - bk_lastRefill (sh_heap (rs_shared s) ! p)))")
  case True
  then show ?thesis using assms
    by (intro exI [of _ 3]) (simp add: bk_refill_def Let_def numeral_eq_Suc)
next
  case False
  then show ?thesis using assms by (intro exI [of _ 1]) (simp add: bk_refill_def Let_def)
qed

lemma take_undisturbed:
  assumes "rs_pc s t = RLoadCAS p" and "p < length (sh_heap (rs_shared s))"
  shows "\<exists>k ls. exec (rl_sched oor rl) s (goes k t now) =
      Some (ls, s\<lparr>rs_shared := (rs_shared s)\<lparr>sh_heap := (sh_heap (rs_shared s))[p := snd (bk_take (sh_heap (rs_shared s) ! p))]\<rparr>,
                  rs_pc := (rs_pc s)(t := RIdle)\<rparr>) \<and> k \<le> 2 \<and>
      ls \<noteq> [] \<and> (fst (bk_take (sh_heap (rs_shared s) ! p)) \<longleftrightarrow> last ls = RStep t now [] RAdmit)"
proof (cases "sint (bk_tokens (sh_heap (rs_shared s) ! p)) \<le> 0")
  case True
  then show ?thesis using assms by (intro exI [of _ 1]) (simp add: bk_take_def)
next
  case False
  then show ?thesis using assms by (intro exI [of _ 2]) (simp add: bk_take_def numeral_eq_Suc)
qed

lemma limiter_of_update:
  assumes "shared_ok burst sh" and "map_of (sh_buckets sh) ip = Some p"
  shows "limiter_of rl (sh\<lparr>sh_heap := (sh_heap sh)[p := b]\<rparr>) =
    (limiter_of rl sh)\<lparr>rl_buckets := (rl_buckets (limiter_of rl sh))(ip \<mapsto> b)\<rparr>"
proof -
  have inj: "inj_on snd (set (sh_buckets sh))" using assms(1) by (simp add: shared_ok_def distinct_map)
  have "q \<noteq> p" if "map_of (sh_buckets sh) i = Some q" "i \<noteq> ip" for i q
    using that inj_onD [OF inj, of "(i, q)" "(ip, p)"] map_of_SomeD [OF assms(2)] map_of_SomeD [OF that(1)] by auto
  then have "table_of (sh\<lparr>sh_heap := (sh_heap sh)[p := b]\<rparr>) i = ((table_of sh)(ip \<mapsto> b)) i" for i
    using map_of_bounded [OF assms] assms(2) by (cases "map_of (sh_buckets sh) i") (fastforce simp: table_of_def nth_list_update)+
  then show ?thesis by (simp add: limiter_of_def fun_eq_iff)
qed

text \<open>A call whose operations are not interleaved with others is the sequential \<open>Allow\<close>.\<close>

lemma Allow_undisturbed:
  assumes "rs_pc s t = RLock ip" and "sh_mu (rs_shared s) = None" and "shared_ok (rl_burst rl) (rs_shared s)"
  shows "\<exists>k ls s'. exec (rl_sched oor rl) s (goes k t now) = Some (ls, s') \<and> k \<le> 9 \<and>
    rs_pc s' = (rs_pc s)(t := RIdle) \<and> sh_mu (rs_shared s') = None \<and>
    rl_Allow oor now (limiter_of rl (rs_shared s)) ip =
      (last ls = RStep t now [] RAdmit, limiter_of rl (rs_shared s'))"
proof -
  obtain ls1 sh p where 1: "exec (rl_sched oor rl) s (goes 4 t now) =
      Some (ls1, s\<lparr>rs_shared := sh, rs_pc := (rs_pc s)(t := RSwap p now)\<rparr>)" "sh_mu sh = None" "shared_ok (rl_burst rl) sh"
    "map_of (sh_buckets sh) ip = Some p" "rl_bucket now (limiter_of rl (rs_shared s)) ip = (sh_heap sh ! p, limiter_of rl sh)"
    using bucket_undisturbed [OF assms, of oor now] by blast
  let ?s1 = "s\<lparr>rs_shared := sh, rs_pc := (rs_pc s)(t := RSwap p now)\<rparr>"
  let ?b1 = "bk_refill oor rl now (sh_heap sh ! p)"
  let ?s2 = "s\<lparr>rs_shared := sh\<lparr>sh_heap := (sh_heap sh)[p := ?b1]\<rparr>, rs_pc := (rs_pc s)(t := RLoadCAS p)\<rparr>"
  let ?s3 = "s\<lparr>rs_shared := sh\<lparr>sh_heap := (sh_heap sh)[p := snd (bk_take ?b1)]\<rparr>, rs_pc := (rs_pc s)(t := RIdle)\<rparr>"
  have lt: "p < length (sh_heap sh)" using map_of_bounded [OF 1(3,4)] .
  obtain k2 ls2 where 2: "exec (rl_sched oor rl) ?s1 (goes k2 t now) = Some (ls2, ?s2)" "k2 \<le> 3"
    using refill_undisturbed [of ?s1 t p now oor rl] lt by auto
  obtain k3 ls3 where 3: "exec (rl_sched oor rl) ?s2 (goes k3 t now) = Some (ls3, ?s3)" "k3 \<le> 2"
      "ls3 \<noteq> []" "fst (bk_take ?b1) \<longleftrightarrow> last ls3 = RStep t now [] RAdmit"
    using take_undisturbed [of ?s2 t p oor rl now] lt by auto
  have "exec (rl_sched oor rl) s (goes (4 + (k2 + k3)) t now) = Some (ls1 @ ls2 @ ls3, ?s3)"
    unfolding replicate_add by (intro exec_append [OF 1(1)] exec_append [OF 2(1) 3(1)])
  moreover have "rl_Allow oor now (limiter_of rl (rs_shared s)) ip = (last ls3 = RStep t now [] RAdmit, limiter_of rl (rs_shared ?s3))"
    using 1(5) 3(4) limiter_of_update [OF 1(3,4), of rl "snd (bk_take ?b1)"]
    by (simp add: rl_Allow_def split_beta Let_def)
  ultimately show ?thesis using 1(2) 2(2) 3(2,3)
    by (intro exI [of _ "4 + (k2 + k3)"] exI [of _ "ls1 @ ls2 @ ls3"] exI [of _ ?s3]) simp
qed

section \<open>The calls end\<close>

text \<open>How many more times a call can still change a count, and how far it is from its end: a
  compare-and-swap that is bound to fail has to go round the loop once more.\<close>

fun changes_left :: "rl_pc \<Rightarrow> nat" where
  "changes_left RIdle = 0"
| "changes_left (RLoadCAS p) = 1"
| "changes_left (RCAS p v) = 1"
| "changes_left (KLock cutoff) = 0"
| "changes_left (KSweep cutoff ips) = 0"
| "changes_left _ = 2"

fun distance :: "bucket list \<Rightarrow> rl_pc \<Rightarrow> nat" where
  "distance h RIdle = 0"
| "distance h (RLock ip) = 9"
| "distance h (RLookup ip) = 8"
| "distance h (RUnlock p) = 7"
| "distance h (RNow p) = 6"
| "distance h (RSwap p now) = 5"
| "distance h (RLoad p r) = 4"
| "distance h (RStore p v) = 3"
| "distance h (RLoadCAS p) = 2"
| "distance h (RCAS p v) = (if v = bk_tokens (h ! p) then 1 else 3)"
| "distance h (KLock cutoff) = 0"
| "distance h (KSweep cutoff ips) = 0"

definition work :: "nat set \<Rightarrow> rl_state \<Rightarrow> nat" where
  "work A s = 2 * card A * (\<Sum>t\<in>A. changes_left (rs_pc s t)) +
     (\<Sum>t\<in>A. distance (sh_heap (rs_shared s)) (rs_pc s t))"

text \<open>The operations of calls; those of sweeps are free.\<close>

fun rl_cost :: "rl_label \<Rightarrow> nat" where
  "rl_cost (RStep t now order ob) = (if ob = RSwept then 0 else 1)"
| "rl_cost _ = 0"

fun in_call :: "rl_pc \<Rightarrow> bool" where
  "in_call RIdle = False"
| "in_call (KLock cutoff) = False"
| "in_call (KSweep cutoff ips) = False"
| "in_call _ = True"

text \<open>The counts of existing buckets are the same.\<close>

definition same_counts :: "rl_shared \<Rightarrow> rl_shared \<Rightarrow> bool" where
  "same_counts sh sh' \<longleftrightarrow> (\<forall>p < length (sh_heap sh). bk_tokens (sh_heap sh' ! p) = bk_tokens (sh_heap sh ! p))"

lemma distance_same: "same_counts sh sh' \<Longrightarrow> pc_ok burst (length (sh_heap sh)) p \<Longrightarrow> distance (sh_heap sh') p = distance (sh_heap sh) p"
  by (cases p) (auto simp: same_counts_def)

lemma distance_disturbed: "distance h' p \<le> distance h p + 2"
  by (cases p) auto

lemma rl_thread_sweeps:
  assumes "rl_thread oor rl t now order sh p = Some (sh', p', RSwept)"
  shows "sh_heap sh' = sh_heap sh" and "changes_left p' = 0" and "distance h p' = 0"
proof -
  have "sh_heap sh' = sh_heap sh \<and> changes_left p' = 0 \<and> distance h p' = 0"
  proof (cases p)
    case (KSweep cutoff ips)
    then show ?thesis using assms by (cases ips) (auto split: option.splits if_splits)
  qed (use assms in \<open>auto simp: Let_def split: if_splits option.splits\<close>)
  then show "sh_heap sh' = sh_heap sh" and "changes_left p' = 0" and "distance h p' = 0" by simp_all
qed

lemma rl_thread_call:
  "rl_thread oor rl t now order sh p = Some (sh', p', ob) \<Longrightarrow> ob \<noteq> RSwept \<longleftrightarrow> in_call p"
proof (cases p)
  case (KSweep cutoff ips)
  then show "rl_thread oor rl t now order sh p = Some (sh', p', ob) \<Longrightarrow> ?thesis" by (cases ips) (auto split: option.splits)
qed (auto simp: Let_def split: if_splits option.splits)

lemma rl_thread_decreases:
  assumes "rl_thread oor rl t now order sh p = Some (sh', p', ob)" and "ob \<noteq> RSwept" and "pc_ok burst (length (sh_heap sh)) p"
  shows "distance (sh_heap sh') p' < distance (sh_heap sh) p"
    and "changes_left p' \<le> changes_left p"
    and "\<not> same_counts sh sh' \<Longrightarrow> changes_left p' < changes_left p"
proof -
  have "in_call p" using rl_thread_call [OF assms(1)] assms(2) by simp
  then show "distance (sh_heap sh') p' < distance (sh_heap sh) p" "changes_left p' \<le> changes_left p"
    "\<not> same_counts sh sh' \<Longrightarrow> changes_left p' < changes_left p"
    using assms(1,3) by (cases p; auto simp: Let_def same_counts_def nth_append nth_list_update split: if_splits option.splits; fail)+
qed

lemma work_step:
  assumes "finite A" and "t \<in> A" and inv: "rl_cinv rl s" and ob: "ob \<noteq> RSwept"
    and st: "rl_thread oor rl t now order (rs_shared s) (rs_pc s t) = Some (sh, p, ob)"
  shows "work A (s\<lparr>rs_shared := sh, rs_pc := (rs_pc s)(t := p)\<rparr>) < work A s"
proof -
  let ?h = "sh_heap (rs_shared s)" and ?R = "A - {t}"
  let ?oth = "\<lambda>h. \<Sum>u\<in>?R. distance h (rs_pc s u)" and ?ch = "\<Sum>u\<in>?R. changes_left (rs_pc s u)"
  have ok: "pc_ok (rl_burst rl) (length ?h) (rs_pc s u)" for u using inv by (simp add: rl_cinv_def)
  note d = rl_thread_decreases [OF st ob ok]
  have cut: "(\<Sum>u\<in>A. f (((rs_pc s)(t := q)) u)) = f q + (\<Sum>u\<in>?R. f (rs_pc s u))" for f :: "rl_pc \<Rightarrow> nat" and q
  proof -
    have "(\<Sum>u\<in>?R. f (((rs_pc s)(t := q)) u)) = (\<Sum>u\<in>?R. f (rs_pc s u))" by (rule sum.cong) auto
    then show ?thesis using sum.remove [OF assms(1,2), of "\<lambda>u. f (((rs_pc s)(t := q)) u)"] by simp
  qed
  have old: "work A s = 2 * card A * (changes_left (rs_pc s t) + ?ch) + (distance ?h (rs_pc s t) + ?oth ?h)"
    using assms(1,2) by (simp add: work_def sum.remove [of A t])
  have new: "work A (s\<lparr>rs_shared := sh, rs_pc := (rs_pc s)(t := p)\<rparr>) =
      2 * card A * (changes_left p + ?ch) + (distance (sh_heap sh) p + ?oth (sh_heap sh))"
    by (simp add: work_def cut del: fun_upd_apply)
  show ?thesis
  proof (cases "same_counts (rs_shared s) sh")
    case True
    have "?oth (sh_heap sh) = ?oth ?h" by (rule sum.cong [OF refl]) (rule distance_same [OF True ok])
    moreover have "2 * card A * (changes_left p + ?ch) \<le> 2 * card A * (changes_left (rs_pc s t) + ?ch)"
      using d(2) by simp
    ultimately show ?thesis using d(1) unfolding old new by linarith
  next
    case False
    have "?oth (sh_heap sh) \<le> (\<Sum>u\<in>?R. distance ?h (rs_pc s u) + 2)"
      by (rule sum_mono) (rule distance_disturbed)
    also have "\<dots> = ?oth ?h + 2 * card ?R" by (simp only: sum.distrib) simp
    also have "\<dots> \<le> ?oth ?h + 2 * card A" using assms(1) by (simp add: card_Diff1_le)
    finally have oth: "?oth (sh_heap sh) \<le> ?oth ?h + 2 * card A" .
    have "2 * card A * (changes_left p + 1 + ?ch) \<le> 2 * card A * (changes_left (rs_pc s t) + ?ch)"
      using d(3) [OF False] by (intro mult_left_mono) auto
    then have "2 * card A * (changes_left p + ?ch) + 2 * card A \<le> 2 * card A * (changes_left (rs_pc s t) + ?ch)"
      by (simp add: algebra_simps)
    then show ?thesis using oth d(1) unfolding old new by linarith
  qed
qed

text \<open>A sweep changes no count.\<close>

lemma work_sweep:
  assumes "rl_thread oor rl t now order (rs_shared s) (rs_pc s t) = Some (sh, p, RSwept)"
  shows "work A (s\<lparr>rs_shared := sh, rs_pc := (rs_pc s)(t := p)\<rparr>) \<le> work A s"
proof -
  note w = rl_thread_sweeps [OF assms]
  have "(\<Sum>u\<in>A. changes_left (((rs_pc s)(t := p)) u)) \<le> (\<Sum>u\<in>A. changes_left (rs_pc s u))"
    "(\<Sum>u\<in>A. distance (sh_heap sh) (((rs_pc s)(t := p)) u)) \<le> (\<Sum>u\<in>A. distance (sh_heap (rs_shared s)) (rs_pc s u))"
    by (rule sum_mono, simp add: w)+
  then show ?thesis unfolding work_def by (simp add: add_mono mult_le_mono2 del: fun_upd_apply)
qed

lemma work_bound: "finite A \<Longrightarrow> work A s \<le> 4 * card A ^ 2 + 9 * card A"
proof -
  assume "finite A"
  have "changes_left p \<le> 2" "distance h p \<le> 9" for p h by (cases p; simp)+
  then have "(\<Sum>t\<in>A. changes_left (rs_pc s t)) \<le> card A * 2"
    "(\<Sum>t\<in>A. distance (sh_heap (rs_shared s)) (rs_pc s t)) \<le> card A * 9"
    using sum_bounded_above [of A "\<lambda>t. changes_left (rs_pc s t)" 2]
      sum_bounded_above [of A "\<lambda>t. distance (sh_heap (rs_shared s)) (rs_pc s t)" 9] by auto
  moreover from this(1) have "2 * card A * (\<Sum>t\<in>A. changes_left (rs_pc s t)) \<le> 2 * card A * (card A * 2)"
    by (rule mult_left_mono) simp
  ultimately show ?thesis unfolding work_def power2_eq_square by linarith
qed

text \<open>No new call begins, only the goroutines in \<open>A\<close> being in one; sweeps may begin at any time.\<close>

definition rl_cont :: "(float64 \<Rightarrow> int64) \<Rightarrow> rate_limiter \<Rightarrow> rl_state \<Rightarrow> rl_label \<Rightarrow> rl_state \<Rightarrow> bool" where
  "rl_cont oor rl s l s' \<longleftrightarrow> rl_cstep oor rl s l s' \<and> (\<forall>t ip. l \<noteq> RStart t ip)"

definition only_active :: "nat set \<Rightarrow> rl_state \<Rightarrow> bool" where
  "only_active A s \<longleftrightarrow> (\<forall>t. in_call (rs_pc s t) \<longrightarrow> t \<in> A)"

lemma rl_thread_stays_out:
  "rl_thread oor rl t now order sh p = Some (sh', p', ob) \<Longrightarrow> in_call p' \<Longrightarrow> in_call p"
proof (cases p)
  case (KSweep cutoff ips)
  then show "rl_thread oor rl t now order sh p = Some (sh', p', ob) \<Longrightarrow> in_call p' \<Longrightarrow> ?thesis"
    by (cases ips) (auto split: option.splits)
qed (auto simp: Let_def split: if_splits option.splits)

lemma only_active_step:
  assumes "only_active A s" and "rl_cont oor rl s l s'"
  shows "only_active A s'"
proof -
  from assms(2) have "rl_cstep oor rl s l s'" "\<forall>t ip. l \<noteq> RStart t ip" by (simp_all add: rl_cont_def)
  then show ?thesis
  proof cases
    case (rl_step t now order sh p ob)
    then show ?thesis using assms(1) rl_thread_stays_out [OF rl_step(3)] by (auto simp: only_active_def)
  qed (use assms(1) in \<open>auto simp: only_active_def\<close>)
qed

lemma work_cont:
  assumes "only_active A s" and "finite A" and "rl_cinv rl s" and "rl_cont oor rl s l s'"
  shows "work A s' + rl_cost l \<le> work A s"
proof -
  from assms(4) have "rl_cstep oor rl s l s'" "\<forall>t ip. l \<noteq> RStart t ip" by (simp_all add: rl_cont_def)
  then show ?thesis
  proof cases
    case (rl_step t now order sh p ob)
    show ?thesis
    proof (cases "ob = RSwept")
      case True
      then show ?thesis using work_sweep [OF rl_step(3) [unfolded True], of A] rl_step(1,2) by simp
    next
      case False
      then have "t \<in> A" using rl_thread_call [OF rl_step(3)] assms(1) by (auto simp: only_active_def)
      with work_step [OF assms(2) _ assms(3) False rl_step(3)] False show ?thesis by (simp add: rl_step(1,2))
    qed
  next
    case (rl_tick t cutoff)
    then have "(\<Sum>u\<in>A. changes_left (((rs_pc s)(t := KLock cutoff)) u)) = (\<Sum>u\<in>A. changes_left (rs_pc s u))"
      "(\<Sum>u\<in>A. distance (sh_heap (rs_shared s)) (((rs_pc s)(t := KLock cutoff)) u)) =
        (\<Sum>u\<in>A. distance (sh_heap (rs_shared s)) (rs_pc s u))"
      by (auto intro!: sum.cong)
    then show ?thesis by (simp add: rl_tick(1,2) work_def del: fun_upd_apply)
  qed auto
qed

interpretation rlt: terminating_system "\<lambda>s. only_active A s \<and> finite A \<and> rl_cinv rl s" "rl_cont oor rl"
  "\<lambda>s. only_active A s \<and> finite A \<and> rl_cinv rl s" "work A" rl_cost for A oor rl
proof unfold_locales
  fix s l s' assume s: "only_active A s \<and> finite A \<and> rl_cinv rl s" and st: "rl_cont oor rl s l s'"
  then have "rl_cinv rl s'" using rl_cinv_step by (auto simp: rl_cont_def)
  with s st show "only_active A s' \<and> finite A \<and> rl_cinv rl s'" using only_active_step by blast
  show "work A s' + rl_cost l \<le> work A s" using work_cont s st by blast
qed simp

text \<open>A goroutine can go on, or waits for the lock.\<close>

lemma rl_thread_blocks:
  assumes "p \<noteq> RIdle" and "\<And>now order. rl_thread oor rl t now order sh p = None"
  shows "sh_mu sh \<noteq> None \<and> \<not> holds_mu p"
proof (cases p)
  case (KLock cutoff)
  obtain ips where "set ips = fst ` set (sh_buckets sh)" "distinct ips"
    using finite_distinct_list [of "fst ` set (sh_buckets sh)"] by auto
  then show ?thesis using assms(2) [of 0 ips] KLock by (auto split: if_splits)
next
  case (KSweep cutoff ips)
  then show ?thesis using assms(2) [of 0 "[]"] by (cases ips) (auto split: option.splits)
qed (use assms(1) assms(2) [of 0 "[]"] in \<open>auto simp: Let_def split: option.splits if_splits\<close>)

definition can_step :: "(float64 \<Rightarrow> int64) \<Rightarrow> rate_limiter \<Rightarrow> rl_state \<Rightarrow> nat \<Rightarrow> bool" where
  "can_step oor rl s t \<longleftrightarrow> (\<exists>now order ob s'. rl_cont oor rl s (RStep t now order ob) s')"

lemma can_step_thread:
  "rl_thread oor rl t now order (rs_shared s) (rs_pc s t) = Some x \<Longrightarrow> can_step oor rl s t"
  unfolding can_step_def rl_cont_def by (cases x) (metis rl_step rl_label.distinct(3))

lemma rl_progress:
  assumes "rl_cinv rl s" and "rs_pc s t \<noteq> RIdle"
  shows "can_step oor rl s t \<or> (\<exists>u. u \<noteq> t \<and> sh_mu (rs_shared s) = Some u \<and> can_step oor rl s u)"
proof (cases "can_step oor rl s t")
  case False
  then have none: "rl_thread oor rl t now order (rs_shared s) (rs_pc s t) = None" for now order
    using can_step_thread [of oor rl t now order s] by (cases "rl_thread oor rl t now order (rs_shared s) (rs_pc s t)") auto
  obtain u where u: "sh_mu (rs_shared s) = Some u" and nt: "\<not> holds_mu (rs_pc s t)"
    using rl_thread_blocks [OF assms(2) none] by auto
  then have hu: "holds_mu (rs_pc s u)" using assms(1) unfolding rl_cinv_def by blast
  then have "rs_pc s u \<noteq> RIdle" by auto
  then have "can_step oor rl s u"
    using rl_thread_blocks [of "rs_pc s u" oor rl u "rs_shared s"] hu can_step_thread [of oor rl u _ _ s]
    by (metis option.exhaust)
  then show ?thesis using u nt hu by auto
qed simp

text \<open>C12: concurrent calls of \<open>Allow\<close> end. In every state that any interleaving of calls and sweeps reaches, when \<open>n\<close> calls are in
  progress and no new one begins, then, whatever sweeps run meanwhile, the calls execute together at most \<open>4 * n\<^sup>2 + 9 * n\<close>
  more operations (on the mutex, the map, the clock and the atomic fields), so the compare-and-swap loop ends under every
  interleaving; and there is no deadlock: a goroutine that is in a call or a sweep can go on, or waits for
  the mutex and the goroutine that holds it can go on.\<close>

theorem RateLimiter_Allow_terminates:
  assumes "run (rl_cstep oor rl) rl_cinit ls0 s" and "run (rl_cont oor rl) s ls s'" and "finite A"
    and "\<forall>t. in_call (rs_pc s t) \<longrightarrow> t \<in> A"
  shows "length (filter (\<lambda>l. \<exists>t now order ob. l = RStep t now order ob \<and> ob \<noteq> RSwept) ls) \<le> 4 * card A ^ 2 + 9 * card A \<and>
    (\<forall>t. rs_pc s' t \<noteq> RIdle \<longrightarrow> (\<exists>u. (u = t \<or> sh_mu (rs_shared s') = Some u) \<and>
      (\<exists>now order ob s''. rl_cont oor rl s' (RStep u now order ob) s'')))"
proof -
  have inv: "rl_cinv rl s" using rlc.reachable_invar [OF refl assms(1)] .
  have act: "only_active A s" using assms(4) by (simp add: only_active_def)
  have calls: "length (filter (\<lambda>l. \<exists>t now order ob. l = RStep t now order ob \<and> ob \<noteq> RSwept) ls) \<le> sum_list (map rl_cost ls)" for ls
  proof (induction ls)
    case (Cons l ls)
    then show ?case by (cases l) auto
  qed simp
  have paid: "sum_list (map rl_cost ls) + work A s' \<le> work A s"
    using rlt.run_bounded [OF assms(2)] inv act assms(3) by blast
  have "rl_cinv rl s'" using rlt.run_invar [OF assms(2)] inv act assms(3) by blast
  note inv' = this
  have "length (filter (\<lambda>l. \<exists>t now order ob. l = RStep t now order ob \<and> ob \<noteq> RSwept) ls) \<le> 4 * card A ^ 2 + 9 * card A"
    using work_bound [OF assms(3), of s] calls [of ls] paid by linarith
  moreover have "\<exists>u. (u = t \<or> sh_mu (rs_shared s') = Some u) \<and> (\<exists>now order ob s''. rl_cont oor rl s' (RStep u now order ob) s'')"
    if busy: "rs_pc s' t \<noteq> RIdle" for t
    using rl_progress [OF inv' busy, of oor] unfolding can_step_def by blast
  ultimately show ?thesis by blast
qed

theorem RateLimiter_Allow_terminates_witness:
  "\<exists>ls0 s ls s'. run (rl_cstep (\<lambda>_. 0) (NewRateLimiter 1 1)) rl_cinit ls0 s \<and>
     run (rl_cont (\<lambda>_. 0) (NewRateLimiter 1 1)) s ls s' \<and> rs_pc s 0 = RLookup ''a'' \<and> rs_pc s 1 = RLock ''a'' \<and>
     length (filter (\<lambda>l. \<exists>t now order ob. l = RStep t now order ob \<and> ob \<noteq> RSwept) ls) \<le> 34"
proof -
  let ?rl = "NewRateLimiter 1 1"
  obtain ls0 s where ex: "exec (rl_sched (\<lambda>_. 0) ?rl) rl_cinit [Begin 0 ''a'', Begin 1 ''a'', Go 0 0] = Some (ls0, s)"
    and pc: "rs_pc s = (\<lambda>_. RIdle)(0 := RLookup ''a'', 1 := RLock ''a'')"
    by (simp add: rl_cinit_def fun_eq_iff)
  note r0 = rsched.exec_run [OF ex]
  obtain x where "rl_thread (\<lambda>_. 0) ?rl 0 0 [] (rs_shared s) (rs_pc s 0) = Some x"
    using pc by (cases "map_of (sh_buckets (rs_shared s)) ''a''") (simp_all add: Let_def)
  then obtain ob s' where "rl_cont (\<lambda>_. 0) ?rl s (RStep 0 0 [] ob) s'"
    unfolding rl_cont_def by (cases x) (metis rl_step rl_label.distinct(3))
  then have r: "run (rl_cont (\<lambda>_. 0) ?rl) s [RStep 0 0 [] ob] s'" by (intro run_single)
  have act: "\<forall>t. in_call (rs_pc s t) \<longrightarrow> t \<in> {0, 1}" by (simp add: pc)
  have "length (filter (\<lambda>l. \<exists>t now order ob. l = RStep t now order ob \<and> ob \<noteq> RSwept) [RStep 0 0 [] ob]) \<le> 34"
    using RateLimiter_Allow_terminates [OF r0 r _ act] by simp
  with r0 r pc show ?thesis by (intro exI [of _ ls0] exI [of _ s] exI [of _ "[RStep 0 0 [] ob]"] exI [of _ s']) simp
qed

end
