(* ===== verification/Middleware.thy ===== *)
theory Middleware
  imports RateLimiter
begin

text \<open>
  \<open>internal/middleware\<close> without the rate limiter (\<open>requestid.go\<close>, \<open>headers.go\<close>,
  \<open>logger.go\<close>, \<open>gzip.go\<close>) and \<open>internal/proxy/middleware.go\<close> without its timeout. A handler maps a request, its own state and the response writer to
  the new state and writer; a middleware that keeps records (log lines, metric updates) has them
  as a component in front of the state of the handler it wraps. The properties are stated for
  handlers that are arbitrary sequences of operations on their writer (\<open>serve\<close>).
\<close>

type_synonym 's handler = "request \<Rightarrow> 's \<times> writer \<Rightarrow> 's \<times> writer"

section \<open>Wrapping a response writer\<close>

definition push_layer :: "layer \<Rightarrow> writer \<Rightarrow> writer" where
  "push_layer l w = w\<lparr>w_layers := l # w_layers w\<rparr>"

text \<open>The wrapper as the handler left it, and the writer below it.\<close>

definition top_layer :: "writer \<Rightarrow> layer" where
  "top_layer w = hd (w_layers w)"

definition pop_layer :: "writer \<Rightarrow> writer" where
  "pop_layer w = w\<lparr>w_layers := tl (w_layers w)\<rparr>"

fun layer_status :: "layer \<Rightarrow> int" where
  "layer_status (RecorderLayer st n) = st"
| "layer_status (WriterLayer st n) = st"
| "layer_status (StatusLayer st) = st"
| "layer_status (GzipLayer cs err) = 0"

fun layer_bytes :: "layer \<Rightarrow> int" where
  "layer_bytes (RecorderLayer st n) = n"
| "layer_bytes (WriterLayer st n) = n"
| "layer_bytes (StatusLayer st) = 0"
| "layer_bytes (GzipLayer cs err) = 0"

definition newResponseRecorder :: layer where
  "newResponseRecorder = RecorderLayer 200 0"

definition newResponseWriter :: layer where
  "newResponseWriter = WriterLayer 200 0"

section \<open>Request identifiers\<close>

text \<open>\<open>uuid\<close> is what \<open>uuid.New().String()\<close> returns for this request.\<close>

definition RequestID :: "string \<Rightarrow> 's handler \<Rightarrow> 's handler" where
  "RequestID uuid next r sw =
     (let (s, w) = sw; i = Header_Get (r_Header r) ''X-Request-ID'';
          i = (if i = [] then uuid else i);
          r = r\<lparr>r_ctxRequestID := Some i\<rparr>;
          r = r\<lparr>r_Header := Header_Set (r_Header r) ''X-Request-ID'' i\<rparr>;
          w = w_setHeader (\<lambda>h. Header_Set h ''X-Request-ID'' i) w
      in next r (s, w))"

definition RequestIDFromContext :: "request \<Rightarrow> string" where
  "RequestIDFromContext r = (case r_ctxRequestID r of Some i \<Rightarrow> i | None \<Rightarrow> [])"

section \<open>Response headers\<close>

text \<open>The maps of the rewriter as lists of entries with distinct keys, in iteration order.\<close>

record header_rewriter =
  hw_adds :: "(string \<times> string) list"
  hw_removes :: "string list"
  hw_sets :: "(string \<times> string) list"

definition NewHeaderRewriter :: header_rewriter where
  "NewHeaderRewriter = \<lparr>hw_adds = [], hw_removes = [], hw_sets = []\<rparr>"

fun put_entry :: "string \<Rightarrow> string \<Rightarrow> (string \<times> string) list \<Rightarrow> (string \<times> string) list" where
  "put_entry k v [] = [(k, v)]"
| "put_entry k v ((k', v') # es) = (if k' = k then (k, v) # es else (k', v') # put_entry k v es)"

definition Rewriter_Add :: "string \<Rightarrow> string \<Rightarrow> header_rewriter \<Rightarrow> header_rewriter" where
  "Rewriter_Add name val h = h\<lparr>hw_adds := put_entry name val (hw_adds h)\<rparr>"

definition Rewriter_Remove :: "string \<Rightarrow> header_rewriter \<Rightarrow> header_rewriter" where
  "Rewriter_Remove name h = h\<lparr>hw_removes := hw_removes h @ [name]\<rparr>"

definition Rewriter_Set :: "string \<Rightarrow> string \<Rightarrow> header_rewriter \<Rightarrow> header_rewriter" where
  "Rewriter_Set name val h = h\<lparr>hw_sets := put_entry name val (hw_sets h)\<rparr>"

definition rewrite_header :: "header_rewriter \<Rightarrow> header \<Rightarrow> header" where
  "rewrite_header hw h =
     (let h = fold (\<lambda>(k, v) h. if Header_Get h k = [] then Header_Set h k v else h) (hw_adds hw) h;
          h = fold (\<lambda>k h. Header_Del h k) (hw_removes hw) h
      in fold (\<lambda>(k, v) h. Header_Set h k v) (hw_sets hw) h)"

definition Rewriter_Middleware :: "header_rewriter \<Rightarrow> 's handler \<Rightarrow> 's handler" where
  "Rewriter_Middleware hw next r sw =
     (let (s, w) = next r sw in (s, w_setHeader (rewrite_header hw) w))"

definition security_header :: "header \<Rightarrow> header" where
  "security_header h =
     (let h = Header_Set h ''Strict-Transport-Security'' ''max-age=63072000; includeSubDomains'';
          h = Header_Set h ''X-Frame-Options'' ''DENY'';
          h = Header_Set h ''X-Content-Type-Options'' ''nosniff''
      in Header_Set h ''Referrer-Policy'' ''strict-origin-when-cross-origin'')"

definition SecurityHeaders :: "'s handler \<Rightarrow> 's handler" where
  "SecurityHeaders next r sw = (let (s, w) = next r sw in (s, w_setHeader security_header w))"

section \<open>Access log\<close>

record log_entry =
  le_method :: string
  le_path :: string
  le_status :: int
  le_bytes :: int
  le_latency_ms :: int
  le_client_ip :: string
  le_user_agent :: string

text \<open>\<open>latency\<close> is the measured time in nanoseconds.\<close>

definition AccessLogger :: "duration \<Rightarrow> 's handler \<Rightarrow> (log_entry list \<times> 's) handler" where
  "AccessLogger latency next r lsw =
     (let ((lg, s), w) = lsw;
          (s, w) = next r (s, push_layer newResponseRecorder w);
          rec = top_layer w
      in ((lg @ [\<lparr>le_method = r_Method r, le_path = u_Path (r_URL r), le_status = layer_status rec,
                  le_bytes = layer_bytes rec, le_latency_ms = latency div millisecond,
                  le_client_ip = mw_clientIP r, le_user_agent = Header_Get (r_Header r) ''User-Agent''\<rparr>], s),
          pop_layer w))"

section \<open>Compression\<close>

text \<open>
  \<open>gzipPool\<close>: the compressors that are not in use, each with the data it was given before it was
  closed. \<open>Get\<close> takes one of them (here the first) or makes a new one. Whichever it is, it is reset
  before use.
\<close>

definition gzipPool_New :: "string list" where
  "gzipPool_New = []"

definition gzipPool_Get :: "string list list \<Rightarrow> string list \<times> string list list" where
  "gzipPool_Get pool = (case pool of [] \<Rightarrow> (gzipPool_New, []) | gw # pool \<Rightarrow> (gw, pool))"

definition gzip_Reset :: "string list \<Rightarrow> string list" where
  "gzip_Reset gw = []"

definition GzipMiddleware :: "codec \<Rightarrow> int \<Rightarrow> 's handler \<Rightarrow> (string list list \<times> 's) handler" where
  "GzipMiddleware z minBytes next r psw =
     (let ((pool, s), w) = psw in
      if \<not> Contains (Header_Get (r_Header r) ''Accept-Encoding'') ''gzip'' then
        (let (s, w) = next r (s, w) in ((pool, s), w))
      else (let (gw, pool) = gzipPool_Get pool;
                gw = gzip_Reset gw;
                w = w_setHeader (\<lambda>h. Header_Set h ''Content-Encoding'' ''gzip'') w;
                w = w_setHeader (\<lambda>h. Header_Del h ''Content-Length'') w;
                (s, w) = next r (s, push_layer (GzipLayer gw False) w);
                (gw, err) = (case top_layer w of GzipLayer cs err \<Rightarrow> (cs, err) | _ \<Rightarrow> ([], False));
                out = (if err then [] else z_close z gw);
                w = pop_layer w
            in ((gw # pool, s), if out = [] then w else w_Write z out w)))"

section \<open>Chains\<close>

text \<open>The loop of \<open>Chain\<close> runs from the last middleware to the first.\<close>

fun Chain_loop :: "'h \<Rightarrow> ('h \<Rightarrow> 'h) list \<Rightarrow> nat \<Rightarrow> 'h" where
  "Chain_loop h ms 0 = h"
| "Chain_loop h ms (Suc i) = Chain_loop ((ms ! i) h) ms i"

definition Chain :: "'h \<Rightarrow> ('h \<Rightarrow> 'h) list \<Rightarrow> 'h" where
  "Chain h middlewares = Chain_loop h middlewares (length middlewares)"

section \<open>Handlers as sequences of writer operations\<close>

definition acting :: "codec \<Rightarrow> (request \<Rightarrow> hact list) \<Rightarrow> 's handler" where
  "acting z acts r sw = (fst sw, serve z (acts r) (snd sw))"

lemma serve_Nil [simp]: "serve z [] w = w"
  by (simp add: serve_def)

lemma serve_Cons [simp]: "serve z (a # acts) w = serve z acts (hact_exec z a w)"
  by (simp add: serve_def)

lemma serve_append: "serve z (xs @ ys) w = serve z ys (serve z xs w)"
  by (simp add: serve_def)

text \<open>A recorder is transparent: the writer below it sees the same operations.\<close>

fun last_code :: "hact list \<Rightarrow> int \<Rightarrow> int" where
  "last_code [] st = st"
| "last_code (HWriteHeader code # acts) st = last_code acts code"
| "last_code (_ # acts) st = last_code acts st"

fun is_recorder :: "layer \<Rightarrow> bool" where
  "is_recorder (GzipLayer cs err) = False"
| "is_recorder _ = True"

text \<open>What one operation does to a recorder on top of \<open>w\<close>.\<close>

fun record_act :: "codec \<Rightarrow> hact \<Rightarrow> writer \<Rightarrow> layer \<Rightarrow> layer" where
  "record_act z (HWriteHeader code) w (RecorderLayer st n) = RecorderLayer code n"
| "record_act z (HWriteHeader code) w (WriterLayer st n) = WriterLayer code n"
| "record_act z (HWriteHeader code) w (StatusLayer st) = StatusLayer code"
| "record_act z (HWrite bs) w (RecorderLayer st n) =
     RecorderLayer st (n + fst (stack_Write z (w_layers w) bs (w_base w)))"
| "record_act z (HWrite bs) w (WriterLayer st n) =
     WriterLayer st (n + fst (stack_Write z (w_layers w) bs (w_base w)))"
| "record_act z a w l = l"

fun record_acts :: "codec \<Rightarrow> hact list \<Rightarrow> writer \<Rightarrow> layer \<Rightarrow> layer" where
  "record_acts z [] w l = l"
| "record_acts z (a # acts) w l = record_acts z acts (hact_exec z a w) (record_act z a w l)"

lemma recorder_step:
  "is_recorder l \<Longrightarrow> hact_exec z a (push_layer l w) = push_layer (record_act z a w l) (hact_exec z a w) \<and>
   is_recorder (record_act z a w l)"
  by (cases a; cases l)
    (simp_all add: push_layer_def w_setHeader_def w_Write_def w_WriteHeader_def wrapper_defs split_beta Let_def)

lemma recorder_serve:
  "is_recorder l \<Longrightarrow> serve z acts (push_layer l w) = push_layer (record_acts z acts w l) (serve z acts w)"
  by (induction acts arbitrary: l w) (simp_all add: recorder_step)

lemma record_acts_status: "is_recorder l \<Longrightarrow> layer_status (record_acts z acts w l) = last_code acts (layer_status l)"
proof (induction acts arbitrary: l w)
  case (Cons a acts)
  then show ?case using recorder_step [OF Cons.prems, of z a w] by (cases a; cases l) simp_all
qed simp

text \<open>On the server's own writer, the count is the number of bytes added to the body.\<close>

lemma stack_Write_length:
  "w_layers w = [] \<Longrightarrow> \<not> rw_head (w_base w) \<Longrightarrow> int (length (rw_body (w_base (w_Write z bs w)))) =
     int (length (rw_body (w_base w))) + fst (stack_Write z (w_layers w) bs (w_base w))"
  using base_Write_body [of bs "w_base w"] by (auto simp: w_Write_def split: prod.splits)

lemma hact_exec_base: "w_layers w = [] \<Longrightarrow> w_layers (hact_exec z a w) = []"
  by (cases a) (simp_all add: w_setHeader_def w_Write_def w_WriteHeader_def split_beta)

lemma hact_exec_head: "w_layers w = [] \<Longrightarrow> rw_head (w_base (hact_exec z a w)) = rw_head (w_base w)"
  by (cases a) (simp_all add: w_setHeader_def w_Write_def w_WriteHeader_def split_beta)

lemma hact_exec_body:
  "w_layers w = [] \<Longrightarrow> \<forall>bs. a \<noteq> HWrite bs \<Longrightarrow> rw_body (w_base (hact_exec z a w)) = rw_body (w_base w)"
  by (cases a) (auto simp: w_setHeader_def w_WriteHeader_def)

lemma record_acts_bytes:
  "w_layers w = [] \<Longrightarrow> \<not> rw_head (w_base w) \<Longrightarrow> layer_bytes (record_acts z acts w (RecorderLayer st n)) =
     n + int (length (rw_body (w_base (serve z acts w)))) - int (length (rw_body (w_base w)))"
proof (induction acts arbitrary: w st n)
  case (Cons a acts)
  note IH = Cons.IH [OF hact_exec_base [OF Cons.prems(1), of z a]]
  note head = hact_exec_head [OF Cons.prems(1), of z a]
  show ?case
  proof (cases a)
    case (HWrite bs)
    then show ?thesis using IH head stack_Write_length [OF Cons.prems, of z bs] Cons.prems(2) by simp
  qed (use IH head Cons.prems(2) hact_exec_body [OF Cons.prems(1), of a z] in auto)
qed simp

lemma pop_push [simp]: "pop_layer (push_layer l w) = w" "top_layer (push_layer l w) = l"
  by (simp_all add: push_layer_def pop_layer_def top_layer_def)

section \<open>What is sent\<close>

definition new_writer :: writer where
  "new_writer = \<lparr>w_layers = [], w_base = new_response\<rparr>"

text \<open>Status codes that are sent as the response (not as an interim one).\<close>

definition final_code :: "int \<Rightarrow> bool" where
  "final_code code \<longleftrightarrow> \<not> (100 \<le> code \<and> code \<le> 199 \<and> code \<noteq> 101)"

fun sends :: "hact \<Rightarrow> bool" where
  "sends (HWriteHeader code) = final_code code"
| "sends (HWrite bs) = True"
| "sends _ = False"

text \<open>The status of the response: that of the first operation that sends the header.\<close>

fun first_code :: "hact list \<Rightarrow> int" where
  "first_code [] = 200"
| "first_code (HWriteHeader code # acts) = (if final_code code then code else first_code acts)"
| "first_code (HWrite bs # acts) = 200"
| "first_code (_ # acts) = first_code acts"

lemma hact_exec_sent_mono:
  "w_layers w = [] \<Longrightarrow> rw_sent (w_base w) = Some x \<Longrightarrow> rw_sent (w_base (hact_exec z a w)) = Some x"
  by (cases a) (auto simp: w_setHeader_def w_Write_def w_WriteHeader_def rw_sent_WriteHeader rw_sent_Write split_beta)

lemma serve_base: "w_layers w = [] \<Longrightarrow> w_layers (serve z acts w) = []"
  by (induction acts arbitrary: w) (simp_all add: hact_exec_base)

lemma serve_sent_mono:
  "w_layers w = [] \<Longrightarrow> rw_sent (w_base w) = Some x \<Longrightarrow> rw_sent (w_base (serve z acts w)) = Some x"
  by (induction acts arbitrary: w) (simp_all add: hact_exec_base hact_exec_sent_mono)

lemma hact_exec_sent_new:
  "w_layers w = [] \<Longrightarrow> rw_sent (w_base w) = None \<Longrightarrow>
   rw_sent (w_base (hact_exec z a w)) =
     (case a of
        HWriteHeader code \<Rightarrow> if final_code code then Some (code, w_Header w) else None
      | HWrite bs \<Rightarrow> Some (200, w_Header w)
      | _ \<Rightarrow> None)"
  by (cases a)
    (auto simp: w_setHeader_def w_Write_def w_WriteHeader_def rw_sent_WriteHeader rw_sent_Write w_Header_def
      final_code_def split_beta)

lemma serve_sent:
  "w_layers w = [] \<Longrightarrow> rw_sent (w_base w) = None \<Longrightarrow>
   (if \<exists>a\<in>set acts. sends a then \<exists>h. rw_sent (w_base (serve z acts w)) = Some (first_code acts, h)
    else rw_sent (w_base (serve z acts w)) = None)"
proof (induction acts arbitrary: w)
  case (Cons a acts)
  note b = hact_exec_base [OF Cons.prems(1), of z a]
  show ?case
  proof (cases "sends a")
    case True
    then show ?thesis
      using hact_exec_sent_new [OF Cons.prems, of z a] serve_sent_mono [OF b, of _ z acts] by (cases a) auto
  next
    case False
    then have "rw_sent (w_base (hact_exec z a w)) = None"
      using hact_exec_sent_new [OF Cons.prems, of z a] by (cases a) auto
    with Cons.IH [OF b] False show ?thesis
      by (cases a) (auto simp del: hact_exec.simps split: if_splits)
  qed
qed simp

text \<open>Handlers that give a valid status, once, before they write, as the interface asks.\<close>

fun header_once :: "hact list \<Rightarrow> bool" where
  "header_once [] = True"
| "header_once (HWriteHeader code # acts) \<longleftrightarrow> final_code code \<and> 100 \<le> code \<and> code \<le> 999 \<and> (\<forall>c. HWriteHeader c \<notin> set acts)"
| "header_once (HWrite bs # acts) \<longleftrightarrow> (\<forall>c. HWriteHeader c \<notin> set acts)"
| "header_once (_ # acts) = header_once acts"

lemma last_code_none: "\<forall>c. HWriteHeader c \<notin> set acts \<Longrightarrow> last_code acts st = st"
  by (induction acts st rule: last_code.induct) auto

lemma header_once_codes: "header_once acts \<Longrightarrow> last_code acts 200 = first_code acts"
  by (induction acts rule: header_once.induct) (auto simp: last_code_none)

section \<open>Compression of the body\<close>

fun chunks :: "hact list \<Rightarrow> string list" where
  "chunks [] = []"
| "chunks (HWrite bs # acts) = bs # chunks acts"
| "chunks (_ # acts) = chunks acts"

fun emitted :: "codec \<Rightarrow> string list \<Rightarrow> string list \<Rightarrow> string" where
  "emitted z cs [] = []"
| "emitted z cs (b # bs) = z_write z cs b @ emitted z (cs @ [b]) bs"

text \<open>The state of the server's writer under a compressor: its header announces compression, as
  does the header it has sent, and what it has sent allows a body of any length.\<close>

definition gz_ok :: "response_writer \<Rightarrow> bool" where
  "gz_ok b \<longleftrightarrow> Header_Get (rw_header b) ''Content-Encoding'' = ''gzip'' \<and> rw_contentLength b = None \<and> \<not> rw_head b \<and>
     (case rw_sent b of None \<Rightarrow> True
      | Some (c, h) \<Rightarrow> body_allowed c \<and> Header_Get h ''Content-Encoding'' = ''gzip'')"

fun gz_act :: "hact \<Rightarrow> bool" where
  "gz_act (HSet k v) \<longleftrightarrow> CanonicalKey k \<noteq> ''Content-Encoding''"
| "gz_act (HDel k) \<longleftrightarrow> CanonicalKey k \<noteq> ''Content-Encoding''"
| "gz_act (HWriteHeader code) \<longleftrightarrow> 100 \<le> code \<and> code \<le> 999 \<and> body_allowed code"
| "gz_act (HWrite bs) \<longleftrightarrow> True"

text \<open>
  The handler does not write, or return, while a length that it declared is in the header map
  (\<open>declared\<close>): an explicit \<open>WriteHeader\<close> removes it.
\<close>

fun length_undeclared :: "bool \<Rightarrow> hact list \<Rightarrow> bool" where
  "length_undeclared declared [] \<longleftrightarrow> \<not> declared"
| "length_undeclared declared (HSet k v # acts) \<longleftrightarrow> length_undeclared (declared \<or> CanonicalKey k = ''Content-Length'') acts"
| "length_undeclared declared (HDel k # acts) \<longleftrightarrow> length_undeclared (declared \<and> CanonicalKey k \<noteq> ''Content-Length'') acts"
| "length_undeclared declared (HWriteHeader code # acts) \<longleftrightarrow> True"
| "length_undeclared declared (HWrite bs # acts) \<longleftrightarrow> \<not> declared \<and> length_undeclared declared acts"

lemma canonical_keys [simp]:
  "CanonicalKey ''Content-Encoding'' = ''Content-Encoding''" "CanonicalKey ''Content-Length'' = ''Content-Length''"
  by code_simp+

definition gz_inv :: "hact list \<Rightarrow> response_writer \<Rightarrow> bool" where
  "gz_inv acts b \<longleftrightarrow> gz_ok b \<and>
     (rw_sent b = None \<longrightarrow>
        (\<exists>declared. length_undeclared declared acts \<and> (declared \<or> Header_Get (rw_header b) ''Content-Length'' = [])))"

lemma gz_ok_Write:
  assumes "gz_ok b" and "rw_sent b = None \<Longrightarrow> Header_Get (rw_header b) ''Content-Length'' = []" and "bs \<noteq> []"
  shows "fst (base_Write bs b) = int (length bs) \<and> gz_ok (snd (base_Write bs b)) \<and>
    rw_sent (snd (base_Write bs b)) \<noteq> None \<and> rw_body (snd (base_Write bs b)) = rw_body b @ bs"
  using assms
  by (auto simp: gz_ok_def base_Write_def base_WriteHeader_def body_allowed_def Let_def split: option.splits prod.splits)

lemma gz_inv_Write:
  assumes "gz_inv (HWrite x # acts) b" and "bs \<noteq> []"
  shows "fst (base_Write bs b) = int (length bs)" and "gz_inv acts (snd (base_Write bs b))"
    and "rw_body (snd (base_Write bs b)) = rw_body b @ bs"
  using gz_ok_Write [of b bs] assms by (auto simp: gz_inv_def)

lemma gz_step:
  assumes "gz_inv (a # acts) b" and "gz_act a"
  shows "\<exists>b'. hact_exec z a \<lparr>w_layers = [GzipLayer cs False], w_base = b\<rparr> =
      \<lparr>w_layers = [GzipLayer (cs @ chunks [a]) False], w_base = b'\<rparr> \<and> gz_inv acts b' \<and>
      rw_body b' = rw_body b @ emitted z cs (chunks [a])"
proof (cases a)
  case (HWrite bs)
  have "gz_inv acts b" using assms(1) HWrite by (auto simp: gz_inv_def)
  then show ?thesis using gz_inv_Write [of bs acts b "z_write z cs bs"] assms(1) HWrite
    by (auto simp: w_Write_def gzip_Write_def split_beta Let_def)
next
  case (HWriteHeader code)
  then show ?thesis using assms
    by (auto simp: gz_inv_def gzip_WriteHeader_def gz_ok_def w_WriteHeader_def base_WriteHeader_def Header_Get_Del
        body_allowed_def split: option.splits)
qed (use assms in \<open>auto simp: gz_inv_def gz_ok_def w_setHeader_def Header_Get_Set Header_Get_Del split: option.splits\<close>)

lemma chunks_Cons: "chunks (a # acts) = chunks [a] @ chunks acts"
  by (cases a) simp_all

lemma emitted_append: "emitted z cs (xs @ ys) = emitted z cs xs @ emitted z (cs @ xs) ys"
  by (induction xs arbitrary: cs) simp_all

lemma gz_serve:
  assumes "gz_inv acts b" and "\<forall>a\<in>set acts. gz_act a"
  shows "\<exists>b'. serve z acts \<lparr>w_layers = [GzipLayer cs False], w_base = b\<rparr> =
      \<lparr>w_layers = [GzipLayer (cs @ chunks acts) False], w_base = b'\<rparr> \<and> gz_inv [] b' \<and>
      rw_body b' = rw_body b @ emitted z cs (chunks acts)"
  using assms
proof (induction acts arbitrary: b cs)
  case (Cons a acts)
  obtain b1 where b1: "hact_exec z a \<lparr>w_layers = [GzipLayer cs False], w_base = b\<rparr> =
      \<lparr>w_layers = [GzipLayer (cs @ chunks [a]) False], w_base = b1\<rparr>" "gz_inv acts b1"
      "rw_body b1 = rw_body b @ emitted z cs (chunks [a])"
    using gz_step [OF Cons.prems(1), of z cs] Cons.prems(2) by auto
  then show ?case
    using Cons.IH [OF b1(2), of "cs @ chunks [a]"] Cons.prems(2)
    by (auto simp: chunks_Cons [of a acts] emitted_append)
qed simp

text \<open>A compressor that only adds a one-byte header, and a request that accepts it.\<close>

definition plain_codec :: codec where
  "plain_codec = \<lparr>z_write = (\<lambda>cs b. if cs = [] then CHR ''H'' # b else b), z_close = (\<lambda>cs. if cs = [] then ''H'' else [])\<rparr>"

definition sample_gzip_request :: request where
  "sample_gzip_request =
     \<lparr>r_Method = ''GET'', r_URL = \<lparr>u_Scheme = [], u_Host = [], u_Path = ''/'', u_RawQuery = []\<rparr>, r_Host = ''h'',
      r_Header = Header_Set Map.empty ''Accept-Encoding'' ''gzip'', r_RemoteAddr = ''10.0.0.1:5000'', r_TLS = False, r_Body = None,
      r_ctxBackend = None, r_ctxRequestID = None\<rparr>"

section \<open>Chains and identifiers\<close>

lemma Chain_loop_foldr: "i \<le> length ms \<Longrightarrow> Chain_loop h ms i = foldr (\<lambda>m. m) (take i ms) h"
  by (induction i arbitrary: h) (simp_all add: take_Suc_conv_app_nth)

text \<open>The first middleware is outermost.\<close>

lemma Chain_foldr: "Chain h ms = foldr (\<lambda>m. m) ms h"
  by (simp add: Chain_def Chain_loop_foldr)

lemma RequestID_consistent:
  "\<exists>i r' w'. RequestID uuid next r (s, w) = next r' (s, w') \<and> RequestIDFromContext r' = i \<and>
     Header_Get (r_Header r') ''X-Request-ID'' = i \<and> Header_Get (w_Header w') ''X-Request-ID'' = i \<and>
     i = (if Header_Get (r_Header r) ''X-Request-ID'' = [] then uuid else Header_Get (r_Header r) ''X-Request-ID'')"
proof -
  let ?i = "if Header_Get (r_Header r) ''X-Request-ID'' = [] then uuid else Header_Get (r_Header r) ''X-Request-ID''"
  let ?r = "r\<lparr>r_ctxRequestID := Some ?i, r_Header := Header_Set (r_Header r) ''X-Request-ID'' ?i\<rparr>"
  let ?w = "w_setHeader (\<lambda>h. Header_Set h ''X-Request-ID'' ?i) w"
  show ?thesis
    by (intro exI [of _ ?i] exI [of _ ?r] exI [of _ ?w])
      (simp add: RequestID_def RequestIDFromContext_def w_Header_def w_setHeader_def Header_Get_Set Let_def)
qed

section \<open>Properties\<close>

text \<open>C40: the header middlewares come too late. \<open>SecurityHeaders\<close> and the rewriter change the
  header map after the wrapped handler has returned: the response that is sent has their
  changes only when the handler sent nothing itself (no final \<open>WriteHeader\<close> and no \<open>Write\<close>);
  otherwise it is the response the handler sent, unchanged.\<close>

theorem Late_headers:
  "let w' = serve z (acts r) new_writer in
   rw_sent (finish_request (w_base (snd (SecurityHeaders (acting z acts) r (s, new_writer))))) =
     (if \<exists>a\<in>set (acts r). sends a then rw_sent (w_base w') else Some (200, security_header (w_Header w'))) \<and>
   rw_sent (finish_request (w_base (snd (Rewriter_Middleware hw (acting z acts) r (s, new_writer))))) =
     (if \<exists>a\<in>set (acts r). sends a then rw_sent (w_base w') else Some (200, rewrite_header hw (w_Header w')))"
proof -
  have "w_layers new_writer = []" "rw_sent (w_base new_writer) = None"
    by (simp_all add: new_writer_def new_response_def)
  from serve_sent [OF this, of "acts r" z] show ?thesis
    by (auto simp: SecurityHeaders_def Rewriter_Middleware_def acting_def w_setHeader_def finish_request_def
        rw_sent_WriteHeader w_Header_def Let_def split: if_splits)
qed

theorem Late_headers_witness:
  "rw_sent (finish_request (w_base (snd (SecurityHeaders (acting plain_codec (\<lambda>_. [HWrite ''ok''])) sample_gzip_request ((), new_writer))))) =
     Some (200, Map.empty)"
  using Late_headers [of plain_codec "\<lambda>_. [HWrite ''ok'']" sample_gzip_request "()"]
  by (simp add: Let_def new_writer_def new_response_def w_Write_def rw_sent_Write split_beta)

text \<open>The access log is accurate. Around a handler that gives its status at most once and
  before it writes, the logger leaves the response as it is without it and adds one line, with
  the status that is sent to the client and, unless the method is HEAD, the number of body bytes
  that are sent.\<close>

lemma writer_for_fresh [simp]:
  "w_layers (writer_for r) = []" "rw_sent (w_base (writer_for r)) = None" "rw_body (w_base (writer_for r)) = []"
  "rw_header (w_base (writer_for r)) = Map.empty" "rw_contentLength (w_base (writer_for r)) = None"
  "rw_head (w_base (writer_for r)) \<longleftrightarrow> r_Method r = ''HEAD''"
  by (simp_all add: writer_for_def new_response_def)

lemma finish_status:
  assumes "w_layers w = []" and "rw_sent (w_base w) = None"
  shows "map_option fst (rw_sent (finish_request (w_base (serve z acts w)))) = Some (first_code acts)"
proof (cases "\<exists>a\<in>set acts. sends a")
  case True
  then show ?thesis using serve_sent [OF assms, of acts z] by (auto simp: finish_request_def)
next
  case False
  have "first_code xs = 200" if "\<forall>a\<in>set xs. \<not> sends a" for xs
    using that by (induction xs rule: first_code.induct) auto
  then show ?thesis using False serve_sent [OF assms, of acts z]
    by (auto simp: finish_request_def rw_sent_WriteHeader)
qed

theorem AccessLogger_accurate:
  assumes "header_once (acts r)"
  shows "let ((lg', s'), w') = AccessLogger latency (acting z acts) r ((lg, s), writer_for r) in
    w' = serve z (acts r) (writer_for r) \<and> s' = s \<and>
    (\<exists>e. lg' = lg @ [e] \<and> le_method e = r_Method r \<and> le_path e = u_Path (r_URL r) \<and>
      le_client_ip e = mw_clientIP r \<and>
      map_option fst (rw_sent (finish_request (w_base w'))) = Some (le_status e) \<and>
      (r_Method r \<noteq> ''HEAD'' \<longrightarrow> le_bytes e = int (length (rw_body (w_base w')))))"
  using record_acts_bytes [of "writer_for r" z "acts r" 200 0] finish_status [of "writer_for r" z "acts r"]
    record_acts_status [of "RecorderLayer 200 0" z "acts r" "writer_for r"] header_once_codes [OF assms]
  by (simp add: AccessLogger_def newResponseRecorder_def acting_def recorder_serve Let_def)

theorem AccessLogger_accurate_witness:
  "let ((lg', s'), w') = AccessLogger 0 (acting plain_codec (\<lambda>_. [HWriteHeader 404, HWrite ''no''])) sample_gzip_request (([], ()), writer_for sample_gzip_request)
   in \<exists>e. lg' = [e] \<and> Some (le_status e) = map_option fst (rw_sent (finish_request (w_base w')))"
  using AccessLogger_accurate [of "\<lambda>_. [HWriteHeader 404, HWrite ''no'']" sample_gzip_request 0 plain_codec "[]" "()"]
  by (fastforce simp: Let_def split_beta final_code_def simp del: serve_Cons)

text \<open>
  The log counts bytes that are not sent: the body of an answer to HEAD is discarded by the server,
  and its length is returned to the recorder all the same.
\<close>

theorem AccessLogger_counts_discarded:
  "let ((lg', s'), w') = AccessLogger 0 (acting plain_codec (\<lambda>_. [HWrite ''hello''])) (sample_gzip_request\<lparr>r_Method := ''HEAD''\<rparr>)
       (([], ()), writer_for (sample_gzip_request\<lparr>r_Method := ''HEAD''\<rparr>))
   in map le_bytes lg' = [5] \<and> rw_body (w_base w') = []"
  by (simp add: AccessLogger_def newResponseRecorder_def acting_def push_layer_def pop_layer_def top_layer_def writer_for_def
      new_response_def w_Write_def base_Write_def base_WriteHeader_def body_allowed_def Header_Get_def wrapper_defs Let_def)

text \<open>C24: compression is faithful. For a client that accepts gzip, a request that is not a HEAD request, and a
  handler whose statuses are valid and allow a body, that leaves \<open>Content-Encoding\<close> alone and that does not write
  while it has a \<open>Content-Length\<close> declared (an explicit \<open>WriteHeader\<close> removes it): the client receives a
  response that announces gzip, declares no length, and whose body decompresses to exactly the bytes the handler wrote (under the
  documented property of the compressor that its output decompresses to its input), whatever their
  number and whatever the pooled compressor was used for before: \<open>minBytes\<close> plays no role.\<close>

theorem Gzip_roundtrip:
  assumes codec: "\<And>cs. gunzip (emitted z [] cs @ z_close z cs) = Some (concat cs)"
    and "Contains (Header_Get (r_Header r) ''Accept-Encoding'') ''gzip''" and "r_Method r \<noteq> ''HEAD''"
    and "\<forall>a\<in>set (acts r). gz_act a" and "length_undeclared False (acts r)"
  shows "let b = finish_request (w_base (snd (GzipMiddleware z minBytes (acting z acts) r ((pool, s), writer_for r))))
    in gunzip (rw_body b) = Some (concat (chunks (acts r))) \<and> rw_contentLength b = None \<and>
       (case rw_sent b of None \<Rightarrow> False | Some (code, h) \<Rightarrow> Header_Get h ''Content-Encoding'' = ''gzip'')"
proof -
  define b0 where "b0 = (w_base (writer_for r))\<lparr>rw_header := Header_Del (Header_Set Map.empty ''Content-Encoding'' ''gzip'') ''Content-Length''\<rparr>"
  have ok: "gz_inv (acts r) b0" and body: "rw_body b0 = []"
    using assms(3,5) by (auto simp: gz_inv_def gz_ok_def b0_def Header_Get_Del Header_Get_Set)
  obtain b1 where b1: "serve z (acts r) \<lparr>w_layers = [GzipLayer [] False], w_base = b0\<rparr> =
      \<lparr>w_layers = [GzipLayer (chunks (acts r)) False], w_base = b1\<rparr>" "gz_inv [] b1" "rw_body b1 = emitted z [] (chunks (acts r))"
    using gz_serve [OF ok assms(4), of z "[]"] body by auto
  let ?out = "z_close z (chunks (acts r))"
  define b2 where "b2 = (if ?out = [] then b1 else snd (base_Write ?out b1))"
  have "gz_inv [HWrite ?out] b1" using b1(2) by (auto simp: gz_inv_def)
  then have g2: "gz_inv [] b2" "rw_body b2 = emitted z [] (chunks (acts r)) @ ?out"
    using b1(2,3) gz_inv_Write [of ?out "[]" b1 ?out] by (auto simp: b2_def)
  have start: "push_layer (GzipLayer [] False) (w_setHeader (\<lambda>h. Header_Del h ''Content-Length'')
      (w_setHeader (\<lambda>h. Header_Set h ''Content-Encoding'' ''gzip'') (writer_for r))) = \<lparr>w_layers = [GzipLayer [] False], w_base = b0\<rparr>"
    by (simp add: push_layer_def w_setHeader_def writer_for_def new_response_def b0_def)
  have "w_base (snd (GzipMiddleware z minBytes (acting z acts) r ((pool, s), writer_for r))) = b2"
    using assms(2) start b1(1)
    by (simp add: GzipMiddleware_def gzip_Reset_def acting_def top_layer_def pop_layer_def w_Write_def b2_def split_beta Let_def)
  then show ?thesis using g2 codec [of "chunks (acts r)"]
    by (auto simp: Let_def finish_request_def base_WriteHeader_def gz_inv_def gz_ok_def split: option.splits)
qed

lemma plain_codec_emitted: "emitted plain_codec cs bs @ z_close plain_codec (cs @ bs) = (if cs = [] then ''H'' else []) @ concat bs"
proof (induction bs arbitrary: cs)
  case Nil
  then show ?case by (simp add: plain_codec_def)
next
  case (Cons b bs)
  have "z_write plain_codec cs b = (if cs = [] then ''H'' else []) @ b" by (simp add: plain_codec_def)
  then show ?case using Cons.IH [of "cs @ [b]"] by simp
qed

theorem Gzip_roundtrip_witness:
  "let b = finish_request (w_base (snd (GzipMiddleware plain_codec 1024 (acting plain_codec (\<lambda>_. [HWrite ''a'', HWrite ''b''])) sample_gzip_request (([[''old'']], ()), writer_for sample_gzip_request))))
   in tl (rw_body b) = ''ab''"
proof -
  let ?gunzip = "\<lambda>s :: string. case s of [] \<Rightarrow> None | c # cs \<Rightarrow> Some cs"
  have "?gunzip (emitted plain_codec [] cs @ z_close plain_codec cs) = Some (concat cs)" for cs
    using plain_codec_emitted [of "[]" cs] by simp
  moreover have "Contains (Header_Get (r_Header sample_gzip_request) ''Accept-Encoding'') ''gzip''"
    by (simp add: sample_gzip_request_def Header_Get_Set)
  moreover have "r_Method sample_gzip_request \<noteq> ''HEAD''" by (simp add: sample_gzip_request_def)
  ultimately show ?thesis
    using Gzip_roundtrip [of ?gunzip plain_codec sample_gzip_request "\<lambda>_. [HWrite ''a'', HWrite ''b'']" 1024 "[[''old'']]" "()"]
    by (auto simp: Let_def split: list.splits)
qed

text \<open>Compression can leave a wrong length. \<open>Content-Length\<close> is only removed before the
  handler runs and in an explicit \<open>WriteHeader\<close>: when a handler sets it and writes its body
  directly, its own length is sent with the compressed body, and where the compressed data is longer
  than that the server refuses to send it.\<close>

theorem Gzip_keeps_content_length:
  assumes "Contains (Header_Get (r_Header r) ''Accept-Encoding'') ''gzip''" and "r_Method r \<noteq> ''HEAD''"
    and "ParseLength n = Some k" and "n \<noteq> []" and "z_write z [] bs \<noteq> []" and "k < length (z_write z [] bs)"
  shows "let b = w_base (snd (GzipMiddleware z minBytes
      (acting z (\<lambda>_. [HSet ''Content-Length'' n, HWrite bs])) r ((pool, s), writer_for r))) in rw_body b = [] \<and>
      (case rw_sent b of
        None \<Rightarrow> False
      | Some (code, h) \<Rightarrow> code = 200 \<and> Header_Get h ''Content-Length'' = n \<and> Header_Get h ''Content-Encoding'' = ''gzip'')"
  using assms
  by (simp add: GzipMiddleware_def gzip_Reset_def gzip_Write_def acting_def push_layer_def pop_layer_def top_layer_def w_setHeader_def w_Write_def
      writer_for_def new_response_def base_Write_def base_WriteHeader_def body_allowed_def Header_Get_Set Header_Get_Del
      split_beta Let_def)

theorem Gzip_keeps_content_length_witness:
  "let b = w_base (snd (GzipMiddleware plain_codec 0
      (acting plain_codec (\<lambda>_. [HSet ''Content-Length'' ''2'', HWrite ''ab''])) sample_gzip_request (([], ()), writer_for sample_gzip_request)))
   in rw_body b = [] \<and> (case rw_sent b of
        None \<Rightarrow> False
      | Some (code, h) \<Rightarrow> code = 200 \<and> Header_Get h ''Content-Length'' = ''2'' \<and> Header_Get h ''Content-Encoding'' = ''gzip'')"
proof -
  have "ParseLength ''2'' = Some 2" by code_simp
  from Gzip_keeps_content_length [OF _ _ this, of sample_gzip_request plain_codec "''ab''" 0 "[]" "()"] show ?thesis
    by (simp add: sample_gzip_request_def Header_Get_Set plain_codec_def)
qed

end
