(* ===== verification/MiddlewareStack.thy ===== *)
theory MiddlewareStack
  imports Middleware
begin

text \<open>
  Middlewares in a stack: the access logger outside the compression. The recorder of the logger
  is then below the compressing writer, and what it counts are the compressed bytes.
\<close>

section \<open>A recorder at the bottom of the stack\<close>

definition logged :: "int \<Rightarrow> int \<Rightarrow> writer \<Rightarrow> writer" where
  "logged st k w = w\<lparr>w_layers := w_layers w @ [RecorderLayer st k]\<rparr>"

text \<open>The bytes added to the body.\<close>

definition growth :: "response_writer \<Rightarrow> response_writer \<Rightarrow> int" where
  "growth b b' = int (length (rw_body b')) - int (length (rw_body b))"

lemma base_Write_growth: "base_Write bs b = (n, b') \<Longrightarrow> \<not> rw_head b \<Longrightarrow> n = growth b b'"
  using base_Write_body [of bs b n b'] by (simp add: growth_def)

text \<open>The method of the request does not change.\<close>

lemma stack_Write_head: "rw_head (snd (snd (stack_Write z ls bs b))) = rw_head b"
  by (induction z ls bs b rule: stack_Write.induct) (auto simp: wrapper_defs Let_def split_beta)

lemma stack_WriteHeader_head: "rw_head (snd (stack_WriteHeader ls code b)) = rw_head b"
  by (induction ls code b rule: stack_WriteHeader.induct) (auto simp: wrapper_defs Let_def split_beta)

lemma w_setHeader_head [simp]: "rw_head (w_base (w_setHeader f w)) = rw_head (w_base w)"
  by (simp add: w_setHeader_def)

lemma w_hact_exec_head: "rw_head (w_base (hact_exec z a w)) = rw_head (w_base w)"
  by (cases a) (simp_all add: w_Write_def w_WriteHeader_def stack_Write_head stack_WriteHeader_head split_beta)

lemma serve_head [simp]: "rw_head (w_base (serve z acts w)) = rw_head (w_base w)"
  by (induction acts arbitrary: w) (simp_all add: w_hact_exec_head)

lemma stack_Write_logged:
  "stack_Write z ls bs b = (n, ls', b') \<Longrightarrow> \<not> rw_head b \<Longrightarrow>
   stack_Write z (ls @ [RecorderLayer st k]) bs b = (n, ls' @ [RecorderLayer st (k + growth b b')], b')"
proof (induction z ls bs b arbitrary: n ls' b' rule: stack_Write.induct)
  case (1 z bs b)
  then show ?case using base_Write_growth [of bs b] by (auto simp: wrapper_defs split: prod.splits)
qed (auto simp: wrapper_defs growth_def Let_def split: prod.splits if_splits)

lemma stack_WriteHeader_logged:
  "stack_WriteHeader ls code b = (ls', b') \<Longrightarrow>
   stack_WriteHeader (ls @ [RecorderLayer st k]) code b = (ls' @ [RecorderLayer code k], b')"
  by (induction ls code b arbitrary: ls' b' rule: stack_WriteHeader.induct)
    (auto simp: wrapper_defs Let_def split: prod.splits)

lemma stack_WriteHeader_body: "rw_body (snd (stack_WriteHeader ls code b)) = rw_body b"
  by (induction ls code b rule: stack_WriteHeader.induct)
    (auto simp: wrapper_defs Let_def split_beta)

lemma hact_exec_logged:
  assumes head: "\<not> rw_head (w_base w)"
  shows "hact_exec z a (logged st k w) =
     logged (last_code [a] st) (k + growth (w_base w) (w_base (hact_exec z a w))) (hact_exec z a w)"
proof (cases a)
  case (HWriteHeader code)
  obtain ls b where "stack_WriteHeader (w_layers w) code (w_base w) = (ls, b)" by fastforce
  with HWriteHeader stack_WriteHeader_logged [OF this] stack_WriteHeader_body [of "w_layers w" code "w_base w"] show ?thesis
    by (simp add: logged_def w_WriteHeader_def growth_def)
next
  case (HWrite bs)
  obtain n ls b where "stack_Write z (w_layers w) bs (w_base w) = (n, ls, b)" by (metis prod_cases3)
  with HWrite stack_Write_logged [OF this head] show ?thesis by (simp add: logged_def w_Write_def)
qed (simp_all add: logged_def w_setHeader_def growth_def)

lemma last_code_Cons: "last_code (a # acts) st = last_code acts (last_code [a] st)"
  by (cases a) simp_all

lemma serve_logged:
  "\<not> rw_head (w_base w) \<Longrightarrow> serve z acts (logged st k w) =
     logged (last_code acts st) (k + growth (w_base w) (w_base (serve z acts w))) (serve z acts w)"
proof (induction acts arbitrary: st k w)
  case Nil
  then show ?case by (simp add: growth_def)
next
  case (Cons a acts)
  then show ?case by (simp add: hact_exec_logged w_hact_exec_head last_code_Cons [of a acts] growth_def)
qed

text \<open>The wrappers keep their place.\<close>

lemma hact_exec_layers: "length (w_layers (hact_exec z a w)) = length (w_layers w)"
proof -
  have "length (fst (snd (stack_Write z ls bs b))) = length ls" for ls bs b
    by (induction z ls bs b rule: stack_Write.induct) (auto simp: wrapper_defs Let_def split_beta)
  moreover have "length (fst (stack_WriteHeader ls code b)) = length ls" for ls code b
    by (induction ls code b rule: stack_WriteHeader.induct) (auto simp: wrapper_defs Let_def split_beta)
  ultimately show ?thesis
    by (cases a) (simp_all add: w_setHeader_def w_Write_def w_WriteHeader_def split_beta)
qed

lemma serve_layers: "length (w_layers (serve z acts w)) = length (w_layers w)"
  by (induction acts arbitrary: w) (simp_all add: hact_exec_layers)

lemma logged_push [simp]: "push_layer l (logged st k w) = logged st k (push_layer l w)"
  by (simp add: push_layer_def logged_def)

lemma logged_top: "w_layers w \<noteq> [] \<Longrightarrow> top_layer (logged st k w) = top_layer w"
  by (simp add: top_layer_def logged_def)

lemma logged_pop: "w_layers w \<noteq> [] \<Longrightarrow> pop_layer (logged st k w) = logged st k (pop_layer w)"
  by (simp add: pop_layer_def logged_def)

lemma logged_setHeader [simp]: "w_setHeader f (logged st k w) = logged st k (w_setHeader f w)"
  by (simp add: w_setHeader_def logged_def)

lemma logged_Write: "\<not> rw_head (w_base w) \<Longrightarrow> w_Write z bs (logged st k w) = logged st (k + growth (w_base w) (w_base (w_Write z bs w))) (w_Write z bs w)"
  using hact_exec_logged [of w z "HWrite bs" st k] by simp

lemma base_setHeader_body [simp]: "rw_body (w_base (w_setHeader f w)) = rw_body (w_base w)"
  by (simp add: w_setHeader_def)

lemma base_layers [simp]: "w_base (push_layer l w) = w_base w" "w_base (pop_layer w) = w_base w"
  by (simp_all add: push_layer_def pop_layer_def)

lemma Gzip_logged:
  fixes acts :: "request \<Rightarrow> hact list"
  assumes "GzipMiddleware z minBytes (acting z acts) r ((pool, s), w) = (ps, w')" and head: "\<not> rw_head (w_base w)"
  shows "GzipMiddleware z minBytes (acting z acts) r ((pool, s), logged st k w) =
    (ps, logged (last_code (acts r) st) (k + growth (w_base w) (w_base w')) w')"
proof (cases "Contains (Header_Get (r_Header r) ''Accept-Encoding'') ''gzip''")
  case False
  then show ?thesis using assms by (auto simp: GzipMiddleware_def acting_def serve_logged split_beta)
next
  case True
  define w1 where "w1 = push_layer (GzipLayer [] False) (w_setHeader (\<lambda>h. Header_Del h ''Content-Length'')
      (w_setHeader (\<lambda>h. Header_Set h ''Content-Encoding'' ''gzip'') w))"
  have body: "rw_body (w_base w1) = rw_body (w_base w)" "rw_head (w_base w1) = rw_head (w_base w)" by (simp_all add: w1_def)
  have "w_layers w1 \<noteq> []" by (simp add: w1_def push_layer_def)
  then have ne: "w_layers (serve z (acts r) w1) \<noteq> []" by (metis serve_layers length_0_conv)
  show ?thesis using True assms
    by (auto simp: GzipMiddleware_def acting_def gzip_Reset_def split_beta Let_def serve_logged logged_top [OF ne]
        logged_pop [OF ne] logged_Write growth_def body simp flip: w1_def)
qed

lemma w_Write_layers: "length (w_layers (w_Write z bs w)) = length (w_layers w)"
  using hact_exec_layers [of z "HWrite bs" w] by simp

lemma layers_simps [simp]: "w_layers (w_setHeader f w) = w_layers w" "w_layers (push_layer l w) = l # w_layers w"
    "length (w_layers (pop_layer w)) = length (w_layers w) - 1"
  by (simp_all add: w_setHeader_def push_layer_def pop_layer_def)

lemma Gzip_layers:
  fixes acts :: "request \<Rightarrow> hact list"
  shows "length (w_layers (snd (GzipMiddleware z minBytes (acting z acts) r ((pool, s), w)))) = length (w_layers w)"
  by (simp add: GzipMiddleware_def acting_def split_beta Let_def w_Write_layers serve_layers)

section \<open>The status that is sent\<close>

definition sent_as :: "int \<Rightarrow> response_writer \<Rightarrow> bool" where
  "sent_as c b \<longleftrightarrow> (case rw_sent b of None \<Rightarrow> c = 200 | Some (code, h) \<Rightarrow> code = c)"

lemma sent_as_finish: "sent_as c b \<Longrightarrow> map_option fst (rw_sent (finish_request b)) = Some c"
  by (auto simp: sent_as_def finish_request_def rw_sent_WriteHeader split: option.splits)

lemma stack_Write_sent_as: "sent_as c b \<Longrightarrow> sent_as c (snd (snd (stack_Write z ls bs b)))"
proof (induction z ls bs b rule: stack_Write.induct)
  case (1 z bs b)
  then show ?case
    by (auto simp: sent_as_def rw_sent_Write split_beta Let_def split: option.splits)
qed (auto simp: wrapper_defs split_beta Let_def)

lemma stack_WriteHeader_sent:
  "rw_sent b = None \<Longrightarrow> final_code code \<Longrightarrow> sent_as code (snd (stack_WriteHeader ls code b))"
  by (induction ls code b rule: stack_WriteHeader.induct)
    (auto simp: wrapper_defs split_beta Let_def sent_as_def rw_sent_WriteHeader final_code_def)

lemma hact_exec_sent_as:
  "sent_as c (w_base w) \<Longrightarrow> \<forall>code. a \<noteq> HWriteHeader code \<Longrightarrow> sent_as c (w_base (hact_exec z a w))"
  using stack_Write_sent_as [of c "w_base w" z "w_layers w"]
  by (cases a) (auto simp: w_setHeader_def w_Write_def sent_as_def split_beta)

lemma serve_sent_as:
  "sent_as c (w_base w) \<Longrightarrow> \<forall>code. HWriteHeader code \<notin> set acts \<Longrightarrow> sent_as c (w_base (serve z acts w))"
proof (induction acts arbitrary: w)
  case (Cons a acts)
  have "sent_as c (w_base (hact_exec z a w))" using Cons.prems by (intro hact_exec_sent_as) auto
  then show ?case using Cons.IH Cons.prems(2) by simp
qed simp

lemma serve_status:
  "header_once acts \<Longrightarrow> rw_sent (w_base w) = None \<Longrightarrow> sent_as (last_code acts 200) (w_base (serve z acts w))"
proof (induction acts arbitrary: w)
  case Nil
  then show ?case by (simp add: sent_as_def)
next
  case (Cons a acts)
  show ?case
  proof (cases a)
    case (HWriteHeader code)
    have "sent_as code (w_base (hact_exec z a w))"
      using Cons.prems HWriteHeader stack_WriteHeader_sent [of "w_base w" code "w_layers w"]
      by (simp add: w_WriteHeader_def split_beta)
    then show ?thesis using serve_sent_as [of code _ acts z] Cons.prems(1) HWriteHeader
      by (simp add: last_code_none del: hact_exec.simps)
  next
    case (HWrite bs)
    have "sent_as 200 (w_base (hact_exec z a w))"
      using Cons.prems(2) HWrite by (intro hact_exec_sent_as) (auto simp: sent_as_def)
    then show ?thesis using serve_sent_as [of 200 _ acts z] Cons.prems(1) HWrite
      by (simp add: last_code_none del: hact_exec.simps)
  qed (use Cons in \<open>simp_all add: w_setHeader_def\<close>)
qed

lemma Gzip_status:
  fixes acts :: "request \<Rightarrow> hact list"
  assumes "GzipMiddleware z minBytes (acting z acts) r ((pool, s), writer_for r) = (ps, w')" and "header_once (acts r)"
  shows "sent_as (last_code (acts r) 200) (w_base w')"
proof -
  note st = serve_status [OF assms(2), where z = z]
  show ?thesis using assms(1)
    by (auto simp: GzipMiddleware_def acting_def split_beta Let_def w_Write_def
        intro!: st stack_Write_sent_as simp: push_layer_def pop_layer_def w_setHeader_def split: if_splits)
qed

section \<open>Properties\<close>

text \<open>C25: the access log of compressed responses is accurate. The access logger around the compression
  around a handler that gives a valid status at most once and before it writes, for a request that is not a
  HEAD request: for clients that accept compression and for those that do not, the response is the one
  without the logger, and the line it adds has the status that is sent and the number of body bytes that the server
  accepted, that is of compressed bytes where the response is compressed.\<close>

theorem Logged_compression_accurate:
  assumes "header_once (acts r)" and "r_Method r \<noteq> ''HEAD''"
  shows "let ((lg', ps), w') = AccessLogger latency (GzipMiddleware z minBytes (acting z acts)) r ((lg, pool, s), writer_for r) in
    (ps, w') = GzipMiddleware z minBytes (acting z acts) r ((pool, s), writer_for r) \<and>
    (\<exists>e. lg' = lg @ [e] \<and> map_option fst (rw_sent (finish_request (w_base w'))) = Some (le_status e) \<and>
      le_bytes e = int (length (rw_body (w_base w'))))"
proof -
  obtain ps w' where gz: "GzipMiddleware z minBytes (acting z acts) r ((pool, s), writer_for r) = (ps, w')" by fastforce
  have "push_layer newResponseRecorder (writer_for r) = logged 200 0 (writer_for r)"
    by (simp add: push_layer_def logged_def newResponseRecorder_def writer_for_def)
  moreover have "w_layers w' = []"
    using Gzip_layers [of z minBytes acts r pool s "writer_for r"] unfolding gz by simp
  ultimately show ?thesis
    using gz Gzip_logged [OF gz, of 200 0] sent_as_finish [OF Gzip_status [OF gz assms(1)]] assms(2)
    by (simp add: AccessLogger_def top_layer_def pop_layer_def logged_def growth_def Let_def split_beta)
qed

theorem Logged_compression_accurate_witness:
  "let ((lg', ps), w') = AccessLogger 0 (GzipMiddleware plain_codec 0 (acting plain_codec (\<lambda>_. [HWriteHeader 404, HWrite ''no''])))
       sample_gzip_request (([], [], ()), writer_for sample_gzip_request)
   in \<exists>e. lg' = [e] \<and> map_option fst (rw_sent (finish_request (w_base w'))) = Some (le_status e) \<and>
      le_bytes e = int (length (rw_body (w_base w')))"
proof -
  have "r_Method sample_gzip_request \<noteq> ''HEAD''" by (simp add: sample_gzip_request_def)
  with Logged_compression_accurate [of "\<lambda>_. [HWriteHeader 404, HWrite ''no'']" sample_gzip_request 0 plain_codec 0 "[]" "[]" "()"]
  show ?thesis by (simp add: final_code_def split_beta Let_def)
qed

end
