(* ===== verification/Metrics.thy ===== *)
theory Metrics
  imports Middleware "HOL-Library.Multiset"
begin

text \<open>
  \<open>internal/metrics\<close>: the collector with its six metrics and the handler that updates them. The
  Prometheus client is a parameter: \<open>register\<close> stands for what \<open>promauto\<close> does with a new metric
  (a panic when it cannot be registered), \<open>with_labels\<close> for \<open>WithLabelValues\<close>. The updates of
  metrics are recorded in the order in which they are made.
\<close>

section \<open>The collector\<close>

datatype vec_kind = CounterVec | GaugeVec | HistogramVec "rat list"

record vec =
  v_Kind :: vec_kind
  v_Name :: string
  v_Help :: string
  v_Labels :: "string list"

record collector =
  cl_RequestsTotal :: vec
  cl_RequestDuration :: vec
  cl_ActiveConns :: vec
  cl_BackendHealth :: vec
  cl_CircuitState :: vec
  cl_UpstreamErrors :: vec

text \<open>The metrics in the order in which they are registered; \<open>buckets\<close> is \<open>prometheus.DefBuckets\<close>.\<close>

definition new_collector :: "rat list \<Rightarrow> collector" where
  "new_collector buckets =
     \<lparr>cl_RequestsTotal = \<lparr>v_Kind = CounterVec, v_Name = ''gobalancer_requests_total'',
        v_Help = ''Total number of proxied requests.'', v_Labels = [''backend'', ''status_class'']\<rparr>,
      cl_RequestDuration = \<lparr>v_Kind = HistogramVec buckets, v_Name = ''gobalancer_request_duration_seconds'',
        v_Help = ''Latency of proxied requests.'', v_Labels = [''backend'', ''route'']\<rparr>,
      cl_ActiveConns = \<lparr>v_Kind = GaugeVec, v_Name = ''gobalancer_active_connections'',
        v_Help = ''Number of active upstream connections per backend.'', v_Labels = [''backend'']\<rparr>,
      cl_BackendHealth = \<lparr>v_Kind = GaugeVec, v_Name = ''gobalancer_backend_health'',
        v_Help = ''Backend health: 0=down, 1=up, 2=probation.'', v_Labels = [''backend'']\<rparr>,
      cl_CircuitState = \<lparr>v_Kind = GaugeVec, v_Name = ''gobalancer_circuit_breaker_state'',
        v_Help = ''Circuit breaker state: 0=closed, 1=open, 2=half-open.'', v_Labels = [''backend'']\<rparr>,
      cl_UpstreamErrors = \<lparr>v_Kind = CounterVec, v_Name = ''gobalancer_upstream_errors_total'',
        v_Help = ''Number of upstream errors per backend and type.'', v_Labels = [''backend'', ''type'']\<rparr>\<rparr>"

definition vecs_of :: "collector \<Rightarrow> vec list" where
  "vecs_of c = [cl_RequestsTotal c, cl_RequestDuration c, cl_ActiveConns c, cl_BackendHealth c,
     cl_CircuitState c, cl_UpstreamErrors c]"

fun register_all :: "(vec \<Rightarrow> 'g \<Rightarrow> 'g outcome) \<Rightarrow> vec list \<Rightarrow> 'g \<Rightarrow> 'g outcome" where
  "register_all register [] g = Return g"
| "register_all register (v # vs) g = bind_outcome (register v g) (register_all register vs)"

definition Metrics_New :: "rat list \<Rightarrow> (vec \<Rightarrow> 'g \<Rightarrow> 'g outcome) \<Rightarrow> 'g \<Rightarrow> (collector \<times> 'g) outcome" where
  "Metrics_New buckets register g =
     (let c = new_collector buckets
      in bind_outcome (register_all register (vecs_of c) g) (\<lambda>g. Return (c, g)))"

section \<open>Instrumentation\<close>






section \<open>What the program relies on\<close>


text \<open>Registering a metric fails exactly if its name is taken.\<close>

definition register_ok :: "(vec \<Rightarrow> 'g \<Rightarrow> 'g outcome) \<Rightarrow> ('g \<Rightarrow> string set) \<Rightarrow> bool" where
  "register_ok register names \<longleftrightarrow>
     (\<forall>v g. if v_Name v \<in> names g then register v g = Panic PackagePanic
            else \<exists>g'. register v g = Return g' \<and> names g' = insert (v_Name v) (names g))"

lemma register_all_ok:
  assumes "register_ok register names"
  shows "distinct (map v_Name vs) \<Longrightarrow> v_Name ` set vs \<inter> names g = {} \<Longrightarrow>
      \<exists>g'. register_all register vs g = Return g' \<and> names g' = names g \<union> v_Name ` set vs"
    and "v_Name ` set vs \<inter> names g \<noteq> {} \<Longrightarrow> register_all register vs g = Panic PackagePanic"
proof (induction vs arbitrary: g)
  case (Cons v vs)
  note reg = assms [unfolded register_ok_def, rule_format, of v]
  {
    case 1
    then obtain g1 where g1: "register v g = Return g1" "names g1 = insert (v_Name v) (names g)"
      using reg [of g] by (auto split: if_splits)
    have "\<exists>g'. register_all register vs g1 = Return g' \<and> names g' = names g1 \<union> v_Name ` set vs"
      using 1 g1(2) by (intro Cons.IH(1)) auto
    then show ?case using g1 by auto
  next
    case 2
    show ?case
    proof (cases "v_Name v \<in> names g")
      case True
      then show ?thesis using reg [of g] by simp
    next
      case False
      then obtain g1 where g1: "register v g = Return g1" "names g1 = insert (v_Name v) (names g)"
        using reg [of g] by (auto split: if_splits)
      have "register_all register vs g1 = Panic PackagePanic"
        using 2 False g1(2) by (intro Cons.IH(2)) auto
      then show ?thesis using g1(1) by simp
    qed
  }
qed simp_all

lemma vec_names: "map v_Name (vecs_of (new_collector buckets)) =
    [''gobalancer_requests_total'', ''gobalancer_request_duration_seconds'', ''gobalancer_active_connections'',
     ''gobalancer_backend_health'', ''gobalancer_circuit_breaker_state'', ''gobalancer_upstream_errors_total'']"
  by (simp add: vecs_of_def new_collector_def)



section \<open>Requests and what is recorded of them\<close>

















section \<open>Properties\<close>


text \<open>A client library with a list of the registered names, and metrics named by their labels.\<close>

definition name_list_register :: "vec \<Rightarrow> string list \<Rightarrow> string list outcome" where
  "name_list_register v g = (if v_Name v \<in> set g then Panic PackagePanic else Return (v_Name v # g))"





text \<open>The metrics are registered once. Under the documented behaviour of the registry that a name
  can be registered once only, \<open>New\<close> returns exactly when none of its six names is taken, registers
  exactly these, and a second call of \<open>New\<close> panics.\<close>

theorem Metrics_New_once:
  assumes "register_ok register names"
  shows "((\<exists>c g'. Metrics_New buckets register g = Return (c, g')) \<longleftrightarrow>
      v_Name ` set (vecs_of (new_collector buckets)) \<inter> names g = {}) \<and>
    (Metrics_New buckets register g = Return (c, g') \<longrightarrow>
      names g' = names g \<union> v_Name ` set (vecs_of (new_collector buckets)) \<and>
      Metrics_New buckets' register g' = Panic PackagePanic)"
proof -
  let ?vs = "\<lambda>b. vecs_of (new_collector b)"
  have dist: "distinct (map v_Name (?vs b))" for b by (simp add: vec_names)
  note ok = register_all_ok [OF assms]
  have new: "Metrics_New b register h = bind_outcome (register_all register (?vs b) h) (\<lambda>g. Return (new_collector b, g))" for b h
    by (simp add: Metrics_New_def Let_def)
  have same: "v_Name ` set (?vs b) = v_Name ` set (?vs b')" for b b'
    using vec_names [of b] vec_names [of b'] by (metis list.set_map)
  show ?thesis
  proof (cases "v_Name ` set (?vs buckets) \<inter> names g = {}")
    case True
    obtain h where h: "register_all register (?vs buckets) g = Return h" "names h = names g \<union> v_Name ` set (?vs buckets)"
      using ok(1) [OF dist True] by blast
    have "v_Name ` set (?vs buckets') \<inter> names h \<noteq> {}"
      using h(2) same [of buckets' buckets] by (auto simp: vecs_of_def)
    from ok(2) [OF this] show ?thesis using True h by (auto simp: new)
  next
    case False
    then show ?thesis using ok(2) [OF False] by (simp add: new)
  qed
qed

theorem Metrics_New_once_witness:
  "\<exists>c g'. Metrics_New [1] name_list_register [''go_goroutines''] = Return (c, g') \<and>
     Metrics_New [1] name_list_register g' = Panic PackagePanic"
proof -
  have ok: "register_ok name_list_register set" by (auto simp: register_ok_def name_list_register_def)
  obtain c g' where n: "Metrics_New [1] name_list_register [''go_goroutines''] = Return (c, g')"
    by (simp add: Metrics_New_def name_list_register_def vecs_of_def new_collector_def)
  with Metrics_New_once [OF ok, of "[1]" "[''go_goroutines'']" c g' "[1]"] show ?thesis by blast
qed

end
