(* ===== verification/Timeout.thy ===== *)
theory Timeout
  imports Middleware
begin

text \<open>
  \<open>TimeoutMiddleware\<close> of \<open>internal/proxy/middleware.go\<close>, that is \<open>http.TimeoutHandler\<close> with its body: the
  wrapped handler runs in its own goroutine on a buffer; the middleware waits for it, for the
  deadline or for the cancellation of the request, whichever it sees first, and answers once; a
  panic of the handler is raised again by the middleware.
  A run is any interleaving of the operations of the handler, of the clock and of the answer.
\<close>

section \<open>The buffer of the handler\<close>

datatype ctx_err = DeadlineExceeded | Canceled

record timeout_writer =
  tw_header :: header
  tw_wbuf :: string
  tw_wroteHeader :: bool
  tw_code :: int
  tw_err :: "ctx_err option"

definition new_timeout_writer :: timeout_writer where
  "new_timeout_writer = \<lparr>tw_header = Map.empty, tw_wbuf = [], tw_wroteHeader = False, tw_code = 0, tw_err = None\<rparr>"

definition tw_WriteHeader :: "int \<Rightarrow> timeout_writer \<Rightarrow> timeout_writer" where
  "tw_WriteHeader code tw =
     (if tw_err tw \<noteq> None then tw
      else if tw_wroteHeader tw then tw
      else tw\<lparr>tw_wroteHeader := True, tw_code := code\<rparr>)"

definition tw_Write :: "string \<Rightarrow> timeout_writer \<Rightarrow> timeout_writer" where
  "tw_Write bs tw =
     (if tw_err tw \<noteq> None then tw
      else (let tw = (if tw_wroteHeader tw then tw else tw_WriteHeader 200 tw)
            in tw\<lparr>tw_wbuf := tw_wbuf tw @ bs\<rparr>))"

fun tw_exec :: "hact \<Rightarrow> timeout_writer \<Rightarrow> timeout_writer" where
  "tw_exec (HSet k v) tw = tw\<lparr>tw_header := Header_Set (tw_header tw) k v\<rparr>"
| "tw_exec (HDel k) tw = tw\<lparr>tw_header := Header_Del (tw_header tw) k\<rparr>"
| "tw_exec (HWriteHeader code) tw = tw_WriteHeader code tw"
| "tw_exec (HWrite bs) tw = tw_Write bs tw"

section \<open>The middleware\<close>

text \<open>
  \<open>to_todo\<close> is what the handler has still to do, \<open>to_done\<close> that its goroutine closed the channel,
  \<open>to_panic\<close> the panic that ended it, \<open>to_ctx\<close> how the context of the request ended, and
  \<open>to_returned\<close> that the middleware answered, with a panic of its own in \<open>to_raised\<close>.
\<close>

record to_state =
  to_w :: writer
  to_tw :: timeout_writer
  to_todo :: "hact list"
  to_done :: bool
  to_panic :: "go_panic option"
  to_ctx :: "ctx_err option"
  to_elapsed :: duration
  to_returned :: bool
  to_raised :: "go_panic option"

datatype to_event = HandlerOp | HandlerReturn | HandlerPanic go_panic | AnswerPanic | Clock duration | Deadline | ClientGone | AnswerDone | AnswerCtx

definition answer_done :: "codec \<Rightarrow> timeout_writer \<Rightarrow> writer \<Rightarrow> writer" where
  "answer_done z tw w =
     (let w = w_setHeader (\<lambda>h. h ++ tw_header tw) w;
          code = (if tw_wroteHeader tw then tw_code tw else 200);
          w = w_WriteHeader code w
      in w_Write z (tw_wbuf tw) w)"

fun answer_ctx :: "codec \<Rightarrow> string \<Rightarrow> ctx_err \<Rightarrow> writer \<Rightarrow> writer" where
  "answer_ctx z bdy DeadlineExceeded w = w_Write z bdy (w_WriteHeader 503 w)"
| "answer_ctx z bdy Canceled w = w_WriteHeader 503 w"

fun TimeoutHandler :: "codec \<Rightarrow> duration \<Rightarrow> string \<Rightarrow> to_state \<Rightarrow> to_event \<Rightarrow> to_state option" where
  "TimeoutHandler z d bdy s HandlerOp =
     (case to_todo s of
        [] \<Rightarrow> None
      | a # acts \<Rightarrow>
          if to_panic s = None then Some (s\<lparr>to_tw := tw_exec a (to_tw s), to_todo := acts\<rparr>) else None)"
| "TimeoutHandler z d bdy s (HandlerPanic p) =
     (if to_panic s = None \<and> \<not> to_done s then Some (s\<lparr>to_panic := Some p\<rparr>) else None)"
| "TimeoutHandler z d bdy s AnswerPanic =
     (case to_panic s of
        None \<Rightarrow> None
      | Some p \<Rightarrow> if to_returned s then None else Some (s\<lparr>to_raised := Some p, to_returned := True\<rparr>))"
| "TimeoutHandler z d bdy s HandlerReturn =
     (if to_todo s = [] \<and> to_panic s = None \<and> \<not> to_done s then Some (s\<lparr>to_done := True\<rparr>) else None)"
| "TimeoutHandler z d bdy s (Clock t) = (if 0 \<le> t then Some (s\<lparr>to_elapsed := to_elapsed s + t\<rparr>) else None)"
| "TimeoutHandler z d bdy s Deadline =
     (if to_ctx s = None \<and> d \<le> to_elapsed s then Some (s\<lparr>to_ctx := Some DeadlineExceeded\<rparr>) else None)"
| "TimeoutHandler z d bdy s ClientGone =
     (if to_ctx s = None then Some (s\<lparr>to_ctx := Some Canceled\<rparr>) else None)"
| "TimeoutHandler z d bdy s AnswerDone =
     (if to_done s \<and> \<not> to_returned s
      then Some (s\<lparr>to_w := answer_done z (to_tw s) (to_w s), to_returned := True\<rparr>) else None)"
| "TimeoutHandler z d bdy s AnswerCtx =
     (case to_ctx s of
        None \<Rightarrow> None
      | Some e \<Rightarrow>
          if to_returned s then None
          else Some (s\<lparr>to_w := answer_ctx z bdy e (to_w s), to_tw := (to_tw s)\<lparr>tw_err := Some e\<rparr>, to_returned := True\<rparr>))"

definition timeout_body :: string where
  "timeout_body = ''{'' @ [CHR 0x22] @ ''error'' @ [CHR 0x22] @ '':'' @ [CHR 0x22] @ ''request timeout'' @ [CHR 0x22] @ ''}''"

definition TimeoutMiddleware :: "codec \<Rightarrow> duration \<Rightarrow> to_state \<Rightarrow> to_event \<Rightarrow> to_state option" where
  "TimeoutMiddleware z d = TimeoutHandler z d timeout_body"

definition to_init :: "hact list \<Rightarrow> writer \<Rightarrow> to_state" where
  "to_init acts w = \<lparr>to_w = w, to_tw = new_timeout_writer, to_todo = acts, to_done = False, to_panic = None, to_ctx = None,
     to_elapsed = 0, to_returned = False, to_raised = None\<rparr>"

section \<open>The invariant\<close>

text \<open>The answers the middleware can give to the client of \<open>w\<close>.\<close>

definition timeout_answer :: "header \<Rightarrow> writer \<Rightarrow> bool" where
  "timeout_answer h w \<longleftrightarrow> rw_sent (w_base w) = Some (503, h) \<and> rw_body (w_base w) = timeout_body"

definition gone_answer :: "header \<Rightarrow> writer \<Rightarrow> bool" where
  "gone_answer h w \<longleftrightarrow> rw_sent (w_base w) = Some (503, h) \<and> rw_body (w_base w) = []"

definition fresh_writer :: "writer \<Rightarrow> bool" where
  "fresh_writer w \<longleftrightarrow> w_layers w = [] \<and> \<not> rw_head (w_base w) \<and> rw_sent (w_base w) = None \<and> rw_body (w_base w) = [] \<and>
     rw_contentLength (w_base w) = None \<and> Header_Get (w_Header w) ''Content-Length'' = []"

definition to_inv :: "codec \<Rightarrow> duration \<Rightarrow> hact list \<Rightarrow> writer \<Rightarrow> to_state \<Rightarrow> bool" where
  "to_inv z d acts w s \<longleftrightarrow>
     (to_done s \<longrightarrow> to_todo s = [] \<and> to_panic s = None) \<and> (to_ctx s = Some DeadlineExceeded \<longrightarrow> d \<le> to_elapsed s) \<and>
     (\<not> to_returned s \<longrightarrow> to_w s = w \<and> (\<exists>pre. acts = pre @ to_todo s \<and> to_tw s = fold tw_exec pre new_timeout_writer)) \<and>
     (to_returned s \<longrightarrow>
        to_ctx s = Some DeadlineExceeded \<and> timeout_answer (w_Header w) (to_w s) \<or>
        to_ctx s = Some Canceled \<and> gone_answer (w_Header w) (to_w s) \<or>
        to_panic s \<noteq> None \<and> to_raised s = to_panic s \<and> to_w s = w \<or>
        to_done s \<and> to_w s = answer_done z (fold tw_exec acts new_timeout_writer) w)"

lemma answer_ctx_503:
  assumes "fresh_writer w"
  shows "timeout_answer (w_Header w) (answer_ctx z timeout_body DeadlineExceeded w)"
    and "gone_answer (w_Header w) (answer_ctx z bdy Canceled w)"
  using assms by (simp_all add: timeout_answer_def gone_answer_def fresh_writer_def w_WriteHeader_def w_Write_def
      base_WriteHeader_def base_Write_def body_allowed_def w_Header_def timeout_body_def)

lemma to_inv_step:
  assumes "to_inv z d acts w s" and "fresh_writer w"
    and "TimeoutMiddleware z d s ev = Some s'"
  shows "to_inv z d acts w s'"
  using assms(3) unfolding TimeoutMiddleware_def
proof (cases ev)
  case HandlerOp
  then obtain a rest where todo: "to_todo s = a # rest"
    and s': "s' = s\<lparr>to_tw := tw_exec a (to_tw s), to_todo := rest\<rparr>"
    using assms(3) by (auto simp: TimeoutMiddleware_def split: list.splits if_splits)
  have "\<exists>pre. acts = pre @ rest \<and> tw_exec a (to_tw s) = fold tw_exec pre new_timeout_writer" if nr: "\<not> to_returned s"
  proof -
    obtain pre where "acts = pre @ a # rest" "to_tw s = fold tw_exec pre new_timeout_writer"
      using assms(1) nr todo by (auto simp: to_inv_def)
    then show ?thesis by (intro exI [of _ "pre @ [a]"]) simp
  qed
  then show ?thesis using assms(1) todo by (auto simp: to_inv_def s')
next
  case AnswerDone
  then have s': "s' = s\<lparr>to_w := answer_done z (to_tw s) (to_w s), to_returned := True\<rparr>" "to_done s" "\<not> to_returned s"
    using assms(3) by (auto simp: TimeoutMiddleware_def split: if_splits)
  then have "to_tw s = fold tw_exec acts new_timeout_writer" "to_w s = w" using assms(1) by (auto simp: to_inv_def)
  then show ?thesis using assms(1) s' by (auto simp: to_inv_def)
next
  case AnswerCtx
  then obtain e where "to_ctx s = Some e" "\<not> to_returned s" "s' = s\<lparr>to_w := answer_ctx z timeout_body e (to_w s),
      to_tw := (to_tw s)\<lparr>tw_err := Some e\<rparr>, to_returned := True\<rparr>"
    using assms(3) by (auto simp: TimeoutMiddleware_def split: option.splits if_splits)
  then show ?thesis using assms(1) answer_ctx_503 [OF assms(2), of z] by (cases e) (auto simp: to_inv_def)
next
  case HandlerReturn
  then have "s' = s\<lparr>to_done := True\<rparr>" "to_todo s = []" "to_panic s = None"
    using assms(3) by (auto simp: TimeoutMiddleware_def split: if_splits)
  then show ?thesis using assms(1) unfolding to_inv_def by (cases "to_returned s") auto
next
  case (HandlerPanic p)
  then have "s' = s\<lparr>to_panic := Some p\<rparr>" "to_panic s = None" "\<not> to_done s"
    using assms(3) by (auto simp: TimeoutMiddleware_def split: if_splits)
  then show ?thesis using assms(1) unfolding to_inv_def by (cases "to_returned s") auto
next
  case AnswerPanic
  then obtain p where "s' = s\<lparr>to_raised := Some p, to_returned := True\<rparr>" "to_panic s = Some p" "\<not> to_returned s"
    using assms(3) by (auto simp: TimeoutMiddleware_def split: if_splits option.splits)
  then show ?thesis using assms(1) unfolding to_inv_def by simp
next
  case (Clock t)
  then have "s' = s\<lparr>to_elapsed := to_elapsed s + t\<rparr>" "0 \<le> t"
    using assms(3) by (auto simp: TimeoutMiddleware_def split: if_splits)
  then show ?thesis using assms(1) unfolding to_inv_def by (cases "to_ctx s = Some DeadlineExceeded") simp_all
next
  case Deadline
  then have "s' = s\<lparr>to_ctx := Some DeadlineExceeded\<rparr>" "to_ctx s = None" "d \<le> to_elapsed s"
    using assms(3) by (auto simp: TimeoutMiddleware_def split: if_splits)
  then show ?thesis using assms(1) unfolding to_inv_def by simp
next
  case ClientGone
  then have "s' = s\<lparr>to_ctx := Some Canceled\<rparr>" "to_ctx s = None"
    using assms(3) by (auto simp: TimeoutMiddleware_def split: if_splits)
  then show ?thesis using assms(1) unfolding to_inv_def by simp
qed

interpretation tos: transition_system "\<lambda>s. s = to_init acts w \<and> fresh_writer w"
  "\<lambda>s ev s'. TimeoutMiddleware z d s ev = Some s'" "\<lambda>s. to_inv z d acts w s \<and> fresh_writer w"
  for acts w z d
proof unfold_locales
  fix s assume "s = to_init acts w \<and> fresh_writer w"
  then show "to_inv z d acts w s \<and> fresh_writer w" by (auto simp: to_inv_def to_init_def)
qed (auto intro: to_inv_step)

section \<open>Properties\<close>

text \<open>A request that is limited in time is answered completely or not at all. Whatever the
  interleaving of the handler, the clock and the end of the request, the client sees nothing until
  the middleware answers, and then exactly one of: status 503 with the message of
  the middleware, only if the time limit has passed; status 503 without a body, only if the request
  was cancelled; nothing and a panic, that of the handler; or, only when the handler has returned, everything it
  buffered. What the handler does after a timeout changes nothing.\<close>

theorem TimeoutMiddleware_all_or_nothing:
  assumes "run (\<lambda>s ev s'. TimeoutMiddleware z d s ev = Some s') (to_init acts w) evs s" and "fresh_writer w"
  shows "(\<not> to_returned s \<longrightarrow> to_w s = w) \<and>
    (to_returned s \<longrightarrow>
       d \<le> to_elapsed s \<and> rw_sent (w_base (to_w s)) = Some (503, w_Header w) \<and> rw_body (w_base (to_w s)) = timeout_body \<or>
       to_ctx s = Some Canceled \<and> rw_sent (w_base (to_w s)) = Some (503, w_Header w) \<and> rw_body (w_base (to_w s)) = [] \<or>
       to_panic s \<noteq> None \<and> to_raised s = to_panic s \<and> to_w s = w \<or>
       to_done s \<and> to_todo s = [] \<and> to_w s = answer_done z (fold tw_exec acts new_timeout_writer) w)"
proof -
  have "to_inv z d acts w s" using tos.reachable_invar [OF _ assms(1)] assms(2) by blast
  then show ?thesis unfolding to_inv_def timeout_answer_def gone_answer_def by blast
qed

interpretation tosch: scheduler "\<lambda>s ev s'. TimeoutMiddleware z d s ev = Some s'"
  "\<lambda>s ev. map_option (Pair ev) (TimeoutMiddleware z d s ev)" for z d
  by unfold_locales auto

text \<open>The deadline passes between two writes; the handler goes on after the answer.\<close>

theorem TimeoutMiddleware_all_or_nothing_witness:
  "\<exists>evs s. run (\<lambda>s ev s'. TimeoutMiddleware plain_codec second s ev = Some s')
       (to_init [HSet ''X'' ''1'', HWrite ''a'', HWrite ''b''] new_writer) evs s \<and>
     to_todo s = [] \<and> rw_sent (w_base (to_w s)) = Some (503, Map.empty) \<and> rw_body (w_base (to_w s)) = timeout_body"
proof -
  let ?acts = "[HSet ''X'' ''1'', HWrite ''a'', HWrite ''b'']"
  obtain evs s where ex: "exec (\<lambda>s ev. map_option (Pair ev) (TimeoutMiddleware plain_codec second s ev))
      (to_init ?acts new_writer) [HandlerOp, HandlerOp, Clock second, Deadline, AnswerCtx, HandlerOp] = Some (evs, s)"
    and s: "to_returned s" "to_todo s = []" "\<not> to_done s" "to_panic s = None" "to_ctx s = Some DeadlineExceeded"
    by (simp add: TimeoutMiddleware_def to_init_def)
  note r = tosch.exec_run [OF ex]
  have "fresh_writer new_writer"
    by (simp add: fresh_writer_def new_writer_def new_response_def w_Header_def Header_Get_def)
  from TimeoutMiddleware_all_or_nothing [OF r this] s r show ?thesis
    by (auto simp: new_writer_def new_response_def w_Header_def)
qed

end
