(* ===== verification/Routing.thy ===== *)
theory Routing
  imports Http Float64 "HOL-Library.Sublist"
begin

text \<open>
  \<open>internal/routing\<close>: the path trie (\<open>trie.go\<close>), host and header routers
  (\<open>host.go\<close>, \<open>header.go\<close>), the canary split (\<open>canary.go\<close>) and traffic shadowing
  (\<open>shadow.go\<close>). Regular expressions, the random generator and the parsing of the shadow URL
  are parameters. The routers' methods hold their lock for the whole call and are one step
  each. The trie is related to a table from segment lists to pools: \<open>Add\<close> updates the table at
  one key and \<open>Match\<close> finds the longest registered prefix.
\<close>

section \<open>The path trie\<close>

datatype trieNode = TrieNode "string \<rightharpoonup> trieNode" string

definition NewPathTrie :: trieNode where
  "NewPathTrie = TrieNode Map.empty []"

text \<open>The loop of \<open>Add\<close> descends and creates nodes; the store at the end sets the pool.\<close>

fun Add_loop :: "string list \<Rightarrow> string \<Rightarrow> trieNode \<Rightarrow> trieNode" where
  "Add_loop [] pool (TrieNode children p) = TrieNode children pool"
| "Add_loop (seg # segments) pool (TrieNode children p) =
     (if seg = [] then Add_loop segments pool (TrieNode children p)
      else (let child = (case children seg of None \<Rightarrow> TrieNode Map.empty [] | Some c \<Rightarrow> c)
            in TrieNode (children(seg \<mapsto> Add_loop segments pool child)) p))"

definition PathTrie_Add :: "trieNode \<Rightarrow> string \<Rightarrow> string \<Rightarrow> trieNode" where
  "PathTrie_Add t pre pool = Add_loop (Split (Trim pre CHR ''/'') CHR ''/'') pool t"

fun Match_loop :: "string list \<Rightarrow> trieNode \<Rightarrow> string \<Rightarrow> string" where
  "Match_loop [] node best = best"
| "Match_loop (seg # segments) (TrieNode children p) best =
     (if seg = [] then Match_loop segments (TrieNode children p) best
      else (case children seg of
              None \<Rightarrow> best
            | Some (TrieNode ch q) \<Rightarrow> Match_loop segments (TrieNode ch q) (if q \<noteq> [] then q else best)))"

fun node_pool :: "trieNode \<Rightarrow> string" where
  "node_pool (TrieNode children p) = p"

definition PathTrie_Match :: "trieNode \<Rightarrow> request \<Rightarrow> string \<times> bool" where
  "PathTrie_Match t r =
     (let path = Trim (u_Path (r_URL r)) CHR ''/'';
          best = Match_loop (Split path CHR ''/'') t []
      in if best \<noteq> [] then (best, True)
         else if node_pool t \<noteq> [] then (node_pool t, True)
         else ([], False))"

section \<open>Host and header routers\<close>

type_synonym host_router = "string \<rightharpoonup> string"

definition NewHostRouter :: host_router where
  "NewHostRouter = Map.empty"

definition HostRouter_Add :: "host_router \<Rightarrow> string \<Rightarrow> string \<Rightarrow> host_router" where
  "HostRouter_Add h host pool = h(host \<mapsto> pool)"

definition strip_port :: "string \<Rightarrow> string" where
  "strip_port host =
     (if host \<noteq> [] \<and> last host \<noteq> CHR '']''
      then (case last_index_byte CHR '':'' host of Some j \<Rightarrow> take j host | None \<Rightarrow> host)
      else host)"

definition HostRouter_Match :: "host_router \<Rightarrow> request \<Rightarrow> string \<times> bool" where
  "HostRouter_Match h r =
     (case h (strip_port (r_Host r)) of Some pool \<Rightarrow> (pool, True) | None \<Rightarrow> ([], False))"

record 're header_rule =
  hr_Header :: string
  hr_Value :: string
  hr_re :: "'re option"
  hr_Pool :: string

type_synonym 're header_router = "'re header_rule list"

definition NewHeaderRouter :: "'re header_router" where
  "NewHeaderRouter = []"

definition AddExact :: "'re header_router \<Rightarrow> string \<Rightarrow> string \<Rightarrow> string \<Rightarrow> 're header_router" where
  "AddExact hr hname val pool =
     hr @ [\<lparr>hr_Header = hname, hr_Value = val, hr_re = None, hr_Pool = pool\<rparr>]"

definition AddRegex ::
  "(string \<Rightarrow> string + 're) \<Rightarrow> 're header_router \<Rightarrow> string \<Rightarrow> string \<Rightarrow> string \<Rightarrow> string + 're header_router" where
  "AddRegex re_Compile hr hname pattern pool =
     (case re_Compile pattern of
        Inl err \<Rightarrow> Inl err
      | Inr re \<Rightarrow> Inr (hr @ [\<lparr>hr_Header = hname, hr_Value = [], hr_re = Some re, hr_Pool = pool\<rparr>]))"

fun HeaderRouter_Match :: "('re \<Rightarrow> string \<Rightarrow> bool) \<Rightarrow> 're header_router \<Rightarrow> request \<Rightarrow> string \<times> bool" where
  "HeaderRouter_Match MatchString [] r = ([], False)"
| "HeaderRouter_Match MatchString (rule # rules) r =
     (let val = Header_Get (r_Header r) (hr_Header rule) in
      if val = [] then HeaderRouter_Match MatchString rules r
      else (case hr_re rule of
              Some re \<Rightarrow> if MatchString re val then (hr_Pool rule, True) else HeaderRouter_Match MatchString rules r
            | None \<Rightarrow> if val = hr_Value rule then (hr_Pool rule, True) else HeaderRouter_Match MatchString rules r))"

section \<open>Canary and shadow\<close>

record 'g canary_router =
  cr_StablePool :: string
  cr_CanaryPool :: string
  cr_CanaryWeight :: float64
  cr_rng :: 'g

definition NewCanaryRouter :: "(int \<Rightarrow> 'g) \<Rightarrow> string \<Rightarrow> string \<Rightarrow> float64 \<Rightarrow> 'g canary_router" where
  "NewCanaryRouter NewSource stablePool canary weight =
     \<lparr>cr_StablePool = stablePool, cr_CanaryPool = canary, cr_CanaryWeight = weight, cr_rng = NewSource 42\<rparr>"

definition Canary_Route ::
  "('g \<Rightarrow> float64 \<times> 'g) \<Rightarrow> 'g canary_router \<Rightarrow> string \<times> 'g canary_router" where
  "Canary_Route rng_Float64 c =
     (let (f, g) = rng_Float64 (cr_rng c); c = c\<lparr>cr_rng := g\<rparr>
      in (if f < cr_CanaryWeight c then cr_CanaryPool c else cr_StablePool c, c))"

definition ShadowTimeout :: duration where
  "ShadowTimeout = 5 * second"

text \<open>A request made by the shadow goroutine: method, URL, header and body.\<close>

record shadow_request =
  sr_Method :: string
  sr_URL :: string
  sr_Header :: header
  sr_Body :: string
  sr_Timeout :: duration

text \<open>
  \<open>NewRequest\<close> is the parameter that says whether the method and the URL are accepted, and
  \<open>RequestURI\<close> prints the path and query. The result is the request as the caller continues
  with it and the request that is sent to the shadow, if any.
\<close>

definition Shadow ::
  "(string \<Rightarrow> string \<Rightarrow> bool) \<Rightarrow> (url \<Rightarrow> string) \<Rightarrow> request \<Rightarrow> string \<Rightarrow> request \<times> shadow_request option" where
  "Shadow NewRequest RequestURI r targetURL =
     (let (bodyBytes, r) =
            (case r_Body r of
               None \<Rightarrow> ([], r)
             | Some bd \<Rightarrow> (bd_data bd, r\<lparr>r_Body := Some \<lparr>bd_data = bd_data bd, bd_err = False\<rparr>\<rparr>));
          u = targetURL @ RequestURI (r_URL r)
      in (r, if \<not> NewRequest (r_Method r) u then None
             else Some \<lparr>sr_Method = r_Method r, sr_URL = u, sr_Header = r_Header r,
                        sr_Body = bodyBytes, sr_Timeout = ShadowTimeout\<rparr>))"

definition ShadowMiddleware ::
  "(string \<Rightarrow> string \<Rightarrow> bool) \<Rightarrow> (url \<Rightarrow> string) \<Rightarrow> string \<Rightarrow> (request \<Rightarrow> 's \<times> writer \<Rightarrow> 's \<times> writer) \<Rightarrow>
   request \<Rightarrow> shadow_request list \<times> 's \<times> writer \<Rightarrow> shadow_request list \<times> 's \<times> writer" where
  "ShadowMiddleware NewRequest RequestURI shadowURL next r st =
     (let (sent, sw) = st; (r, sh) = Shadow NewRequest RequestURI r shadowURL
      in (case sh of None \<Rightarrow> sent | Some q \<Rightarrow> sent @ [q], next r sw))"

section \<open>The trie as a table\<close>

text \<open>The segments that \<open>Add\<close> and \<open>Match\<close> look at.\<close>

definition path_segments :: "string \<Rightarrow> string list" where
  "path_segments path = filter (\<lambda>s. s \<noteq> []) (Split (Trim path CHR ''/'') CHR ''/'')"

fun trie_lookup :: "trieNode \<Rightarrow> string list \<Rightarrow> string" where
  "trie_lookup (TrieNode children p) [] = p"
| "trie_lookup (TrieNode children p) (seg # segs) =
     (case children seg of None \<Rightarrow> [] | Some c \<Rightarrow> trie_lookup c segs)"

lemma trie_lookup_Nil [simp]: "trie_lookup t [] = node_pool t"
  by (cases t) simp

lemma trie_lookup_empty [simp]: "trie_lookup (TrieNode Map.empty []) segs = []"
  by (cases segs) simp_all

lemma Add_loop_lookup:
  "trie_lookup (Add_loop segs pool t) = (trie_lookup t)(filter (\<lambda>s. s \<noteq> []) segs := pool)"
proof (induction segs pool t rule: Add_loop.induct)
  case (1 pool children p)
  show ?case by (rule ext) (auto simp: neq_Nil_conv elim: trie_lookup.elims)
next
  case (2 seg segs pool children p)
  show ?case
  proof (cases "seg = []")
    case True
    then show ?thesis using 2(1) by simp
  next
    case False
    show ?thesis
    proof (rule ext)
      fix q
      show "trie_lookup (Add_loop (seg # segs) pool (TrieNode children p)) q =
        ((trie_lookup (TrieNode children p))(filter (\<lambda>s. s \<noteq> []) (seg # segs) := pool)) q"
        using False 2(2) [OF False refl] by (cases q) (auto simp: Let_def split: option.splits)
    qed
  qed
qed

text \<open>The table a sequence of \<open>Add\<close> calls describes: the last pool given for the same segments.\<close>

definition rule_pool :: "(string \<times> string) list \<Rightarrow> string list \<Rightarrow> string" where
  "rule_pool rules q = foldl (\<lambda>p (pre, pool). if path_segments pre = q then pool else p) [] rules"

definition build_trie :: "(string \<times> string) list \<Rightarrow> trieNode" where
  "build_trie rules = foldl (\<lambda>t (pre, pool). PathTrie_Add t pre pool) NewPathTrie rules"

lemma build_trie_lookup: "trie_lookup (build_trie rules) = rule_pool rules"
proof (induction rules rule: rev_induct)
  case Nil
  then show ?case by (simp add: build_trie_def NewPathTrie_def rule_pool_def fun_eq_iff)
next
  case (snoc rule rules)
  then show ?case
    by (cases rule) (auto simp: build_trie_def rule_pool_def PathTrie_Add_def Add_loop_lookup path_segments_def fun_eq_iff)
qed

text \<open>\<open>Match\<close> keeps the pool of the longest prefix that has one.\<close>

lemma Match_loop_filter: "Match_loop (filter (\<lambda>s. s \<noteq> []) segs) t best = Match_loop segs t best"
  by (induction segs t best rule: Match_loop.induct) (auto split: option.splits trieNode.splits)

definition longest_prefix :: "(string list \<Rightarrow> string) \<Rightarrow> string list \<Rightarrow> string list \<Rightarrow> bool" where
  "longest_prefix f segs q \<longleftrightarrow>
     prefix q segs \<and> f q \<noteq> [] \<and> (\<forall>q'. prefix q' segs \<longrightarrow> f q' \<noteq> [] \<longrightarrow> length q' \<le> length q)"

text \<open>What the loop returns for a node, the segments left and the best pool so far.\<close>

definition match_spec :: "trieNode \<Rightarrow> string list \<Rightarrow> string \<Rightarrow> string \<Rightarrow> bool" where
  "match_spec t segs best res \<longleftrightarrow>
     (\<exists>q. q \<noteq> [] \<and> longest_prefix (trie_lookup t) segs q \<and> res = trie_lookup t q) \<or>
     (\<forall>q. q \<noteq> [] \<longrightarrow> prefix q segs \<longrightarrow> trie_lookup t q = []) \<and> res = best"

lemma match_spec_child:
  assumes "children seg = Some c" and "match_spec c segs (if node_pool c \<noteq> [] then node_pool c else best) res"
  shows "match_spec (TrieNode children p) (seg # segs) best res"
proof -
  have lk: "trie_lookup (TrieNode children p) (seg # qs) = trie_lookup c qs" for qs
    using assms(1) by simp
  from assms(2) consider qs where "qs \<noteq> []" "longest_prefix (trie_lookup c) segs qs" "res = trie_lookup c qs"
    | "\<forall>qs. qs \<noteq> [] \<longrightarrow> prefix qs segs \<longrightarrow> trie_lookup c qs = []" "node_pool c \<noteq> []" "res = node_pool c"
    | "\<forall>qs. qs \<noteq> [] \<longrightarrow> prefix qs segs \<longrightarrow> trie_lookup c qs = []" "node_pool c = []" "res = best"
    unfolding match_spec_def by (auto split: if_splits)
  then show ?thesis
  proof cases
    case (1 qs)
    then have "longest_prefix (trie_lookup (TrieNode children p)) (seg # segs) (seg # qs)"
      using lk by (auto simp: longest_prefix_def prefix_Cons)
    with 1 lk show ?thesis unfolding match_spec_def by (metis list.distinct(1))
  next
    case 2
    then have "longest_prefix (trie_lookup (TrieNode children p)) (seg # segs) [seg]"
      using lk assms(1) by (fastforce simp: longest_prefix_def prefix_Cons)
    with 2 lk show ?thesis unfolding match_spec_def by (metis list.distinct(1) trie_lookup_Nil)
  next
    case 3
    then have "trie_lookup c qs = []" if "prefix qs segs" for qs
      using that by (cases "qs = []") simp_all
    then show ?thesis using 3(3) lk by (auto simp: match_spec_def prefix_Cons)
  qed
qed

lemma Match_loop_longest:
  "\<forall>s\<in>set segs. s \<noteq> [] \<Longrightarrow> match_spec t segs best (Match_loop segs t best)"
proof (induction segs t best rule: Match_loop.induct)
  case (2 seg segs children p best)
  show ?case
  proof (cases "children seg")
    case None
    then show ?thesis using 2(3) by (auto simp: match_spec_def prefix_Cons)
  next
    case (Some c)
    obtain ch q where c: "c = TrieNode ch q" by (cases c)
    have "match_spec c segs (if node_pool c \<noteq> [] then node_pool c else best)
        (Match_loop segs c (if node_pool c \<noteq> [] then node_pool c else best))"
      using 2(2) [OF _ Some c] 2(3) by (auto simp: c split: if_splits)
    from match_spec_child [of children, OF Some this] show ?thesis using 2(3) Some by (cases "q = []") (simp_all add: c)
  qed
qed (simp add: match_spec_def)

lemma Match_path_segments:
  "Match_loop (Split (Trim path CHR ''/'') CHR ''/'') t best = Match_loop (path_segments path) t best"
  by (simp add: path_segments_def Match_loop_filter)

lemma strip_port_plain: "CHR '':'' \<notin> set h \<Longrightarrow> strip_port h = h"
  by (simp add: strip_port_def last_index_byte_None [THEN iffD2])

lemma strip_port_bracket: "h \<noteq> [] \<Longrightarrow> last h = CHR '']'' \<Longrightarrow> strip_port h = h"
  by (simp add: strip_port_def)

lemma strip_port_port:
  assumes "CHR '':'' \<notin> set port" and "CHR '']'' \<notin> set port"
  shows "strip_port (h @ '':'' @ port) = h"
proof -
  have "last (h @ '':'' @ port) \<noteq> CHR '']''"
    using assms(2) by (cases port rule: rev_cases) auto
  then show ?thesis using last_index_byte_append [OF assms(1), of h] by (simp add: strip_port_def)
qed

section \<open>Properties\<close>

text \<open>C13: longest prefix routing. After any sequence of \<open>Add\<close> calls, \<open>Match\<close> returns the pool of
  the longest registered prefix (by whole segments) of the request path, where a later \<open>Add\<close> of
  the same segments replaces an earlier one; it reports no match exactly when no prefix of
  the path has a pool.\<close>

theorem PathTrie_longest_prefix:
  "let (pool, ok) = PathTrie_Match (build_trie rules) r; segs = path_segments (u_Path (r_URL r))
   in (ok \<longleftrightarrow> (\<exists>q. prefix q segs \<and> rule_pool rules q \<noteq> [])) \<and> (ok \<longleftrightarrow> pool \<noteq> []) \<and>
      (ok \<longrightarrow> (\<exists>q. prefix q segs \<and> rule_pool rules q = pool \<and>
        (\<forall>q'. prefix q' segs \<longrightarrow> rule_pool rules q' \<noteq> [] \<longrightarrow> length q' \<le> length q)))"
proof -
  define t where "t = build_trie rules"
  define segs where "segs = path_segments (u_Path (r_URL r))"
  have lk: "trie_lookup t = rule_pool rules" by (simp add: t_def build_trie_lookup)
  have root: "node_pool t = rule_pool rules []" using trie_lookup_Nil [of t] lk by simp
  have "\<forall>s\<in>set segs. s \<noteq> []" by (simp add: segs_def path_segments_def)
  from Match_loop_longest [OF this, of t "[]", unfolded match_spec_def] consider
    q where "q \<noteq> []" "longest_prefix (rule_pool rules) segs q" "Match_loop segs t [] = rule_pool rules q" |
    "\<forall>q. q \<noteq> [] \<longrightarrow> prefix q segs \<longrightarrow> rule_pool rules q = []" "Match_loop segs t [] = []"
    using lk by auto
  then show ?thesis
  proof cases
    case (1 q)
    then have "PathTrie_Match t r = (rule_pool rules q, True)" "rule_pool rules q \<noteq> []"
      by (simp_all add: PathTrie_Match_def Match_path_segments longest_prefix_def Let_def flip: segs_def)
    then show ?thesis using 1(2)
      by (auto simp: Let_def longest_prefix_def simp flip: t_def segs_def)
  next
    case 2
    then have m: "PathTrie_Match t r = (rule_pool rules [], rule_pool rules [] \<noteq> [])"
      by (simp add: PathTrie_Match_def Match_path_segments root Let_def flip: segs_def)
    have nil: "q = []" if "prefix q segs" "rule_pool rules q \<noteq> []" for q using 2(1) that by blast
    then have "rule_pool rules [] \<noteq> [] \<longleftrightarrow> (\<exists>q. prefix q segs \<and> rule_pool rules q \<noteq> [])"
      by (metis Nil_prefix)
    moreover have "\<exists>q. prefix q segs \<and> rule_pool rules q = rule_pool rules [] \<and>
        (\<forall>q'. prefix q' segs \<longrightarrow> rule_pool rules q' \<noteq> [] \<longrightarrow> length q' \<le> length q)"
      using nil by (intro exI [of _ "[]"]) auto
    ultimately show ?thesis using m by (simp add: Let_def flip: t_def segs_def)
  qed
qed

theorem PathTrie_longest_prefix_witness:
  "PathTrie_Match (build_trie [(''/api'', ''a''), (''/api/v1'', ''b''), (''/'', ''root'')]) (sample_request ''h'' ''/api/v1/users'') =
     (''b'', True)"
proof -
  let ?rules = "[(''/api'', ''a''), (''/api/v1'', ''b''), (''/'', ''root'')]"
  let ?r = "sample_request ''h'' ''/api/v1/users''"
  have segs: "path_segments (u_Path (r_URL ?r)) = [''api'', ''v1'', ''users'']"
    by (simp add: sample_request_def path_segments_def Trim_def)
  have rp: "rule_pool ?rules q = (if q = [] then ''root'' else if q = [''api'', ''v1''] then ''b''
      else if q = [''api''] then ''a'' else [])" for q
    by (auto simp: rule_pool_def path_segments_def Trim_def)
  obtain pool ok where m: "PathTrie_Match (build_trie ?rules) ?r = (pool, ok)" by fastforce
  have ok: "ok \<longleftrightarrow> (\<exists>q. prefix q [''api'', ''v1'', ''users''] \<and> rule_pool ?rules q \<noteq> [])"
    and best: "ok \<longrightarrow> (\<exists>q. prefix q [''api'', ''v1'', ''users''] \<and> rule_pool ?rules q = pool \<and>
        (\<forall>q'. prefix q' [''api'', ''v1'', ''users''] \<longrightarrow> rule_pool ?rules q' \<noteq> [] \<longrightarrow> length q' \<le> length q))"
    using PathTrie_longest_prefix [of ?rules ?r] unfolding m segs Let_def split by blast+
  have pre: "prefix [''api'', ''v1''] [''api'', ''v1'', ''users'']" by simp
  have v1: "rule_pool ?rules [''api'', ''v1''] = ''b''" by (simp add: rp)
  have "ok" unfolding ok by (intro exI [of _ "[''api'', ''v1'']"] conjI pre) (simp add: v1)
  with best obtain q where q: "rule_pool ?rules q = pool"
    and len: "\<And>q'. prefix q' [''api'', ''v1'', ''users''] \<Longrightarrow> rule_pool ?rules q' \<noteq> [] \<Longrightarrow> length q' \<le> length q"
    by blast
  have "2 \<le> length q" using len [OF pre] v1 by simp
  moreover have "pool \<noteq> []"
    using PathTrie_longest_prefix [of ?rules ?r] \<open>ok\<close> unfolding m Let_def split by blast
  ultimately have "pool = ''b''" using q [symmetric] by (auto simp: rp split: if_splits)
  then show ?thesis using m \<open>ok\<close> by simp
qed

text \<open>Host rules and ports. A request for \<open>host:port\<close> is routed as one for \<open>host\<close> (also for a
  bracketed IPv6 address), by the rule stored for exactly that host; hence a rule registered
  with a port has no effect on the requests it was registered for.\<close>

theorem HostRouter_ignores_port:
  assumes "CHR '':'' \<notin> set host \<or> (host \<noteq> [] \<and> last host = CHR '']'')"
    and "CHR '':'' \<notin> set port" and "CHR '']'' \<notin> set port"
  shows "HostRouter_Match rt (r\<lparr>r_Host := host @ '':'' @ port\<rparr>) =
      (case rt host of Some pool \<Rightarrow> (pool, True) | None \<Rightarrow> ([], False)) \<and>
    HostRouter_Match rt (r\<lparr>r_Host := host\<rparr>) =
      (case rt host of Some pool \<Rightarrow> (pool, True) | None \<Rightarrow> ([], False)) \<and>
    HostRouter_Match (HostRouter_Add rt (host @ '':'' @ port) pool) (r\<lparr>r_Host := host @ '':'' @ port\<rparr>) =
      HostRouter_Match rt (r\<lparr>r_Host := host @ '':'' @ port\<rparr>)"
  using assms strip_port_port [OF assms(2,3), of host]
  by (auto simp: HostRouter_Match_def HostRouter_Add_def strip_port_plain strip_port_bracket)

theorem HostRouter_ignores_port_witness:
  "HostRouter_Match (HostRouter_Add NewHostRouter ''api.example.com:8080'' ''api'')
     ((sample_request [] ''/'')\<lparr>r_Host := ''api.example.com:8080''\<rparr>) = ([], False)"
  using HostRouter_ignores_port [of "''api.example.com''" "''8080''" NewHostRouter "sample_request [] ''/''" "''api''"]
  by (simp add: HostRouter_Match_def NewHostRouter_def)

text \<open>Header rules: the router returns the pool of the first rule, in the order they were
  added, whose header is present with a matching value, and no match when there is none.\<close>

definition rule_matches :: "('re \<Rightarrow> string \<Rightarrow> bool) \<Rightarrow> request \<Rightarrow> 're header_rule \<Rightarrow> bool" where
  "rule_matches MatchString r rule \<longleftrightarrow>
     (let val = Header_Get (r_Header r) (hr_Header rule)
      in val \<noteq> [] \<and> (case hr_re rule of Some re \<Rightarrow> MatchString re val | None \<Rightarrow> val = hr_Value rule))"

lemma HeaderRouter_find:
  "HeaderRouter_Match MatchString rules r =
     (case find (rule_matches MatchString r) rules of Some rule \<Rightarrow> (hr_Pool rule, True) | None \<Rightarrow> ([], False))"
  by (induction rules) (auto simp: rule_matches_def Let_def split: option.splits)

text \<open>Mirroring leaves the request intact. Whatever the shadow target is, the handler behind
  the shadow middleware sees the same request with the same body bytes, and the mirrored
  request has the same method, headers and body; only the error at the end of a body that
  could not be read completely is lost, so that a truncated body looks complete.\<close>

theorem Shadow_transparent:
  "let (r', sh) = Shadow NewRequest RequestURI r targetURL
   in r'\<lparr>r_Body := None\<rparr> = r\<lparr>r_Body := None\<rparr> \<and>
      map_option bd_data (r_Body r') = map_option bd_data (r_Body r) \<and>
      map_option bd_err (r_Body r') = map_option (\<lambda>_. False) (r_Body r) \<and>
      (case sh of None \<Rightarrow> \<not> NewRequest (r_Method r) (targetURL @ RequestURI (r_URL r))
       | Some q \<Rightarrow> sr_Method q = r_Method r \<and> sr_URL q = targetURL @ RequestURI (r_URL r) \<and>
           sr_Header q = r_Header r \<and> sr_Timeout q = 5 * second \<and>
           sr_Body q = (case r_Body r of None \<Rightarrow> [] | Some bd \<Rightarrow> bd_data bd))"
  by (cases "r_Body r") (auto simp: Shadow_def ShadowTimeout_def Let_def)

lemma Canary_extremes:
  assumes "\<And>g. 0 \<le> fst (rng g) \<and> fst (rng g) < 1"
  shows "cr_CanaryWeight c \<le> 0 \<Longrightarrow> fst (Canary_Route rng c) = cr_StablePool c"
    and "1 \<le> cr_CanaryWeight c \<Longrightarrow> fst (Canary_Route rng c) = cr_CanaryPool c"
  using assms [of "cr_rng c"] by (auto simp: Canary_Route_def Let_def split_beta)

end
