(* ===== verification/SNI.thy ===== *)
theory SNI
  imports Prelude
begin

unbundle bit_operations_syntax

text \<open>
  \<open>internal/tls/passthrough.go\<close>: reading the server name out of a TLS ClientHello and the
  connection that replays the bytes read. Bytes are 8-bit words; every index into the data goes
  through \<open>go_index\<close>, so an access out of range is a panic of the model. The parser is
  related to an encoder of ClientHello records by a round trip.
\<close>

section \<open>The parser\<close>

definition byte_at :: "byte list \<Rightarrow> nat \<Rightarrow> byte outcome" where
  "byte_at data i = go_index data (int i)"

text \<open>\<open>uint16(a)<<8 | uint16(b)\<close>.\<close>

definition be16 :: "byte \<Rightarrow> byte \<Rightarrow> 16 word" where
  "be16 a b = push_bit 8 (ucast a) OR ucast b"

definition be16_at :: "byte list \<Rightarrow> nat \<Rightarrow> nat outcome" where
  "be16_at data i =
     bind_outcome (byte_at data i) (\<lambda>a. bind_outcome (byte_at data (i + 1)) (\<lambda>b. Return (unat (be16 a b))))"

definition byte_string :: "byte list \<Rightarrow> string" where
  "byte_string bs = map (\<lambda>b. char_of (unat b)) bs"

text \<open>The loop over the extensions; \<open>pos\<close> advances by at least four bytes.\<close>

function ext_loop :: "byte list \<Rightarrow> nat \<Rightarrow> nat \<Rightarrow> string outcome" where
  "ext_loop data ext_end pos =
     (if \<not> (pos + 4 \<le> ext_end \<and> pos + 4 \<le> length data) then Return []
      else bind_outcome (be16_at data pos) (\<lambda>extType.
           bind_outcome (be16_at data (pos + 2)) (\<lambda>extLen.
             let pos = pos + 4 in
             if extType = 0 \<and> pos + extLen \<le> length data then
               (if extLen < 5 then Return []
                else bind_outcome (be16_at data (pos + 3)) (\<lambda>nameLen.
                  if pos + 5 + nameLen \<le> length data
                  then Return (byte_string (take nameLen (drop (pos + 5) data)))
                  else ext_loop data ext_end (pos + extLen)))
             else ext_loop data ext_end (pos + extLen))))"
  by pat_completeness auto
termination
  by (relation "measure (\<lambda>(data, ext_end, pos). length data - pos)") auto

declare ext_loop.simps [simp del]

definition extractSNI :: "byte list \<Rightarrow> string outcome" where
  "extractSNI data =
     (if length data < 5 then Return []
      else bind_outcome (byte_at data 0) (\<lambda>recType.
        if recType \<noteq> 0x16 then Return []
        else bind_outcome (be16_at data 3) (\<lambda>recLen.
        if length data < 5 + recLen then Return []
        else (let pos = 5 in bind_outcome (byte_at data pos) (\<lambda>hsType.
        if hsType \<noteq> 0x01 then Return []
        else (let pos = pos + 4 in
        if pos + 35 > length data then Return []
        else (let pos = pos + (2 + 32) in bind_outcome (byte_at data pos) (\<lambda>sessionLen.
        let pos = pos + (1 + unat sessionLen) in
        if pos + 2 > length data then Return []
        else bind_outcome (be16_at data pos) (\<lambda>cipherLen.
        let pos = pos + (2 + cipherLen) in
        if pos + 1 > length data then Return []
        else bind_outcome (byte_at data pos) (\<lambda>compLen.
        let pos = pos + (1 + unat compLen) in
        if pos + 2 > length data then Return []
        else bind_outcome (be16_at data pos) (\<lambda>extTotal.
        let pos = pos + 2 in ext_loop data (pos + extTotal) pos)))))))))))"

section \<open>Peeking\<close>

text \<open>
  A connection: the segments that its next reads deliver, and whether it ends with an error
  instead of EOF. A read returns at most as many bytes as its buffer holds, all from one
  segment.
\<close>

record conn =
  cn_segs :: "byte list list"
  cn_err :: bool

datatype read_result = ReadBytes "byte list" | ReadEOF | ReadError

fun seg_Read :: "nat \<Rightarrow> byte list list \<Rightarrow> byte list \<times> byte list list" where
  "seg_Read k [] = ([], [])"
| "seg_Read k (s # ss) = (if length s \<le> k then (s, ss) else (take k s, drop k s # ss))"

definition conn_Read :: "nat \<Rightarrow> conn \<Rightarrow> read_result \<times> conn" where
  "conn_Read k c =
     (case cn_segs c of
        [] \<Rightarrow> (if cn_err c then ReadError else ReadEOF, c)
      | _ \<Rightarrow> (let (bs, ss) = seg_Read k (cn_segs c) in (ReadBytes bs, c\<lparr>cn_segs := ss\<rparr>)))"

record buf_conn =
  bc_conn :: conn
  bc_r :: "byte list"

datatype peek_error = PeekReadError

definition PeekSNI :: "conn \<Rightarrow> (peek_error + string \<times> buf_conn) outcome" where
  "PeekSNI c =
     (case conn_Read 4096 c of
        (ReadError, c) \<Rightarrow> Return (Inl PeekReadError)
      | (ReadEOF, c) \<Rightarrow>
          bind_outcome (extractSNI []) (\<lambda>name. Return (Inr (name, \<lparr>bc_conn = c, bc_r = []\<rparr>)))
      | (ReadBytes buf, c) \<Rightarrow>
          bind_outcome (extractSNI buf) (\<lambda>name. Return (Inr (name, \<lparr>bc_conn = c, bc_r = buf\<rparr>))))"

definition bufConn_Read :: "nat \<Rightarrow> buf_conn \<Rightarrow> read_result \<times> buf_conn" where
  "bufConn_Read k c =
     (if length (bc_r c) > 0 then (ReadBytes (take k (bc_r c)), c\<lparr>bc_r := drop k (bc_r c)\<rparr>)
      else (let (res, cn) = conn_Read k (bc_conn c) in (res, c\<lparr>bc_conn := cn\<rparr>)))"

section \<open>The encoder\<close>

definition enc16 :: "nat \<Rightarrow> byte list" where
  "enc16 n = [word_of_nat (n div 256), word_of_nat (n mod 256)]"

record client_hello =
  ch_random :: "byte list"
  ch_session :: "byte list"
  ch_ciphers :: "byte list"
  ch_comps :: "byte list"
  ch_exts :: "(nat \<times> byte list) list"

definition enc_ext :: "nat \<times> byte list \<Rightarrow> byte list" where
  "enc_ext e = enc16 (fst e) @ enc16 (length (snd e)) @ snd e"

text \<open>The contents of a server name extension with one DNS name.\<close>

definition sni_data :: "byte list \<Rightarrow> byte list" where
  "sni_data name = enc16 (length name + 3) @ [0] @ enc16 (length name) @ name"

definition enc_exts :: "(nat \<times> byte list) list \<Rightarrow> byte list" where
  "enc_exts es = concat (map enc_ext es)"

definition enc_body :: "client_hello \<Rightarrow> byte list" where
  "enc_body ch = [3, 3] @ ch_random ch @ [word_of_nat (length (ch_session ch))] @ ch_session ch @
     enc16 (length (ch_ciphers ch)) @ ch_ciphers ch @
     [word_of_nat (length (ch_comps ch))] @ ch_comps ch @
     enc16 (length (enc_exts (ch_exts ch))) @ enc_exts (ch_exts ch)"

text \<open>A handshake record with the ClientHello message; the message length has three bytes.\<close>

definition enc_hello :: "client_hello \<Rightarrow> byte list" where
  "enc_hello ch =
     [0x16, 3, 1] @ enc16 (length (enc_body ch) + 4) @
     [1, 0] @ enc16 (length (enc_body ch)) @ enc_body ch"

definition wf_hello :: "client_hello \<Rightarrow> bool" where
  "wf_hello ch \<longleftrightarrow> length (ch_random ch) = 32 \<and> length (ch_session ch) < 256 \<and>
     length (ch_ciphers ch) < 2 ^ 16 \<and> length (ch_comps ch) < 256 \<and>
     length (enc_body ch) + 4 < 2 ^ 16 \<and> (\<forall>e\<in>set (ch_exts ch). fst e < 2 ^ 16)"

section \<open>Reading what was written\<close>

lemma be16_add: "be16 a b = push_bit 8 (ucast a) + ucast b"
proof -
  have "push_bit 8 (ucast a :: 16 word) AND ucast b = 0"
    by (rule bit_eqI) (auto simp: bit_simps dest: bit_imp_le_length)
  then show ?thesis by (simp add: be16_def disjunctive_add_eq_or)
qed

lemma unat_be16: "unat (be16 a b) = 256 * unat a + unat b"
proof -
  have "unat a < 256" "unat b < 256"
    using unsigned_less [of a, where 'a = nat] unsigned_less [of b, where 'a = nat] by simp_all
  then show ?thesis
    by (simp add: be16_add push_bit_eq_mult unat_word_ariths unsigned_ucast_eq take_bit_eq_mod mod_less)
qed

lemma byte_at_in: "i < length data \<Longrightarrow> byte_at data i = Return (data ! i)"
  by (simp add: byte_at_def go_index_def)

lemma byte_at_Panic: "byte_at data i = Panic p \<longleftrightarrow> length data \<le> i \<and> p = IndexOutOfRange"
  by (auto simp: byte_at_def go_index_def)

lemma be16_at_in: "i + 1 < length data \<Longrightarrow> be16_at data i = Return (256 * unat (data ! i) + unat (data ! (i + 1)))"
  by (simp add: be16_at_def byte_at_in unat_be16)

lemma be16_at_enc:
  assumes "drop i data = enc16 n @ rest" and "n < 2 ^ 16"
  shows "be16_at data i = Return n"
proof -
  have len: "i + 1 < length data"
    using arg_cong [OF assms(1), of length] by (simp add: enc16_def)
  have "data ! i = word_of_nat (n div 256)" "data ! (i + 1) = word_of_nat (n mod 256)"
    using assms(1) len nth_drop [of i data 0] nth_drop [of i data 1] by (simp_all add: enc16_def)
  moreover have "n div 256 < 256" using assms(2) by simp
  ultimately show ?thesis using be16_at_in [OF len] by (simp add: unat_of_nat mod_less)
qed

lemma byte_at_enc: "drop i data = b # rest \<Longrightarrow> byte_at data i = Return b"
  by (metis byte_at_in drop_all list.distinct(1) not_less nth_via_drop)

lemma length_enc16 [simp]: "length (enc16 n) = 2"
  by (simp add: enc16_def)

section \<open>No panic but one\<close>

lemma ext_loop_Return: "\<exists>name. ext_loop data ext_end pos = Return name"
proof (induction data ext_end pos rule: ext_loop.induct)
  case (1 data ext_end pos)
  show ?case
  proof (cases "pos + 4 \<le> ext_end \<and> pos + 4 \<le> length data")
    case False
    then show ?thesis by (subst ext_loop.simps) auto
  next
    case True
    obtain ty n where r: "be16_at data pos = Return ty" "be16_at data (pos + 2) = Return n"
      using True be16_at_in [of pos data] be16_at_in [of "pos + 2" data] by auto
    obtain m where m: "n \<ge> 5 \<Longrightarrow> pos + 4 + n \<le> length data \<Longrightarrow> be16_at data (pos + 4 + 3) = Return m"
      using be16_at_in [of "pos + 4 + 3" data] by force
    show ?thesis
      using 1 True r m by (subst ext_loop.simps) (auto simp: Let_def)
  qed
qed

definition returns :: "'a outcome \<Rightarrow> bool" where
  "returns m \<longleftrightarrow> (\<exists>x. m = Return x)"

lemma returns_bind: "returns m \<Longrightarrow> (\<And>x. m = Return x \<Longrightarrow> returns (f x)) \<Longrightarrow> returns (bind_outcome m f)"
  by (auto simp: returns_def)

lemma returns_simps [simp]:
  "returns (Return x)"
  "returns (byte_at data i) \<longleftrightarrow> i < length data"
  "i + 1 < length data \<Longrightarrow> returns (be16_at data i)"
  "returns (ext_loop data ext_end pos)"
  using ext_loop_Return [of data ext_end pos]
  by (auto simp: returns_def byte_at_def go_index_def be16_at_in)

text \<open>C38: the parser never indexes out of range but in one case: it panics exactly on a handshake
  record header with length zero and nothing after it.\<close>

theorem extractSNI_panics_iff:
  "extractSNI data = Panic p \<longleftrightarrow>
     length data = 5 \<and> data ! 0 = 0x16 \<and> data ! 3 = 0 \<and> data ! 4 = 0 \<and> p = IndexOutOfRange"
proof -
  consider "length data < 5" | "length data = 5" | "6 \<le> length data" by linarith
  then show ?thesis
  proof cases
    case 1
    then show ?thesis by (simp add: extractSNI_def)
  next
    case 2
    then obtain a b c d e where data: "data = [a, b, c, d, e]"
      by (auto simp: length_Suc_conv eval_nat_numeral)
    have "byte_at data 0 = Return a" "be16_at data 3 = Return (256 * unat d + unat e)"
      "byte_at data 5 = Panic IndexOutOfRange"
      by (simp_all add: data be16_at_in byte_at_in byte_at_Panic)
    then show ?thesis
      by (cases "unat d = 0 \<and> unat e = 0"; cases "a = 0x16")
        (auto simp: extractSNI_def data Let_def unsigned_eq_0_iff)
  next
    case 3
    have "returns (extractSNI data)" unfolding extractSNI_def Let_def
      using 3 by (auto intro!: returns_bind)
    then have "extractSNI data \<noteq> Panic p" by (auto simp: returns_def)
    then show ?thesis using 3 by simp
  qed
qed

section \<open>The round trip\<close>

lemma ext_loop_skip:
  assumes "drop pos data = enc_ext (ty, d) @ rest" and "0 < ty" and "ty < 2 ^ 16" and "length d < 2 ^ 16"
    and "pos + 4 \<le> ext_end"
  shows "ext_loop data ext_end pos = ext_loop data ext_end (pos + 4 + length d)"
proof -
  have "pos + 4 \<le> length data" using arg_cong [OF assms(1), of length] by (simp add: enc_ext_def)
  moreover have "be16_at data pos = Return ty"
    using assms(1,3) by (intro be16_at_enc [where rest = "enc16 (length d) @ d @ rest"]) (simp_all add: enc_ext_def)
  moreover have "drop (pos + 2) data = enc16 (length d) @ d @ rest"
    using arg_cong [OF assms(1), of "drop 2"] by (simp add: enc_ext_def add.commute)
  then have "be16_at data (pos + 2) = Return (length d)" using assms(4) by (rule be16_at_enc)
  ultimately show ?thesis using assms(2,5) by (subst ext_loop.simps) (simp add: Let_def)
qed

lemma length_sni_data [simp]: "length (sni_data name) = length name + 5"
  by (simp add: sni_data_def)

lemma ext_loop_sni:
  assumes "drop pos data = enc_ext (0, sni_data name) @ rest" and "length name + 5 < 2 ^ 16" and "pos + 4 \<le> ext_end"
  shows "ext_loop data ext_end pos = Return (byte_string name)"
proof -
  have len: "pos + 9 + length name \<le> length data"
    using arg_cong [OF assms(1), of length] by (simp add: enc_ext_def sni_data_def)
  have d2: "drop (pos + 2) data = enc16 (length name + 5) @ sni_data name @ rest"
    using arg_cong [OF assms(1), of "drop 2"] by (simp add: enc_ext_def add.commute)
  have d7: "drop (pos + 7) data = enc16 (length name) @ name @ rest"
    using arg_cong [OF d2, of "drop 5"] by (simp add: sni_data_def ac_simps)
  have "drop (pos + 9) data = name @ rest"
    using arg_cong [OF d7, of "drop 2"] by (simp add: add.commute)
  then have "take (length name) (drop (pos + 9) data) = name" by simp
  moreover have "be16_at data pos = Return 0" "be16_at data (pos + 2) = Return (length name + 5)"
    "be16_at data (pos + 7) = Return (length name)"
    using assms(1,2) d2 d7 be16_at_enc [of pos data 0] be16_at_enc [of "pos + 2" data "length name + 5"]
      be16_at_enc [of "pos + 7" data "length name"] by (simp_all add: enc_ext_def)
  ultimately show ?thesis using len assms(3) by (subst ext_loop.simps) (simp add: Let_def add.assoc)
qed

lemma ext_loop_find:
  assumes "drop pos data = enc_exts pre @ enc_ext (0, sni_data name) @ rest"
    and "\<forall>e\<in>set pre. 0 < fst e \<and> fst e < 2 ^ 16 \<and> length (snd e) < 2 ^ 16" and "length name + 5 < 2 ^ 16"
    and "pos + length (enc_exts pre) + 4 \<le> ext_end"
  shows "ext_loop data ext_end pos = Return (byte_string name)"
  using assms
proof (induction pre arbitrary: pos)
  case Nil
  then show ?case by (intro ext_loop_sni) (simp_all add: enc_exts_def)
next
  case (Cons e pre)
  obtain ty d where e: "e = (ty, d)" by fastforce
  have d0: "drop pos data = enc_ext (ty, d) @ enc_exts pre @ enc_ext (0, sni_data name) @ rest"
    using Cons.prems(1) by (simp add: e enc_exts_def)
  have l: "length (enc_ext (ty, d)) = 4 + length d" by (simp add: enc_ext_def)
  have "drop (pos + 4 + length d) data = enc_exts pre @ enc_ext (0, sni_data name) @ rest"
    using arg_cong [OF d0, of "drop (4 + length d)"] l by (simp add: ac_simps)
  then have "ext_loop data ext_end (pos + 4 + length d) = Return (byte_string name)"
    using Cons.prems l by (intro Cons.IH) (simp_all add: e enc_exts_def)
  moreover have "ext_loop data ext_end pos = ext_loop data ext_end (pos + 4 + length d)"
    using Cons.prems(2,4) l by (intro ext_loop_skip [OF d0]) (auto simp: e enc_exts_def)
  ultimately show ?case by simp
qed

lemma drop_step: "drop i data = xs @ ys \<Longrightarrow> drop (i + length xs) data = ys"
  by (metis add.commute append_eq_conv_conj drop_drop)

lemma extractSNI_fields:
  assumes "drop 5 data = 1 # a # b # c # [v1, v2] @ random @ word_of_nat (length session) # session @
      enc16 (length ciphers) @ ciphers @ word_of_nat (length comps) # comps @ enc16 n @ exts"
    and "byte_at data 0 = Return 0x16" and "be16_at data 3 = Return recLen" and "5 + recLen \<le> length data"
    and "length random = 32" and "length session < 256" and "length ciphers < 2 ^ 16" and "length comps < 256"
    and "n < 2 ^ 16"
  shows "\<exists>pos. drop pos data = exts \<and> extractSNI data = ext_loop data (pos + n) pos"
proof -
  have d5: "byte_at data 5 = Return 1" using assms(1) by (intro byte_at_enc) simp
  have "drop 5 data = ([1, a, b, c, v1, v2] @ random) @ word_of_nat (length session) # session @
      enc16 (length ciphers) @ ciphers @ word_of_nat (length comps) # comps @ enc16 n @ exts"
    using assms(1) by simp
  from drop_step [OF this] have d43: "drop 43 data = [word_of_nat (length session)] @ session @
      enc16 (length ciphers) @ ciphers @ word_of_nat (length comps) # comps @ enc16 n @ exts"
    using assms(5) by simp
  define p1 where "p1 = 43 + 1 + length session"
  have d1: "drop p1 data = enc16 (length ciphers) @ ciphers @ word_of_nat (length comps) # comps @ enc16 n @ exts"
    using drop_step [OF drop_step [OF d43]] by (simp add: p1_def)
  define p2 where "p2 = p1 + 2 + length ciphers"
  have d2: "drop p2 data = [word_of_nat (length comps)] @ comps @ enc16 n @ exts"
    using drop_step [OF drop_step [OF d1]] by (simp add: p2_def)
  define p3 where "p3 = p2 + 1 + length comps"
  have d3: "drop p3 data = enc16 n @ exts"
    using drop_step [OF drop_step [OF d2]] by (simp add: p3_def)
  have d4: "drop (p3 + 2) data = exts" using drop_step [OF d3] by simp
  have len: "p3 + 2 \<le> length data" using arg_cong [OF d3, of length] by simp
  have r: "byte_at data 43 = Return (word_of_nat (length session))" "be16_at data p1 = Return (length ciphers)"
    "byte_at data p2 = Return (word_of_nat (length comps))" "be16_at data p3 = Return n"
    using d43 d1 d2 d3 assms(7,9) byte_at_enc [of 43 data] byte_at_enc [of p2 data]
      be16_at_enc [of p1 data "length ciphers"] be16_at_enc [of p3 data n] by simp_all
  have u: "unat (word_of_nat (length session) :: byte) = length session"
    "unat (word_of_nat (length comps) :: byte) = length comps"
    using assms(6,8) by (simp_all add: unat_of_nat)
  have sums: "44 + length session = p1" "p1 + (2 + length ciphers) = p2" "p2 + Suc (length comps) = p3"
    "p1 \<le> p2" "p2 < p3" "44 \<le> p1"
    by (simp_all add: p1_def p2_def p3_def)
  have "extractSNI data = ext_loop data (p3 + 2 + n) (p3 + 2)"
    using assms(2-4) d5 r u sums len by (simp add: extractSNI_def)
  with d4 show ?thesis by blast
qed

section \<open>Reading through the buffer\<close>

definition stream :: "conn \<Rightarrow> byte list" where
  "stream c = concat (cn_segs c)"

definition buf_stream :: "buf_conn \<Rightarrow> byte list" where
  "buf_stream c = bc_r c @ stream (bc_conn c)"

fun result_bytes :: "read_result \<Rightarrow> byte list" where
  "result_bytes (ReadBytes bs) = bs"
| "result_bytes ReadEOF = []"
| "result_bytes ReadError = []"

text \<open>The results of a sequence of reads with buffers of the given sizes, and the bytes they deliver.\<close>

fun buf_reads :: "nat list \<Rightarrow> buf_conn \<Rightarrow> read_result list \<times> buf_conn" where
  "buf_reads [] c = ([], c)"
| "buf_reads (k # ks) c = (let (res, c) = bufConn_Read k c; (rs, c) = buf_reads ks c in (res # rs, c))"

definition delivered :: "read_result list \<Rightarrow> byte list" where
  "delivered rs = concat (map result_bytes rs)"

lemma delivered_simps [simp]: "delivered [] = []" "delivered (res # rs) = result_bytes res @ delivered rs"
  by (simp_all add: delivered_def)

lemma conn_Read_stream: "conn_Read k c = (res, c') \<Longrightarrow> result_bytes res @ stream c' = stream c"
  by (auto simp: conn_Read_def stream_def split: list.splits if_splits)

lemma bufConn_Read_stream: "bufConn_Read k c = (res, c') \<Longrightarrow> result_bytes res @ buf_stream c' = buf_stream c"
  using conn_Read_stream [of k "bc_conn c"]
  by (auto simp: bufConn_Read_def buf_stream_def split: if_splits prod.splits)

lemma buf_reads_stream: "buf_reads ks c = (rs, c') \<Longrightarrow> delivered rs @ buf_stream c' = buf_stream c"
proof (induction ks arbitrary: c rs)
  case (Cons k ks)
  then show ?case using bufConn_Read_stream [of k c] by (fastforce split: prod.splits)
qed simp

text \<open>A read that delivers no bytes but the end comes after everything else, and has the end of the connection.\<close>

definition end_of :: "conn \<Rightarrow> read_result" where
  "end_of c = (if cn_err c then ReadError else ReadEOF)"

lemma bufConn_Read_end:
  assumes "bufConn_Read k c = (res, c')"
  shows "(\<forall>bs. res \<noteq> ReadBytes bs) \<longrightarrow> buf_stream c = [] \<and> res = end_of (bc_conn c)" and "end_of (bc_conn c') = end_of (bc_conn c)"
  using assms by (auto simp: bufConn_Read_def conn_Read_def buf_stream_def stream_def end_of_def split: if_splits list.splits prod.splits)

lemma buf_reads_end:
  "buf_reads ks c = (rs, c') \<Longrightarrow> i < length rs \<Longrightarrow> \<forall>bs. rs ! i \<noteq> ReadBytes bs \<Longrightarrow>
   delivered (take i rs) = buf_stream c \<and> rs ! i = end_of (bc_conn c)"
proof (induction ks arbitrary: c rs i)
  case (Cons k ks)
  obtain res c1 where b: "bufConn_Read k c = (res, c1)" by fastforce
  obtain rs1 where rs: "buf_reads ks c1 = (rs1, c')" "rs = res # rs1" using Cons.prems(1) b by (auto split: prod.splits)
  show ?case
  proof (cases i)
    case 0
    then show ?thesis using bufConn_Read_end(1) [OF b] Cons.prems(3) rs(2) by simp
  next
    case (Suc j)
    then show ?thesis using Cons.IH [OF rs(1), of j] Cons.prems(2,3) rs(2) bufConn_Read_stream [OF b] bufConn_Read_end(2) [OF b] by simp
  qed
qed simp

text \<open>Every read with a buffer that is not empty takes something from what is left.\<close>

definition left :: "buf_conn \<Rightarrow> nat" where
  "left c = length (buf_stream c) + length (cn_segs (bc_conn c))"

lemma bufConn_Read_left: "0 < k \<Longrightarrow> bufConn_Read k c = (res, c') \<Longrightarrow> left c' \<le> left c - 1"
  by (cases "bc_r c") (auto simp: bufConn_Read_def conn_Read_def left_def buf_stream_def stream_def Suc_diff_le
    split: if_splits list.splits prod.splits)

lemma buf_reads_left: "buf_reads ks c = (rs, c') \<Longrightarrow> \<forall>k\<in>set ks. 0 < k \<Longrightarrow> left c' \<le> left c - length ks"
proof (induction ks arbitrary: c rs)
  case (Cons k ks)
  obtain res c1 where b: "bufConn_Read k c = (res, c1)" by fastforce
  obtain rs1 where "buf_reads ks c1 = (rs1, c')" using Cons.prems(1) b by (auto split: prod.splits)
  then show ?case using Cons.IH [of c1 rs1] Cons.prems(2) bufConn_Read_left [OF _ b] by simp
qed simp

lemma PeekSNI_keeps:
  assumes "PeekSNI c = Return (Inr (name, bc))"
  shows "buf_stream bc = stream c" and "end_of (bc_conn bc) = end_of c" and "length (cn_segs (bc_conn bc)) \<le> length (cn_segs c)"
proof -
  obtain res c' where r: "conn_Read 4096 c = (res, c')" by fastforce
  show "buf_stream bc = stream c" using assms conn_Read_stream [OF r] r
    by (cases res) (auto simp: PeekSNI_def buf_stream_def bind_outcome_Return)
  have "end_of c' = end_of c \<and> length (cn_segs c') \<le> length (cn_segs c)"
    using r by (auto simp: conn_Read_def end_of_def split: list.splits if_splits)
  moreover have "bc_conn bc = c'" using assms r by (cases res) (auto simp: PeekSNI_def bind_outcome_Return)
  ultimately show "end_of (bc_conn bc) = end_of c" "length (cn_segs (bc_conn bc)) \<le> length (cn_segs c)" by simp_all
qed

section \<open>Properties\<close>

text \<open>C22: the parser reads what a client wrote. From every well-formed ClientHello record, whatever
  its session id, cipher suites and other extensions and whatever follows the record, it returns
  the name of the server name extension.\<close>

theorem SNI_roundtrip:
  assumes "wf_hello ch" and "ch_exts ch = pre @ (0, sni_data name) # post" and "\<forall>e\<in>set pre. fst e \<noteq> 0"
  shows "extractSNI (enc_hello ch @ rest) = Return (byte_string name)"
proof -
  define data where "data = enc_hello ch @ rest"
  define n where "n = length (enc_exts (ch_exts ch))"
  note wf = assms(1) [unfolded wf_hello_def]
  have lb: "n + 2 \<le> length (enc_body ch)" by (simp add: enc_body_def n_def)
  have n: "n < 2 ^ 16" using lb wf by simp
  have "drop 5 data = 1 # 0 # word_of_nat (length (enc_body ch) div 256) # word_of_nat (length (enc_body ch) mod 256) #
      [3, 3] @ ch_random ch @ word_of_nat (length (ch_session ch)) # ch_session ch @
      enc16 (length (ch_ciphers ch)) @ ch_ciphers ch @ word_of_nat (length (ch_comps ch)) # ch_comps ch @
      enc16 n @ enc_exts (ch_exts ch) @ rest"
    by (simp add: data_def enc_hello_def enc_body_def n_def enc16_def)
  moreover have "byte_at data 0 = Return 0x16" by (rule byte_at_enc) (simp add: data_def enc_hello_def)
  moreover have "be16_at data 3 = Return (length (enc_body ch) + 4)"
    using wf by (intro be16_at_enc) (simp_all add: data_def enc_hello_def)
  moreover have "5 + (length (enc_body ch) + 4) \<le> length data" by (simp add: data_def enc_hello_def)
  ultimately obtain pos where pos: "drop pos data = enc_exts (ch_exts ch) @ rest"
    and ex: "extractSNI data = ext_loop data (pos + n) pos"
    using extractSNI_fields wf n by metis
  have exts: "enc_exts (ch_exts ch) = enc_exts pre @ enc_ext (0, sni_data name) @ enc_exts post"
    by (simp add: assms(2) enc_exts_def)
  have small: "length (snd e) < 2 ^ 16" if "e \<in> set (ch_exts ch)" for e
  proof -
    have "length (enc_ext e) \<le> n" unfolding n_def enc_exts_def
      using that by (simp add: length_concat member_le_sum_list)
    then show ?thesis using n by (simp add: enc_ext_def)
  qed
  have "ext_loop data (pos + n) pos = Return (byte_string name)"
  proof (rule ext_loop_find [where pre = pre and rest = "enc_exts post @ rest"])
    show "drop pos data = enc_exts pre @ enc_ext (0, sni_data name) @ enc_exts post @ rest"
      using pos exts by simp
    show "\<forall>e\<in>set pre. 0 < fst e \<and> fst e < 2 ^ 16 \<and> length (snd e) < 2 ^ 16"
      using assms(2,3) small wf by auto
    show "length name + 5 < 2 ^ 16" using small [of "(0, sni_data name)"] assms(2) by simp
    show "pos + length (enc_exts pre) + 4 \<le> pos + n" using exts by (simp add: n_def enc_ext_def)
  qed
  then show ?thesis using ex data_def by simp
qed

definition sample_hello :: client_hello where
  "sample_hello = \<lparr>ch_random = replicate 32 7, ch_session = [], ch_ciphers = [0x13, 0x01], ch_comps = [0],
     ch_exts = [(43, [2, 3, 4]), (0, sni_data [0x61, 0x62])]\<rparr>"

lemma sample_hello_wf: "wf_hello sample_hello"
  by (simp add: wf_hello_def sample_hello_def enc_body_def enc_exts_def enc_ext_def)

theorem SNI_roundtrip_witness: "extractSNI (enc_hello sample_hello) = Return ''ab''"
proof -
  have "char_of (97 :: nat) = CHR ''a''" "char_of (98 :: nat) = CHR ''b''" by code_simp+
  then show ?thesis
    using SNI_roundtrip [OF sample_hello_wf, of "[(43, [2, 3, 4])]" "[0x61, 0x62]" "[]" "[]"]
    by (simp add: sample_hello_def byte_string_def)
qed

text \<open>C23: peeking loses no bytes. Let \<open>PeekSNI\<close> return a connection and its reader use buffers of any
  sizes. The bytes it gets are those the client's connection would have delivered, in order, up to what is still to
  be read; a read reports the end only after all of them, and as the client's connection ends (EOF or an error); and
  with buffers that are not empty, as many reads as there are bytes and segments deliver every byte.\<close>

theorem PeekSNI_replays:
  assumes "PeekSNI c = Return (Inr (name, bc))" and "buf_reads ks bc = (rs, bc')"
  shows "delivered rs @ bc_r bc' @ concat (cn_segs (bc_conn bc')) = concat (cn_segs c) \<and>
    (\<forall>i<length rs. (\<forall>bs. rs ! i \<noteq> ReadBytes bs) \<longrightarrow>
       delivered (take i rs) = concat (cn_segs c) \<and> rs ! i = (if cn_err c then ReadError else ReadEOF)) \<and>
    ((\<forall>k\<in>set ks. 0 < k) \<and> length (concat (cn_segs c)) + length (cn_segs c) \<le> length ks \<longrightarrow> delivered rs = concat (cn_segs c))"
proof -
  note keep = PeekSNI_keeps [OF assms(1)]
  have all: "delivered rs @ buf_stream bc' = stream c" using buf_reads_stream [OF assms(2)] keep by simp
  have "delivered rs = stream c" if "\<forall>k\<in>set ks. 0 < k" "length (stream c) + length (cn_segs c) \<le> length ks"
  proof -
    have "left bc' = 0" using buf_reads_left [OF assms(2) that(1)] that(2) keep by (simp add: left_def)
    then show ?thesis using all by (simp add: left_def)
  qed
  then show ?thesis using all buf_reads_end [OF assms(2)] keep(1,2) unfolding end_of_def buf_stream_def stream_def by simp
qed

text \<open>Two segments, read with buffers of two bytes: all five bytes, and then the end.\<close>

theorem PeekSNI_replays_witness:
  "\<exists>rs bc'. buf_reads (replicate 7 2) \<lparr>bc_conn = \<lparr>cn_segs = [[4, 5]], cn_err = False\<rparr>, bc_r = [1, 2, 3]\<rparr> = (rs, bc') \<and>
     delivered rs = [1, 2, 3, 4, 5] \<and> rs ! 4 = ReadEOF"
proof -
  let ?c = "\<lparr>cn_segs = [[1, 2, 3], [4, 5]], cn_err = False\<rparr>"
  let ?bc = "\<lparr>bc_conn = \<lparr>cn_segs = [[4, 5]], cn_err = False\<rparr>, bc_r = [1, 2, 3]\<rparr>"
  obtain rs bc' where b: "buf_reads (replicate 7 2) ?bc = (rs, bc')" by fastforce
  have "PeekSNI ?c = Return (Inr ([], ?bc))" by (simp add: PeekSNI_def conn_Read_def extractSNI_def)
  from PeekSNI_replays [OF this b] have "delivered rs = [1, 2, 3, 4, 5]" by simp
  moreover have "rs ! 4 = ReadEOF" using b by (auto simp: numeral_nat bufConn_Read_def conn_Read_def)
  ultimately show ?thesis using b by blast
qed

text \<open>The peek is a single read. A complete ClientHello with a server name that arrives in two
  segments, the first with fewer than five bytes, is taken to have no server name.\<close>

theorem PeekSNI_single_read:
  assumes "length s1 < 5" and "s1 @ s2 = enc_hello sample_hello"
  shows "PeekSNI \<lparr>cn_segs = [s1, s2], cn_err = False\<rparr> =
    Return (Inr ([], \<lparr>bc_conn = \<lparr>cn_segs = [s2], cn_err = False\<rparr>, bc_r = s1\<rparr>))"
  using assms by (simp add: PeekSNI_def conn_Read_def extractSNI_def)

theorem PeekSNI_single_read_witness:
  "PeekSNI \<lparr>cn_segs = [take 3 (enc_hello sample_hello), drop 3 (enc_hello sample_hello)], cn_err = False\<rparr> =
    Return (Inr ([], \<lparr>bc_conn = \<lparr>cn_segs = [drop 3 (enc_hello sample_hello)], cn_err = False\<rparr>,
      bc_r = take 3 (enc_hello sample_hello)\<rparr>))"
  by (rule PeekSNI_single_read) simp_all

end
