(* ===== verification/TlsListener.thy ===== *)
theory TlsListener
  imports Prelude
begin

text \<open>
  \<open>internal/tls/termination.go\<close>, \<open>mtls.go\<close> and \<open>watcher.go\<close>: the terminating
  listener with its hot-swapped configuration, mutual TLS configurations and the watcher that
  reloads certificates. Loading key pairs and CA pools is a parameter. \<open>storeCert\<close> reads the
  pointer to the configuration as a pointer to a certificate, so the listener keeps its objects
  in a memory of typed cells, and reading a cell at the wrong type gives no certificate.
\<close>

section \<open>Configurations\<close>

datatype client_auth = NoClientCert | RequireAndVerifyClientCert

datatype tls_version = VersionTLS10 | VersionTLS11 | VersionTLS12 | VersionTLS13

record ('c, 'p) tls_config =
  tc_Certificates :: "'c list"
  tc_GetCertificate :: bool
  tc_ClientCAs :: "'p option"
  tc_ClientAuth :: client_auth
  tc_MinVersion :: tls_version

datatype ('c, 'p) cell = CertCell 'c | ConfigCell "('c, 'p) tls_config"

type_synonym ('c, 'p) memory = "('c, 'p) cell list"

datatype tls_error = LoadCertKey string | ReloadCertError string | LoadServerCert string | ReadCAFile string | NoValidCA string

section \<open>The terminating listener\<close>

text \<open>The listener's \<open>cfg\<close> field: the address of a cell.\<close>

record listener =
  tl_cfg :: "nat option"

definition storeCert :: "nat \<Rightarrow> ('c, 'p) memory \<times> listener \<Rightarrow> ('c, 'p) memory \<times> listener" where
  "storeCert cert ml =
     (let (m, lst) = ml;
          cfg = \<lparr>tc_Certificates = [], tc_GetCertificate = True, tc_ClientCAs = None,
                 tc_ClientAuth = NoClientCert, tc_MinVersion = VersionTLS12\<rparr>
      in (m @ [ConfigCell cfg], lst\<lparr>tl_cfg := Some (length m)\<rparr>))"

definition NewTerminationListener ::
  "(string \<Rightarrow> string \<Rightarrow> string + 'c) \<Rightarrow> string \<Rightarrow> string \<Rightarrow> ('c, 'p) memory \<Rightarrow> tls_error + ('c, 'p) memory \<times> listener" where
  "NewTerminationListener load certFile keyFile m =
     (case load certFile keyFile of
        Inl err \<Rightarrow> Inl (LoadCertKey err)
      | Inr cert \<Rightarrow> Inr (storeCert (length m) (m @ [CertCell cert], \<lparr>tl_cfg = None\<rparr>)))"

definition ReloadCert ::
  "(string \<Rightarrow> string \<Rightarrow> string + 'c) \<Rightarrow> string \<Rightarrow> string \<Rightarrow> ('c, 'p) memory \<times> listener \<Rightarrow>
   tls_error option \<times> ('c, 'p) memory \<times> listener" where
  "ReloadCert load certFile keyFile ml =
     (case load certFile keyFile of
        Inl err \<Rightarrow> (Some (ReloadCertError err), ml)
      | Inr cert \<Rightarrow>
          (let (m, lst) = ml;
               cfg = \<lparr>tc_Certificates = [cert], tc_GetCertificate = False, tc_ClientCAs = None,
                      tc_ClientAuth = NoClientCert, tc_MinVersion = VersionTLS12\<rparr>
           in (None, m @ [ConfigCell cfg], lst\<lparr>tl_cfg := Some (length m)\<rparr>)))"

text \<open>\<open>Accept\<close>: the inner listener's result is a parameter; a connection carries the address
  of the configuration it was wrapped with.\<close>

definition Accept :: "string + 'n \<Rightarrow> listener \<Rightarrow> string + 'n \<times> nat option" where
  "Accept inner lst = (case inner of Inl err \<Rightarrow> Inl err | Inr conn \<Rightarrow> Inr (conn, tl_cfg lst))"

text \<open>\<open>NewTLSListener\<close>: a listener whose connections get the configuration it was made with.\<close>

definition NewTLSListener :: "nat \<Rightarrow> listener" where
  "NewTLSListener cfg = \<lparr>tl_cfg = Some cfg\<rparr>"

text \<open>
  The closure \<open>GetCertificate\<close>: the word at \<open>&tl.cfg\<close>, read as a pointer to a certificate. Where it
  points to a configuration, the code returns a pointer that is not nil, to memory without a certificate chain and
  without a key; the handshake fails on it as without a certificate, which is how it is represented.
\<close>

definition GetCertificate :: "('c, 'p) memory \<Rightarrow> listener \<Rightarrow> 'c option" where
  "GetCertificate m lst =
     (case tl_cfg lst of
        None \<Rightarrow> None
      | Some a \<Rightarrow> (case m ! a of CertCell c \<Rightarrow> Some c | ConfigCell _ \<Rightarrow> None))"

text \<open>The certificate the server presents on a connection with the configuration at \<open>a\<close>.\<close>

definition served_cert :: "('c, 'p) memory \<Rightarrow> listener \<Rightarrow> nat option \<Rightarrow> 'c option" where
  "served_cert m lst a =
     (case a of
        None \<Rightarrow> None
      | Some a \<Rightarrow>
          (case m ! a of
             CertCell _ \<Rightarrow> None
           | ConfigCell cfg \<Rightarrow>
               if tc_GetCertificate cfg then GetCertificate m lst
               else (case tc_Certificates cfg of c # _ \<Rightarrow> Some c | [] \<Rightarrow> None)))"

section \<open>Mutual TLS\<close>

definition MTLSConfig ::
  "(string \<Rightarrow> string \<Rightarrow> string + 'c) \<Rightarrow> (string \<Rightarrow> string + string) \<Rightarrow> (string \<Rightarrow> 'p option) \<Rightarrow>
   string \<Rightarrow> string \<Rightarrow> string \<Rightarrow> tls_error + ('c, 'p) tls_config" where
  "MTLSConfig load readFile parsePool certFile keyFile caFile =
     (case load certFile keyFile of
        Inl err \<Rightarrow> Inl (LoadServerCert err)
      | Inr cert \<Rightarrow>
          (case readFile caFile of
             Inl err \<Rightarrow> Inl (ReadCAFile err)
           | Inr caPEM \<Rightarrow>
               (case parsePool caPEM of
                  None \<Rightarrow> Inl (NoValidCA caFile)
                | Some caPool \<Rightarrow>
                    Inr \<lparr>tc_Certificates = [cert], tc_GetCertificate = False, tc_ClientCAs = Some caPool,
                         tc_ClientAuth = RequireAndVerifyClientCert, tc_MinVersion = VersionTLS12\<rparr>)))"

text \<open>\<open>RedirectHandler\<close> returns a nil function; calling it faults.\<close>

definition RedirectHandler :: "string \<Rightarrow> ('w \<Rightarrow> 'w) option" where
  "RedirectHandler httpsHost = None"

definition call_func :: "('w \<Rightarrow> 'w) option \<Rightarrow> 'w \<Rightarrow> 'w outcome" where
  "call_func f w = bind_outcome (atomic_access f) (\<lambda>f. Return (f w))"

lemma RedirectHandler_panics: "call_func (RedirectHandler httpsHost) w = Panic NilDereference"
  by (simp add: call_func_def RedirectHandler_def atomic_access_def)

section \<open>The watcher\<close>

text \<open>
  What \<open>Watch\<close>'s select receives: a file event says whether it has the write and the
  create bits, and carries the files' contents at that time (the argument of the reload).
\<close>

datatype 'e watch_event = WDone | FileEvent bool bool 'e | EventsClosed | WatchError string | ErrorsClosed

record reloader =
  cr_certFile :: string
  cr_keyFile :: string

fun Watch_loop :: "('e \<Rightarrow> string \<Rightarrow> string \<Rightarrow> 's \<Rightarrow> tls_error option \<times> 's) \<Rightarrow> reloader \<Rightarrow> 'e watch_event list \<Rightarrow> 's \<Rightarrow> 's" where
  "Watch_loop reloadFn cr [] s = s"
| "Watch_loop reloadFn cr (WDone # evs) s = s"
| "Watch_loop reloadFn cr (FileEvent wr cre e # evs) s =
     (if wr \<or> cre then Watch_loop reloadFn cr evs (snd (reloadFn e (cr_certFile cr) (cr_keyFile cr) s))
      else Watch_loop reloadFn cr evs s)"
| "Watch_loop reloadFn cr (EventsClosed # evs) s = s"
| "Watch_loop reloadFn cr (WatchError err # evs) s = Watch_loop reloadFn cr evs s"
| "Watch_loop reloadFn cr (ErrorsClosed # evs) s = s"

text \<open>\<open>Watch\<close> itself: making the watcher and adding the two files can fail.\<close>

definition Watch ::
  "bool \<Rightarrow> (string \<Rightarrow> bool) \<Rightarrow> ('e \<Rightarrow> string \<Rightarrow> string \<Rightarrow> 's \<Rightarrow> tls_error option \<times> 's) \<Rightarrow> reloader \<Rightarrow>
   'e watch_event list \<Rightarrow> 's \<Rightarrow> bool \<times> 's" where
  "Watch new_ok add_ok reloadFn cr evs s =
     (if \<not> new_ok then (False, s)
      else if \<not> add_ok (cr_certFile cr) then (False, s)
      else if \<not> add_ok (cr_keyFile cr) then (False, s)
      else (True, Watch_loop reloadFn cr evs s))"

section \<open>The configuration in use\<close>

definition current_config :: "('c, 'p) memory \<times> listener \<Rightarrow> ('c, 'p) tls_config option" where
  "current_config ml =
     (case tl_cfg (snd ml) of
        None \<Rightarrow> None
      | Some a \<Rightarrow> if a < length (fst ml) then
                     (case fst ml ! a of ConfigCell cfg \<Rightarrow> Some cfg | CertCell _ \<Rightarrow> None) else None)"

definition valid_listener :: "('c, 'p) memory \<times> listener \<Rightarrow> bool" where
  "valid_listener ml \<longleftrightarrow> current_config ml \<noteq> None"

lemma served_current:
  assumes "current_config (m, lst) = Some cfg"
  shows "served_cert m lst (tl_cfg lst) =
    (if tc_GetCertificate cfg then None else (case tc_Certificates cfg of c # _ \<Rightarrow> Some c | [] \<Rightarrow> None))"
  using assms by (auto simp: current_config_def served_cert_def GetCertificate_def split: option.splits if_splits cell.splits)

text \<open>The certificate of the last load that succeeded, starting from \<open>c\<close>.\<close>

fun last_loaded :: "(string \<Rightarrow> string \<Rightarrow> string + 'c) list \<Rightarrow> reloader \<Rightarrow> 'c option \<Rightarrow> 'c option" where
  "last_loaded [] cr c = c"
| "last_loaded (load # loads) cr c =
     last_loaded loads cr (case load (cr_certFile cr) (cr_keyFile cr) of Inl _ \<Rightarrow> c | Inr cert \<Rightarrow> Some cert)"

lemma ReloadCert_current:
  assumes "valid_listener ml"
  shows "current_config (snd (ReloadCert load certFile keyFile ml)) =
    (case load certFile keyFile of
       Inl _ \<Rightarrow> current_config ml
     | Inr cert \<Rightarrow> Some \<lparr>tc_Certificates = [cert], tc_GetCertificate = False, tc_ClientCAs = None,
         tc_ClientAuth = NoClientCert, tc_MinVersion = VersionTLS12\<rparr>)"
proof (cases "load certFile keyFile")
  case (Inl err)
  then show ?thesis by (simp add: ReloadCert_def)
next
  case (Inr cert)
  then show ?thesis by (simp add: ReloadCert_def current_config_def split_beta)
qed

text \<open>The loads that a sequence of watch events triggers before the loop ends.\<close>

fun watched_loads :: "'e watch_event list \<Rightarrow> 'e list" where
  "watched_loads (FileEvent wr cre e # evs) = (if wr \<or> cre then e # watched_loads evs else watched_loads evs)"
| "watched_loads (WatchError err # evs) = watched_loads evs"
| "watched_loads _ = []"

definition presented :: "('c, 'p) memory \<times> listener \<Rightarrow> 'c option" where
  "presented ml = served_cert (fst ml) (snd ml) (tl_cfg (snd ml))"

lemma ReloadCert_presented:
  assumes "valid_listener ml"
  shows "presented (snd (ReloadCert load certFile keyFile ml)) =
      (case load certFile keyFile of Inl _ \<Rightarrow> presented ml | Inr cert \<Rightarrow> Some cert)"
    and "valid_listener (snd (ReloadCert load certFile keyFile ml))"
proof -
  let ?ml = "snd (ReloadCert load certFile keyFile ml)"
  note cur = ReloadCert_current [OF assms, of load certFile keyFile]
  show v: "valid_listener ?ml"
    using cur assms by (auto simp: valid_listener_def split: sum.splits)
  show "presented ?ml = (case load certFile keyFile of Inl _ \<Rightarrow> presented ml | Inr cert \<Rightarrow> Some cert)"
  proof (cases "load certFile keyFile")
    case (Inl err)
    then show ?thesis by (simp add: ReloadCert_def)
  next
    case (Inr cert)
    then show ?thesis
      using cur served_current [of "fst ?ml" "snd ?ml"] by (simp add: presented_def)
  qed
qed

lemma Watch_loop_presented:
  assumes "valid_listener ml"
  shows "presented (Watch_loop (\<lambda>load certFile keyFile. ReloadCert load certFile keyFile) cr evs ml) =
    last_loaded (watched_loads evs) cr (presented ml)"
  using assms
proof (induction evs arbitrary: ml)
  case (Cons ev evs)
  show ?case
  proof (cases ev)
    case (FileEvent wr cre load)
    then show ?thesis
      using Cons.IH [OF ReloadCert_presented(2) [OF Cons.prems]] Cons.IH [OF Cons.prems]
        ReloadCert_presented(1) [OF Cons.prems, of load "cr_certFile cr" "cr_keyFile cr"]
      by (auto split: sum.splits)
  qed (use Cons in auto)
qed simp

section \<open>Properties\<close>

text \<open>C39: which certificate a terminating listener presents. A newly made listener presents no
  certificate on the connections it accepts, although it loaded one (the closure in
  \<open>storeCert\<close> reads the configuration pointer as a certificate pointer); while the watcher
  runs, connections are presented the certificate of the last reload that succeeded, and a
  failed reload changes nothing.\<close>

theorem Listener_presents_last_reload:
  assumes "NewTerminationListener load certFile keyFile m = Inr ml"
  shows "served_cert (fst ml) (snd ml) (tl_cfg (snd ml)) = None \<and>
    (let (m', lst') = Watch_loop (\<lambda>load certFile keyFile. ReloadCert load certFile keyFile) cr evs ml
     in served_cert m' lst' (tl_cfg lst') = last_loaded (watched_loads evs) cr None)"
proof -
  have cur: "\<exists>cfg. current_config ml = Some cfg \<and> tc_GetCertificate cfg"
    using assms by (auto simp: NewTerminationListener_def storeCert_def current_config_def Let_def nth_append split: sum.splits)
  then have "presented ml = None" "valid_listener ml"
    using served_current [of "fst ml" "snd ml"] by (auto simp: presented_def valid_listener_def)
  then show ?thesis using Watch_loop_presented [of ml cr evs] by (simp add: presented_def split_beta)
qed

theorem Listener_presents_last_reload_witness:
  "\<exists>ml. NewTerminationListener (\<lambda>_ _. Inr (1 :: nat)) ''c'' ''k'' ([] :: (nat, nat) memory) = Inr ml \<and>
     served_cert (fst ml) (snd ml) (tl_cfg (snd ml)) = None \<and>
     (let (m', lst') = Watch_loop (\<lambda>load certFile keyFile. ReloadCert load certFile keyFile) \<lparr>cr_certFile = ''c'', cr_keyFile = ''k''\<rparr>
        [FileEvent True False (\<lambda>_ _. Inr 2), FileEvent False True (\<lambda>_ _. Inl ''bad key'')] ml
      in served_cert m' lst' (tl_cfg lst') = Some 2)"
proof -
  obtain ml :: "(nat, nat) memory \<times> listener"
    where ml: "NewTerminationListener (\<lambda>_ _. Inr (1 :: nat)) ''c'' ''k'' [] = Inr ml"
    by (simp add: NewTerminationListener_def)
  show ?thesis
    using ml Listener_presents_last_reload [OF ml, of "\<lparr>cr_certFile = ''c'', cr_keyFile = ''k''\<rparr>"
      "[FileEvent True False (\<lambda>_ _. Inr 2), FileEvent False True (\<lambda>_ _. Inl ''bad key'')]"]
    by (auto simp del: Watch_loop.simps)
qed

lemma MTLSConfig_strict:
  "MTLSConfig load readFile parsePool certFile keyFile caFile = Inr cfg \<Longrightarrow>
   tc_ClientAuth cfg = RequireAndVerifyClientCert \<and> tc_ClientCAs cfg \<noteq> None \<and> tc_MinVersion cfg = VersionTLS12 \<and>
   tc_Certificates cfg \<noteq> []"
  by (auto simp: MTLSConfig_def split: sum.splits option.splits)

text \<open>A listener over a mutual TLS configuration: every connection it accepts presents the server's
  certificate and requires a client certificate of the given authorities.\<close>

lemma MTLS_listener:
  assumes "MTLSConfig load readFile parsePool certFile keyFile caFile = Inr cfg"
    and "Accept (Inr conn) (NewTLSListener (length m)) = Inr (conn, a)"
  shows "a = Some (length m) \<and> tc_ClientAuth cfg = RequireAndVerifyClientCert \<and>
    (\<exists>cert. load certFile keyFile = Inr cert \<and> served_cert (m @ [ConfigCell cfg]) (NewTLSListener (length m)) a = Some cert)"
  using assms by (auto simp: MTLSConfig_def Accept_def NewTLSListener_def served_cert_def split: sum.splits option.splits)

end
