(* ===== verification/Admin.thy ===== *)
theory Admin
  imports Http
begin

text \<open>
  \<open>internal/admin\<close>: the admin API on the backend pool (\<open>server.go\<close>), draining
  (\<open>drain.go\<close>) and the holder of the live configuration (\<open>reload.go\<close>). JSON decoding and
  encoding, URL parsing and printing are parameters. The API is related to a directory, the list of
  the IDs and weights of the backends: every request changes it as its method and path say.
\<close>

section \<open>Handlers\<close>

record add_request =
  ar_ID :: string
  ar_Addr :: string
  ar_Weight :: int

text \<open>
  The parameters of the handlers: the JSON codec, the URL functions and the verb \<open>%q\<close>; and of
  the multiplexer: the cleaning of paths and the permanent redirect to another path.
\<close>

record admin_env =
  ae_codec :: codec
  ae_urlParse :: "string \<Rightarrow> string + url"
  ae_urlString :: "url \<Rightarrow> string"
  ae_decodeAdd :: "string \<Rightarrow> string + add_request"
  ae_decodeWeight :: "string \<Rightarrow> string + int"
  ae_encodeList :: "snapshot list \<Rightarrow> string"
  ae_encode :: "snapshot \<Rightarrow> string"
  ae_quote :: "string \<Rightarrow> string"
  ae_cleanPath :: "string \<Rightarrow> string"
  ae_redirect :: "request \<Rightarrow> string \<Rightarrow> writer \<Rightarrow> writer"

record admin_state =
  as_heap :: heap
  as_pool :: pool
  as_writer :: writer

definition body_bytes :: "request \<Rightarrow> string" where
  "body_bytes r = (case r_Body r of None \<Rightarrow> [] | Some bd \<Rightarrow> bd_data bd)"

definition writeJSON :: "codec \<Rightarrow> int \<Rightarrow> string \<Rightarrow> writer \<Rightarrow> writer" where
  "writeJSON z code v w =
     (let w = w_setHeader (\<lambda>h. Header_Set h ''Content-Type'' ''application/json'') w;
          w = w_WriteHeader code w
      in w_Write z v w)"

definition admin_Error :: "admin_env \<Rightarrow> string \<Rightarrow> int \<Rightarrow> admin_state \<Rightarrow> admin_state" where
  "admin_Error env msg code s = s\<lparr>as_writer := http_Error (ae_codec env) msg code (as_writer s)\<rparr>"

definition handleListBackends :: "admin_env \<Rightarrow> request \<Rightarrow> admin_state \<Rightarrow> admin_state" where
  "handleListBackends env r s =
     (let snaps = Pool_Snapshots (ae_urlString env) (as_heap s) (as_pool s)
      in s\<lparr>as_writer := writeJSON (ae_codec env) 200 (ae_encodeList env snaps) (as_writer s)\<rparr>)"

definition handleAddBackend :: "admin_env \<Rightarrow> request \<Rightarrow> admin_state \<Rightarrow> admin_state" where
  "handleAddBackend env r s =
     (case ae_decodeAdd env (body_bytes r) of
        Inl err \<Rightarrow> admin_Error env err 400 s
      | Inr req \<Rightarrow>
          (case Backend_New (ae_urlParse env) (ar_ID req) (ar_Addr req) (ar_Weight req) of
             Inl err \<Rightarrow> admin_Error env err 400 s
           | Inr b \<Rightarrow>
               (let (ref, h) = alloc (as_heap s) b;
                    s = s\<lparr>as_heap := h, as_pool := Pool_Add (as_pool s) ref\<rparr>
                in s\<lparr>as_writer := writeJSON (ae_codec env) 201
                       (ae_encode env (Backend_Snapshot (ae_urlString env) b)) (as_writer s)\<rparr>)))"

definition not_found_message :: "admin_env \<Rightarrow> pool_error \<Rightarrow> string" where
  "not_found_message env e = (case e of BackendNotFound i \<Rightarrow> ''backend '' @ ae_quote env i @ '' not found'')"

definition handleRemoveBackend :: "admin_env \<Rightarrow> request \<Rightarrow> admin_state \<Rightarrow> admin_state" where
  "handleRemoveBackend env r s =
     (let i = TrimPrefix (u_Path (r_URL r)) ''/admin/backends/''
      in case Pool_Remove (as_heap s) (as_pool s) i of
           Inl err \<Rightarrow> admin_Error env (not_found_message env err) 404 s
         | Inr p \<Rightarrow> (let s = s\<lparr>as_pool := p\<rparr> in s\<lparr>as_writer := w_WriteHeader 204 (as_writer s)\<rparr>))"

definition handleUpdateWeight :: "admin_env \<Rightarrow> request \<Rightarrow> admin_state \<Rightarrow> admin_state" where
  "handleUpdateWeight env r s =
     (let i = TrimPrefix (u_Path (r_URL r)) ''/admin/backends/'';
          i = TrimSuffix i ''/weight''
      in case ae_decodeWeight env (body_bytes r) of
           Inl err \<Rightarrow> admin_Error env err 400 s
         | Inr weight \<Rightarrow>
             (case Pool_Get (as_heap s) (as_pool s) i of
                None \<Rightarrow> admin_Error env ''not found'' 404 s
              | Some b \<Rightarrow>
                  (let s = s\<lparr>as_heap := modify (as_heap s) b (\<lambda>b. b\<lparr>b_Weight := weight\<rparr>)\<rparr>
                   in s\<lparr>as_writer := writeJSON (ae_codec env) 200
                          (ae_encode env (Backend_Snapshot (ae_urlString env) (as_heap s ! b))) (as_writer s)\<rparr>)))"

definition handleReload :: "request \<Rightarrow> admin_state \<Rightarrow> admin_state" where
  "handleReload r s = s\<lparr>as_writer := w_WriteHeader 202 (as_writer s)\<rparr>"

text \<open>The patterns registered in \<open>New\<close>; a pattern for GET also serves HEAD.\<close>

datatype admin_route = ListRoute | AddRoute | RemoveRoute | WeightRoute | ReloadRoute

definition under_backends :: "string \<Rightarrow> bool" where
  "under_backends path \<longleftrightarrow> strip_prefix ''/admin/backends/'' path \<noteq> None"

definition admin_mux :: "string \<Rightarrow> string \<Rightarrow> admin_route option" where
  "admin_mux method path =
     (if path = ''/admin/backends'' \<and> (method = ''GET'' \<or> method = ''HEAD'') then Some ListRoute
      else if path = ''/admin/backends'' \<and> method = ''POST'' then Some AddRoute
      else if under_backends path \<and> method = ''DELETE'' then Some RemoveRoute
      else if under_backends path \<and> method = ''PUT'' then Some WeightRoute
      else if path = ''/admin/reload'' \<and> method = ''POST'' then Some ReloadRoute
      else None)"

text \<open>The methods that some pattern allows for a path, or for the path with a slash added, sorted.\<close>

definition allowed_methods :: "string \<Rightarrow> string" where
  "allowed_methods path =
     (if path = ''/admin/backends'' then ''DELETE, GET, HEAD, POST, PUT''
      else if under_backends path then ''DELETE, PUT''
      else if path = ''/admin/reload'' then ''POST'' else [])"

text \<open>
  \<open>ServeMux\<close>: a path without the final slash of a subtree pattern and a path that is not clean
  are redirected (not for CONNECT, which the patterns do not mention); without a matching
  pattern the answer is 405 when another method is allowed and 404 otherwise.
\<close>

definition admin_dispatch :: "admin_env \<Rightarrow> request \<Rightarrow> string + admin_route option" where
  "admin_dispatch env r =
     (let path = ae_cleanPath env (u_Path (r_URL r)) in
      if r_Method r = ''CONNECT'' then Inr None
      else if admin_mux (r_Method r) path = None \<and> admin_mux (r_Method r) (path @ ''/'') \<noteq> None \<and>
        path = ''/admin/backends'' then Inl (path @ ''/'')
      else if path \<noteq> u_Path (r_URL r) then Inl path
      else Inr (admin_mux (r_Method r) path))"

definition method_not_allowed :: "admin_env \<Rightarrow> string \<Rightarrow> admin_state \<Rightarrow> admin_state" where
  "method_not_allowed env path s =
     admin_Error env ''Method Not Allowed'' 405
       (s\<lparr>as_writer := w_setHeader (\<lambda>h. Header_Set h ''Allow'' (allowed_methods path)) (as_writer s)\<rparr>)"

definition Admin_ServeHTTP :: "admin_env \<Rightarrow> request \<Rightarrow> admin_state \<Rightarrow> admin_state" where
  "Admin_ServeHTTP env r s =
     (case admin_dispatch env r of
        Inl target \<Rightarrow> s\<lparr>as_writer := ae_redirect env r target (as_writer s)\<rparr>
      | Inr (Some ListRoute) \<Rightarrow> handleListBackends env r s
      | Inr (Some AddRoute) \<Rightarrow> handleAddBackend env r s
      | Inr (Some RemoveRoute) \<Rightarrow> handleRemoveBackend env r s
      | Inr (Some WeightRoute) \<Rightarrow> handleUpdateWeight env r s
      | Inr (Some ReloadRoute) \<Rightarrow> handleReload r s
      | Inr None \<Rightarrow>
          if allowed_methods (u_Path (r_URL r)) \<noteq> [] then method_not_allowed env (u_Path (r_URL r)) s
          else admin_Error env ''404 page not found'' 404 s)"

text \<open>\<open>Start\<close>: the error of \<open>ListenAndServe\<close>, where \<open>http.ErrServerClosed\<close> (\<open>None\<close> inside) is no error.\<close>

definition Admin_Start :: "string option option \<Rightarrow> string option" where
  "Admin_Start listenErr = (case listenErr of Some (Some err) \<Rightarrow> Some err | _ \<Rightarrow> None)"

section \<open>Draining\<close>

record drainer =
  dr_timeout :: duration

definition NewDrainer :: "duration \<Rightarrow> drainer" where
  "NewDrainer timeout = \<lparr>dr_timeout = (if timeout = 0 then 30 * second else timeout)\<rparr>"

text \<open>The goroutine of \<open>Drain\<close>: \<open>conns\<close> are the active connections at each tick of 50 ms. It
  loads through a nil pointer before it looks at them. \<open>Drain\<close> waits for the ticks before the
  timeout; with a timeout that ends before the first tick it returns and the goroutine is left
  behind.\<close>

fun drain_poll :: "int64 list \<Rightarrow> nat \<Rightarrow> nat option outcome" where
  "drain_poll [] ticks = Return None"
| "drain_poll (c # conns) ticks =
     bind_outcome (atomic_access (None :: int64 option)) (\<lambda>v.
       if v = 0 \<or> c = 0 then Return (Some (ticks + 1)) else drain_poll conns (ticks + 1))"

definition Drain :: "drainer \<Rightarrow> (nat \<Rightarrow> int64) \<Rightarrow> backend \<Rightarrow> backend \<times> unit outcome" where
  "Drain d conns b =
     (let b = SetHealth HealthDisabled b;
          ticks = nat ((dr_timeout d - 1) div (50 * millisecond))
      in (b, bind_outcome (drain_poll (map conns [0..<ticks]) 0) (\<lambda>_. Return ())))"

section \<open>The live configuration\<close>

type_synonym 'c config_reloader = "'c option"

definition NewConfigReloader :: "'c \<Rightarrow> 'c config_reloader" where
  "NewConfigReloader initial = Some initial"

definition ConfigReloader_Load :: "'c config_reloader \<Rightarrow> 'c option" where
  "ConfigReloader_Load r = r"

definition ConfigReloader_Store :: "'c \<Rightarrow> 'c config_reloader \<Rightarrow> 'c config_reloader" where
  "ConfigReloader_Store cfg r = Some cfg"

text \<open>\<open>load\<close> is \<open>config.Load\<close> on the file system of the moment.\<close>

definition ConfigReloader_Reload :: "(string \<Rightarrow> 'e + 'c) \<Rightarrow> string \<Rightarrow> 'c config_reloader \<Rightarrow> 'e option \<times> 'c config_reloader" where
  "ConfigReloader_Reload load path r =
     (case load path of Inl err \<Rightarrow> (Some err, r) | Inr cfg \<Rightarrow> (None, ConfigReloader_Store cfg r))"

section \<open>The API as operations on a directory\<close>

text \<open>The pool as its clients see it: the backends' IDs and weights, in order.\<close>

type_synonym directory = "(string \<times> int) list"

definition directory_of :: "admin_state \<Rightarrow> directory" where
  "directory_of s = map (\<lambda>b. (b_ID (as_heap s ! b), b_Weight (as_heap s ! b))) (p_backends (as_pool s))"

text \<open>Both act on the first entry with the ID, if there is one.\<close>

fun remove_entry :: "string \<Rightarrow> directory \<Rightarrow> directory" where
  "remove_entry i [] = []"
| "remove_entry i ((j, w) # d) = (if j = i then d else (j, w) # remove_entry i d)"

fun set_entry :: "string \<Rightarrow> int \<Rightarrow> directory \<Rightarrow> directory" where
  "set_entry i w [] = []"
| "set_entry i w ((j, v) # d) = (if j = i then (j, w) # d else (j, v) # set_entry i w d)"

text \<open>
  What the API promises for a request, by its method and path. A path that is not clean is
  redirected. A POST to \<open>/admin/backends\<close> with a valid body adds an entry at the end, with weight 1 for
  one that is not positive; below \<open>/admin/backends/\<close>, DELETE removes the entry named by the rest of the
  path and PUT, with a valid body, sets its weight; nothing else changes the directory.
\<close>

definition directory_after :: "admin_env \<Rightarrow> request \<Rightarrow> directory \<Rightarrow> directory" where
  "directory_after env r d =
     (let path = u_Path (r_URL r); rest = drop 16 path; below = (take 16 path = ''/admin/backends/'') in
      if ae_cleanPath env path \<noteq> path then d
      else if r_Method r = ''POST'' \<and> path = ''/admin/backends'' then
        (case ae_decodeAdd env (body_bytes r) of
           Inl _ \<Rightarrow> d
         | Inr req \<Rightarrow>
             (case ae_urlParse env (ar_Addr req) of
                Inl _ \<Rightarrow> d
              | Inr _ \<Rightarrow> d @ [(ar_ID req, if ar_Weight req \<le> 0 then 1 else ar_Weight req)]))
      else if r_Method r = ''DELETE'' \<and> below then remove_entry rest d
      else if r_Method r = ''PUT'' \<and> below then
        (case ae_decodeWeight env (body_bytes r) of
           Inl _ \<Rightarrow> d
         | Inr weight \<Rightarrow> set_entry (TrimSuffix rest ''/weight'') weight d)
      else d)"

definition admin_wf :: "admin_state \<Rightarrow> bool" where
  "admin_wf s \<longleftrightarrow> wf_refs (as_heap s) (p_backends (as_pool s)) \<and> distinct (p_backends (as_pool s))"

lemma admin_Error_state [simp]:
  "as_heap (admin_Error env msg code s) = as_heap s" "as_pool (admin_Error env msg code s) = as_pool s"
  by (simp_all add: admin_Error_def)

lemma directory_writer [simp]:
  "directory_of (s\<lparr>as_writer := w\<rparr>) = directory_of s" "admin_wf (s\<lparr>as_writer := w\<rparr>) = admin_wf s"
  by (simp_all add: directory_of_def admin_wf_def)

lemma admin_Error_directory [simp]:
  "directory_of (admin_Error env msg code s) = directory_of s" "admin_wf (admin_Error env msg code s) = admin_wf s"
  by (simp_all add: admin_Error_def)

lemma add_backend_directory:
  assumes "admin_wf s"
  shows "admin_wf (handleAddBackend env r s) \<and> directory_of (handleAddBackend env r s) =
      (case ae_decodeAdd env (body_bytes r) of
         Inl _ \<Rightarrow> directory_of s
       | Inr req \<Rightarrow> (case ae_urlParse env (ar_Addr req) of
           Inl _ \<Rightarrow> directory_of s
         | Inr _ \<Rightarrow> directory_of s @ [(ar_ID req, if ar_Weight req \<le> 0 then 1 else ar_Weight req)]))"
proof -
  have old: "(as_heap s @ [x]) ! b = as_heap s ! b" if "b \<in> set (p_backends (as_pool s))" for b x
    using assms that by (auto simp: admin_wf_def wf_refs_def nth_append)
  have fresh: "length (as_heap s) \<notin> set (p_backends (as_pool s))" and lt: "\<forall>b\<in>set (p_backends (as_pool s)). b < Suc (length (as_heap s))"
    using assms by (auto simp: admin_wf_def wf_refs_def)
  show ?thesis using assms fresh lt
    by (auto simp: handleAddBackend_def Backend_New_def alloc_def Pool_Add_def Let_def admin_wf_def wf_refs_def
        directory_of_def old split: sum.splits)
qed

lemma remove_entry_refs:
  "remove_entry i (map (\<lambda>b. (b_ID (h ! b), f b)) bs) =
     (case Get_loop h i bs of None \<Rightarrow> map (\<lambda>b. (b_ID (h ! b), f b)) bs
      | Some b \<Rightarrow> map (\<lambda>b. (b_ID (h ! b), f b)) (remove1 b bs))"
  by (induction bs) (auto split: option.splits dest: Get_loop_Some)

lemma remove_backend_directory:
  assumes "admin_wf s"
  shows "admin_wf (handleRemoveBackend env r s) \<and> directory_of (handleRemoveBackend env r s) =
    remove_entry (TrimPrefix (u_Path (r_URL r)) ''/admin/backends/'') (directory_of s)"
  using assms set_remove1_subset
  by (fastforce simp: handleRemoveBackend_def Pool_Remove_Get Pool_Get_def directory_of_def remove_entry_refs admin_wf_def
      wf_refs_def Let_def split: option.split)

lemma set_entry_refs:
  assumes "distinct bs" and "wf_refs h bs"
  shows "set_entry i w (map (\<lambda>b. (b_ID (h ! b), b_Weight (h ! b))) bs) =
     (case Get_loop h i bs of None \<Rightarrow> map (\<lambda>b. (b_ID (h ! b), b_Weight (h ! b))) bs
      | Some c \<Rightarrow> map (\<lambda>b. (b_ID (modify h c (\<lambda>b. b\<lparr>b_Weight := w\<rparr>) ! b), b_Weight (modify h c (\<lambda>b. b\<lparr>b_Weight := w\<rparr>) ! b))) bs)"
  using assms
proof (induction bs)
  case (Cons a bs)
  have "modify h a f ! b = h ! b" if "b \<in> set bs" for f b
    using that Cons.prems by (auto simp: wf_refs_def nth_modify)
  then show ?case using Cons by (auto simp: wf_refs_def nth_modify split: option.splits dest: Get_loop_Some)
qed simp

lemma update_weight_directory:
  assumes "admin_wf s"
  shows "admin_wf (handleUpdateWeight env r s) \<and> directory_of (handleUpdateWeight env r s) =
    (case ae_decodeWeight env (body_bytes r) of
       Inl _ \<Rightarrow> directory_of s
     | Inr w \<Rightarrow> set_entry (TrimSuffix (TrimPrefix (u_Path (r_URL r)) ''/admin/backends/'') ''/weight'') w (directory_of s))"
  using assms set_entry_refs [of "p_backends (as_pool s)" "as_heap s"]
  by (auto simp: handleUpdateWeight_def Pool_Get_def directory_of_def admin_wf_def Let_def split: sum.split option.split)

text \<open>Removal in terms of the bag of IDs.\<close>

lemma remove_backend_bag:
  assumes "wf_refs (as_heap s) (p_backends (as_pool s))"
  shows "wf_refs (as_heap s) (p_backends (as_pool (handleRemoveBackend env r s))) \<and> as_heap (handleRemoveBackend env r s) = as_heap s \<and>
    pool_ids (as_heap s) (as_pool (handleRemoveBackend env r s)) =
      pool_ids (as_heap s) (as_pool s) - {#TrimPrefix (u_Path (r_URL r)) ''/admin/backends/''#}"
proof (cases "Pool_Remove (as_heap s) (as_pool s) (TrimPrefix (u_Path (r_URL r)) ''/admin/backends/'')")
  case (Inl e)
  then have "TrimPrefix (u_Path (r_URL r)) ''/admin/backends/'' \<notin># pool_ids (as_heap s) (as_pool s)"
    using pool_bag.remove_ok by fastforce
  then show ?thesis using Inl assms
    by (simp add: handleRemoveBackend_def diff_single_trivial Let_def)
next
  case (Inr p)
  then have "set (p_backends p) \<subseteq> set (p_backends (as_pool s))"
    using set_remove1_subset by (fastforce simp: Pool_Remove_Get split: option.splits)
  then show ?thesis
    using Inr assms pool_bag.remove_Inr [OF Inr] by (auto simp: handleRemoveBackend_def wf_refs_def Let_def)
qed

text \<open>A sequence of requests, each with its own response writer.\<close>

fun admin_run :: "admin_env \<Rightarrow> request list \<Rightarrow> admin_state \<Rightarrow> admin_state" where
  "admin_run env [] s = s"
| "admin_run env (r # rs) s =
     admin_run env rs (Admin_ServeHTTP env r (s\<lparr>as_writer := writer_for r\<rparr>))"

lemma below_backends:
  "under_backends path \<longleftrightarrow> take 16 path = ''/admin/backends/''"
  "take 16 path = ''/admin/backends/'' \<Longrightarrow> TrimPrefix path ''/admin/backends/'' = drop 16 path"
proof -
  have len: "length ''/admin/backends/'' = 16" by simp
  note prefix = strip_prefix_take [where p = "''/admin/backends/''", unfolded len] TrimPrefix_drop [where p = "''/admin/backends/''", unfolded len]
  show "under_backends path \<longleftrightarrow> take 16 path = ''/admin/backends/''" unfolding under_backends_def by (rule prefix(1))
  show "take 16 path = ''/admin/backends/'' \<Longrightarrow> TrimPrefix path ''/admin/backends/'' = drop 16 path" by (rule prefix(2))
qed

lemma admin_step_directory:
  assumes "admin_wf s"
  shows "admin_wf (Admin_ServeHTTP env r s) \<and> directory_of (Admin_ServeHTTP env r s) = directory_after env r (directory_of s)"
proof (cases "ae_cleanPath env (u_Path (r_URL r)) = u_Path (r_URL r) \<and> r_Method r \<noteq> ''CONNECT''")
  case False
  then show ?thesis using assms
    by (auto simp: Admin_ServeHTTP_def admin_dispatch_def directory_after_def method_not_allowed_def Let_def)
next
  case True
  note handlers = add_backend_directory [OF assms, of env r] remove_backend_directory [OF assms, of env r]
    update_weight_directory [OF assms, of env r]
  show ?thesis
  proof (cases "take 16 (u_Path (r_URL r)) = ''/admin/backends/''")
    case below: True
    then have "u_Path (r_URL r) \<noteq> ''/admin/backends''" "u_Path (r_URL r) \<noteq> ''/admin/reload''" by auto
    then show ?thesis using True handlers below assms
      by (auto simp: Admin_ServeHTTP_def admin_dispatch_def admin_mux_def below_backends directory_after_def method_not_allowed_def
          Let_def split: sum.split)
  next
    case above: False
    then show ?thesis using True handlers assms
      by (auto simp: Admin_ServeHTTP_def admin_dispatch_def admin_mux_def below_backends directory_after_def method_not_allowed_def
          handleListBackends_def handleReload_def Let_def)
  qed
qed

section \<open>Properties\<close>

text \<open>C28: the admin API refines a directory of backends. From a state in which the pool's references are allocated and distinct,
  after any sequence of requests this holds again and the IDs and weights in the pool are, in order, those of the directory
  specification, which looks only at method, path and body: a valid POST to \<open>/admin/backends\<close> appends (also
  when its ID is there already), a DELETE below it removes the first entry with that ID, a valid PUT below it
  sets the weight of that entry, and every other request, also a reload, changes nothing.\<close>

theorem Admin_refines_directory:
  assumes "wf_refs (as_heap s) (p_backends (as_pool s))" and "distinct (p_backends (as_pool s))"
  shows "let s' = admin_run env rs s in
    wf_refs (as_heap s') (p_backends (as_pool s')) \<and> distinct (p_backends (as_pool s')) \<and>
    directory_of s' = fold (directory_after env) rs (directory_of s)"
proof -
  have "admin_wf (admin_run env rs s) \<and> directory_of (admin_run env rs s) = fold (directory_after env) rs (directory_of s)"
    if "admin_wf s" for s
    using that
  proof (induction rs arbitrary: s)
    case (Cons r rs)
    with Cons.IH show ?case using admin_step_directory [of "s\<lparr>as_writer := writer_for r\<rparr>" env r] by simp
  qed simp
  then show ?thesis using assms by (simp add: admin_wf_def Let_def)
qed

definition sample_env :: admin_env where
  "sample_env = \<lparr>ae_codec = \<lparr>z_write = (\<lambda>_ b. b), z_close = (\<lambda>_. [])\<rparr>,
     ae_urlParse = (\<lambda>a. Inr \<lparr>u_Scheme = ''http'', u_Host = a, u_Path = [], u_RawQuery = []\<rparr>), ae_urlString = u_Host,
     ae_decodeAdd = (\<lambda>bs. Inr \<lparr>ar_ID = bs, ar_Addr = bs, ar_Weight = 1\<rparr>), ae_decodeWeight = (\<lambda>_. Inr 5),
     ae_encodeList = (\<lambda>_. []), ae_encode = s_ID, ae_quote = (\<lambda>i. i),
     ae_cleanPath = (\<lambda>p. p), ae_redirect = (\<lambda>r target w. w_WriteHeader 301 w)\<rparr>"

definition sample_admin_request :: "string \<Rightarrow> string \<Rightarrow> string \<Rightarrow> request" where
  "sample_admin_request method path data =
     \<lparr>r_Method = method, r_URL = \<lparr>u_Scheme = [], u_Host = [], u_Path = path, u_RawQuery = []\<rparr>, r_Host = ''h'',
      r_Header = Map.empty, r_RemoteAddr = ''10.0.0.1:5000'', r_TLS = False, r_Body = Some \<lparr>bd_data = data, bd_err = False\<rparr>,
      r_ctxBackend = None, r_ctxRequestID = None\<rparr>"

definition empty_admin :: admin_state where
  "empty_admin = \<lparr>as_heap = [], as_pool = NewPool [], as_writer = \<lparr>w_layers = [], w_base = new_response\<rparr>\<rparr>"

theorem Admin_refines_directory_witness:
  "let s' = admin_run sample_env [sample_admin_request ''POST'' ''/admin/backends'' ''b1'',
        sample_admin_request ''POST'' ''/admin/backends'' ''b2'', sample_admin_request ''PUT'' ''/admin/backends/b2/weight'' ''7'',
        sample_admin_request ''DELETE'' ''/admin/backends/b1'' []] empty_admin
   in directory_of s' = [(''b2'', 5)]"
  using Admin_refines_directory [of empty_admin sample_env "[sample_admin_request ''POST'' ''/admin/backends'' ''b1'',
        sample_admin_request ''POST'' ''/admin/backends'' ''b2'', sample_admin_request ''PUT'' ''/admin/backends/b2/weight'' ''7'',
        sample_admin_request ''DELETE'' ''/admin/backends/b1'' []]"]
  by (simp add: empty_admin_def NewPool_def wf_refs_def directory_of_def directory_after_def sample_env_def sample_admin_request_def
      body_bytes_def TrimSuffix_def Let_def del: admin_run.simps)

text \<open>Deleting does not drain. A DELETE for a backend in the pool removes it at once, whatever
  its active connections, and changes no backend: in particular its health is not set to
  disabled.\<close>

theorem Delete_does_not_drain:
  assumes "r_Method r = ''DELETE''" and "u_Path (r_URL r) = ''/admin/backends/'' @ i"
    and "ae_cleanPath env (u_Path (r_URL r)) = u_Path (r_URL r)"
    and "Pool_Get (as_heap s) (as_pool s) i = Some b"
  shows "as_heap (Admin_ServeHTTP env r s) = as_heap s \<and>
    p_backends (as_pool (Admin_ServeHTTP env r s)) = remove1 b (p_backends (as_pool s))"
proof -
  have "TrimPrefix (u_Path (r_URL r)) ''/admin/backends/'' = i" unfolding assms(2) by (rule TrimPrefix_append)
  moreover have "under_backends (u_Path (r_URL r))"
    unfolding assms(2) under_backends_def by (simp only: strip_prefix_append) simp
  moreover have "u_Path (r_URL r) \<noteq> ''/admin/backends''" by (simp add: assms(2))
  ultimately show ?thesis using assms(1,3,4)
    by (simp add: Admin_ServeHTTP_def admin_dispatch_def admin_mux_def handleRemoveBackend_def Pool_Remove_Get Let_def)
qed

definition busy_admin :: admin_state where
  "busy_admin = \<lparr>as_heap = [\<lparr>b_ID = ''b1'', b_URL = \<lparr>u_Scheme = ''http'', u_Host = ''h'', u_Path = [], u_RawQuery = []\<rparr>,
      b_Weight = 1, b_activeConns = 7, b_health = HealthHealthy\<rparr>], as_pool = NewPool [0],
     as_writer = \<lparr>w_layers = [], w_base = new_response\<rparr>\<rparr>"

theorem Delete_does_not_drain_witness:
  "let s' = Admin_ServeHTTP sample_env (sample_admin_request ''DELETE'' ''/admin/backends/b1'' []) busy_admin
   in as_heap s' = as_heap busy_admin \<and> p_backends (as_pool s') = []"
  using Delete_does_not_drain [of "sample_admin_request ''DELETE'' ''/admin/backends/b1'' []" "''b1''" sample_env busy_admin 0]
  by (simp add: sample_env_def sample_admin_request_def busy_admin_def Pool_Get_def NewPool_def Let_def)

text \<open>Draining crashes. With any timeout longer than one tick, \<open>Drain\<close> disables the backend and
  then panics with a nil dereference at the first tick, whatever the active connections are; in
  particular with the default timeout.\<close>

theorem Drain_panics:
  assumes "50 * millisecond < dr_timeout d"
  shows "Drain d conns b = (SetHealth HealthDisabled b, Panic NilDereference)"
proof -
  have "0 < nat ((dr_timeout d - 1) div (50 * millisecond))"
    using assms by (simp add: pos_imp_zdiv_pos_iff)
  then obtain n where "nat ((dr_timeout d - 1) div (50 * millisecond)) = Suc n"
    by (auto simp: gr0_conv_Suc)
  then show ?thesis by (simp add: Drain_def upt_conv_Cons atomic_access_def Let_def del: upt_Suc)
qed

theorem Drain_panics_witness:
  "\<forall>b. Drain (NewDrainer 0) (\<lambda>_. 0) b = (SetHealth HealthDisabled b, Panic NilDereference)"
  by (intro allI Drain_panics) (simp add: NewDrainer_def)

lemma ConfigReloader_keeps_old:
  "ConfigReloader_Reload load path r = (Some err, r') \<Longrightarrow> r' = r"
  by (auto simp: ConfigReloader_Reload_def split: sum.splits)

text \<open>The admin server has no metrics endpoint.\<close>

lemma Admin_no_metrics:
  assumes "u_Path (r_URL r) = ''/metrics''" and "ae_cleanPath env ''/metrics'' = ''/metrics''"
  shows "Admin_ServeHTTP env r s = admin_Error env ''404 page not found'' 404 s"
  using assms by (simp add: Admin_ServeHTTP_def admin_dispatch_def admin_mux_def allowed_methods_def under_backends_def Let_def)

end
