(* ===== verification/Config.thy ===== *)
theory Config
  imports Float64
begin

text \<open>
  \<open>config/config.go\<close>: the configuration records, their defaults, loading and validation.
  The packages viper (reading and unmarshalling) and validator are parameters; the validation
  tags of the struct fields are the predicate \<open>tags_hold\<close>, which is what a run of the
  validator without errors documents.
\<close>

section \<open>Records\<close>

record TLSConfig =
  tls_CertFile :: string
  tls_KeyFile :: string
  tls_CAFile :: string
  tls_Passthrough :: bool
  tls_MTLS :: bool

record ServerConfig =
  sc_Addr :: string
  sc_ReadTimeout :: duration
  sc_WriteTimeout :: duration
  sc_IdleTimeout :: duration
  sc_TLS :: "TLSConfig option"

record BackendConfig =
  bc_ID :: string
  bc_Addr :: string
  bc_Weight :: int

record RouteConfig =
  rc_PathPrefix :: string
  rc_Host :: string
  rc_Headers :: "string \<rightharpoonup> string"
  rc_Weight :: float64
  rc_Shadow :: bool

record HealthConfig =
  hc_Interval :: duration
  hc_Timeout :: duration
  hc_Path :: string
  hc_FailureThreshold :: int
  hc_SuccessThreshold :: int
  hc_Mode :: string
  hc_PassiveWindow :: duration
  hc_PassiveErrorRate :: float64

record PoolConfig =
  pc_Name :: string
  pc_Algorithm :: string
  pc_Backends :: "BackendConfig list"
  pc_Routes :: "RouteConfig list"
  pc_Health :: HealthConfig

record AdminConfig =
  ac_Addr :: string

record MetricsConfig =
  mc_Enabled :: bool
  mc_Path :: string

record LoggingConfig =
  lc_Level :: string
  lc_Format :: string

record Config =
  c_Server :: ServerConfig
  c_Pools :: "PoolConfig list"
  c_Admin :: AdminConfig
  c_Metrics :: MetricsConfig
  c_Logging :: LoggingConfig

section \<open>Loading\<close>

datatype default_value = DefString string | DefBool bool

definition setDefaults :: "(string \<times> default_value) list" where
  "setDefaults =
     [(''server.addr'', DefString '':8080''), (''server.read_timeout'', DefString ''30s''),
      (''server.write_timeout'', DefString ''30s''), (''server.idle_timeout'', DefString ''120s''),
      (''admin.addr'', DefString '':9001''), (''metrics.enabled'', DefBool True),
      (''metrics.path'', DefString ''/metrics''), (''logging.level'', DefString ''info''),
      (''logging.format'', DefString ''json'')]"

datatype load_error = ReadConfig string | UnmarshalConfig string | ValidationFailed string

fun join_errs :: "string list \<Rightarrow> string" where
  "join_errs [] = []"
| "join_errs [e] = e"
| "join_errs (e # es) = e @ ''; '' @ join_errs es"

text \<open>\<open>v_Struct\<close> is the validator: the field and the tag of each violation.\<close>

definition validate :: "(Config \<Rightarrow> (string \<times> string) list) \<Rightarrow> Config \<Rightarrow> load_error option" where
  "validate v_Struct cfg =
     (let errs = v_Struct cfg
      in if errs \<noteq> [] then Some (ValidationFailed (join_errs (map (\<lambda>(f, t). ''field '' @ f @ '': '' @ t) errs)))
         else None)"

definition Load ::
  "(string \<Rightarrow> (string \<times> default_value) list \<Rightarrow> string + 'raw) \<Rightarrow> ('raw \<Rightarrow> string + Config) \<Rightarrow>
   (Config \<Rightarrow> (string \<times> string) list) \<Rightarrow> string \<Rightarrow> load_error + Config" where
  "Load readInConfig unmarshal v_Struct path =
     (case readInConfig path setDefaults of
        Inl err \<Rightarrow> Inl (ReadConfig err)
      | Inr raw \<Rightarrow>
          (case unmarshal raw of
             Inl err \<Rightarrow> Inl (UnmarshalConfig err)
           | Inr cfg \<Rightarrow> (case validate v_Struct cfg of Some err \<Rightarrow> Inl err | None \<Rightarrow> Inr cfg)))"

section \<open>The validation tags\<close>

definition algorithm_names :: "string list" where
  "algorithm_names = [''round_robin'', ''weighted_round_robin'', ''least_connections'', ''ip_hash'', ''consistent_hash'', ''p2c'']"

definition backend_tags :: "(string \<Rightarrow> bool) \<Rightarrow> BackendConfig \<Rightarrow> bool" where
  "backend_tags is_url b \<longleftrightarrow> bc_ID b \<noteq> [] \<and> bc_Addr b \<noteq> [] \<and> is_url (bc_Addr b) \<and> 0 \<le> bc_Weight b"

definition health_tags :: "HealthConfig \<Rightarrow> bool" where
  "health_tags h \<longleftrightarrow> hc_Mode h \<in> set [[], ''http'', ''tcp'', ''grpc''] \<and> 0 \<le> hc_PassiveErrorRate h \<and> hc_PassiveErrorRate h \<le> 1"

text \<open>\<open>Routes\<close> has no \<open>dive\<close>: the tags of its elements are not among those checked.\<close>

definition pool_tags :: "(string \<Rightarrow> bool) \<Rightarrow> PoolConfig \<Rightarrow> bool" where
  "pool_tags is_url p \<longleftrightarrow> pc_Name p \<noteq> [] \<and> pc_Algorithm p \<in> set algorithm_names \<and> pc_Backends p \<noteq> [] \<and>
     list_all (backend_tags is_url) (pc_Backends p) \<and> health_tags (pc_Health p)"

definition tags_hold :: "(string \<Rightarrow> bool) \<Rightarrow> Config \<Rightarrow> bool" where
  "tags_hold is_url cfg \<longleftrightarrow> sc_Addr (c_Server cfg) \<noteq> [] \<and>
     (case sc_TLS (c_Server cfg) of None \<Rightarrow> True | Some t \<Rightarrow> tls_CertFile t \<noteq> [] \<and> tls_KeyFile t \<noteq> []) \<and>
     c_Pools cfg \<noteq> [] \<and> list_all (pool_tags is_url) (c_Pools cfg) \<and>
     lc_Level (c_Logging cfg) \<in> set [[], ''debug'', ''info'', ''warn'', ''error''] \<and>
     lc_Format (c_Logging cfg) \<in> set [[], ''json'', ''text'']"

lemma Load_valid:
  "Load readInConfig unmarshal v_Struct path = Inr cfg \<Longrightarrow> v_Struct cfg = []"
  by (auto simp: Load_def validate_def Let_def split: sum.splits option.splits if_splits)

end
