(* ===== verification/Proxy.thy ===== *)
theory Proxy
  imports Selectors Http
begin

text \<open>
  \<open>internal/proxy\<close>: the HTTP reverse proxy (\<open>http.go\<close>), its transport settings and
  deadlines (\<open>transport.go\<close>), the TCP proxy (\<open>tcp.go\<close>) and tunnels (\<open>tunnel.go\<close>).
  The network is a parameter: what the transport answers to an outgoing request, whether a
  dial succeeds, which bytes a connection delivers. \<open>httputil.ReverseProxy\<close> is modelled as
  its documentation describes it for a \<open>Director\<close>: the director changes a clone of the
  request, hop-by-hop headers are removed (a parameter), the client address is appended to
  \<open>X-Forwarded-For\<close>, and the answer or the error handler's response is written, chunk by chunk; it
  panics with \<open>http.ErrAbortHandler\<close> when the body cannot be copied to its end. Interim (1xx)
  responses, trailers, flushing and the bytes exchanged after a protocol switch are left out. The selector
  is used through its interface: the properties of the proxy are proved in the selector locale
  and hold for every selector that interprets it.
\<close>

section \<open>Outgoing requests\<close>

definition singleJoiningSlash :: "string \<Rightarrow> string \<Rightarrow> string" where
  "singleJoiningSlash a b =
     (let aslash = (length a > 0 \<and> a ! (length a - 1) = CHR ''/'');
          bslash = (length b > 0 \<and> b ! 0 = CHR ''/'')
      in if aslash \<and> bslash then a @ drop 1 b
         else if \<not> aslash \<and> \<not> bslash then (if b = [] then a else a @ ''/'' @ b)
         else a @ b)"

definition scheme :: "request \<Rightarrow> string" where
  "scheme r = (if r_TLS r then ''https'' else ''http'')"

definition director :: "url \<Rightarrow> request \<Rightarrow> request" where
  "director target r =
     (let u = (r_URL r)\<lparr>u_Scheme := u_Scheme target, u_Host := u_Host target,
                u_Path := singleJoiningSlash (u_Path target) (u_Path (r_URL r)),
                u_RawQuery := (if u_RawQuery target = [] \<or> u_RawQuery (r_URL r) = []
                               then u_RawQuery target @ u_RawQuery (r_URL r)
                               else u_RawQuery target @ ''&'' @ u_RawQuery (r_URL r))\<rparr>;
          r = r\<lparr>r_URL := u, r_Host := u_Host target\<rparr>;
          clientIP = (case SplitHostPort (r_RemoteAddr r) of Inl err \<Rightarrow> r_RemoteAddr r | Inr (host, port) \<Rightarrow> host);
          prior = Header_Get (r_Header r) ''X-Forwarded-For'';
          clientIP = (if prior \<noteq> [] then prior @ '', '' @ clientIP else clientIP);
          h = Header_Set (r_Header r) ''X-Forwarded-For'' clientIP;
          r = r\<lparr>r_Header := h\<rparr>
      in r\<lparr>r_Header := Header_Set (r_Header r) ''X-Forwarded-Proto'' (scheme r)\<rparr>)"

fun join_comma :: "string list \<Rightarrow> string" where
  "join_comma [] = []"
| "join_comma [v] = v"
| "join_comma (v # vs) = v @ '', '' @ join_comma vs"

text \<open>What \<open>ReverseProxy\<close> does to the request around the director.\<close>

definition rp_outgoing :: "(header \<Rightarrow> header) \<Rightarrow> url \<Rightarrow> request \<Rightarrow> request" where
  "rp_outgoing strip_hop target r =
     (let out = director target r;
          out = out\<lparr>r_Header := strip_hop (r_Header out)\<rparr>
      in case SplitHostPort (r_RemoteAddr r) of
           Inl err \<Rightarrow> out
         | Inr (host, port) \<Rightarrow>
             (let prior = (case r_Header out (CanonicalKey ''X-Forwarded-For'') of None \<Rightarrow> [] | Some vs \<Rightarrow> vs);
                  v = (if prior \<noteq> [] then join_comma prior @ '', '' @ host else host)
              in out\<lparr>r_Header := Header_Set (r_Header out) ''X-Forwarded-For'' v\<rparr>))"

section \<open>The HTTP proxy\<close>

text \<open>
  How the body of an answer ends: with EOF, with an error of the upstream connection, or because
  the client's connection fails.
\<close>

datatype body_end = BodyEOF | BodyReadError | ClientGone

text \<open>
  The answer of the transport: an error, a protocol switch (status 101, which the proxy accepts or
  not, depending on its headers), or status, header, the chunks of the body and its end.
\<close>

datatype answer =
    TransportError string
  | SwitchingProtocols bool header
  | Answered int header "string list" body_end

record 's proxy_state =
  px_heap :: heap
  px_pool :: pool
  px_selector :: 's
  px_writer :: writer
  px_sent :: "(bref \<times> request) list"

definition copyHeader :: "header \<Rightarrow> header \<Rightarrow> header" where
  "copyHeader dst src =
     (\<lambda>k. case src k of
            None \<Rightarrow> dst k
          | Some vs \<Rightarrow> if vs = [] then dst k else Some ((case dst k of None \<Rightarrow> [] | Some us \<Rightarrow> us) @ vs))"

text \<open>\<open>copyResponse\<close>: every chunk that was read is written; a short write ends the copy.\<close>

fun copy_body :: "codec \<Rightarrow> string list \<Rightarrow> writer \<Rightarrow> bool \<times> writer" where
  "copy_body z [] w = (True, w)"
| "copy_body z (c # cs) w =
     (let n = fst (stack_Write z (w_layers w) c (w_base w)); w = w_Write z c w
      in if n \<noteq> int (length c) then (False, w) else copy_body z cs w)"

text \<open>
  What \<open>ReverseProxy\<close> does with the answer, under a server: the writer panics on a status that is
  not a three-digit number, and a body that is not copied to its end is an abort. A switch takes the
  connection over, which the program's wrappers do not support.
\<close>

definition write_answer :: "codec \<Rightarrow> (header \<Rightarrow> header) \<Rightarrow> answer \<Rightarrow> writer \<Rightarrow> go_panic option \<times> writer" where
  "write_answer z strip_hop ans w =
     (case ans of
        TransportError err \<Rightarrow> (None, http_Error z ''bad gateway'' 502 w)
      | SwitchingProtocols accepted hs \<Rightarrow>
          if accepted \<and> w_layers w = []
          then (let w = w_setHeader (\<lambda>h. copyHeader h hs) w in (None, w\<lparr>w_base := base_WriteHeader 101 (w_base w)\<rparr>))
          else (None, http_Error z ''bad gateway'' 502 w)
      | Answered status hs chunks bodyEnd \<Rightarrow>
          (let w = w_setHeader (\<lambda>h. copyHeader h (strip_hop hs)) w in
           if status < 100 \<or> 999 < status then (Some InvalidStatusCode, w)
           else (let w = w_WriteHeader status w; (ok, w) = copy_body z chunks w
                 in (if ok \<and> bodyEnd = BodyEOF then None else Some AbortHandler, w))))"

text \<open>
  \<open>roundTrip\<close> is the transport and \<open>during\<close> what other goroutines do to the backends
  between \<open>IncConns\<close> and the deferred \<open>DecConns\<close>, which runs also when \<open>ReverseProxy\<close> panics. A nil
  backend faults in \<open>IncConns\<close>. The result is the panic with which the handler ends, if any, and the
  state that it leaves.
\<close>

definition HTTPProxy_ServeHTTP ::
  "codec \<Rightarrow> (header \<Rightarrow> header) \<Rightarrow> (heap \<Rightarrow> request \<Rightarrow> bref list \<Rightarrow> 's \<Rightarrow> pick \<times> 's) \<Rightarrow>
   (request \<Rightarrow> answer) \<Rightarrow> (heap \<Rightarrow> heap) \<Rightarrow> request \<Rightarrow> 's proxy_state \<Rightarrow> go_panic option \<times> 's proxy_state" where
  "HTTPProxy_ServeHTTP z strip_hop selNext roundTrip during r p =
     (let backends = Pool_Healthy (px_heap p) (px_pool p) in
      if length backends = 0 then (None, p\<lparr>px_writer := http_Error z ''no healthy backends'' 502 (px_writer p)\<rparr>)
      else (let (res, s) = selNext (px_heap p) r backends (px_selector p); p = p\<lparr>px_selector := s\<rparr>
            in case res of
                 Panic e \<Rightarrow> (Some e, p)
               | Return (Inl err) \<Rightarrow> (None, p\<lparr>px_writer := http_Error z ''service unavailable'' 503 (px_writer p)\<rparr>)
               | Return (Inr bo) \<Rightarrow>
                   (case atomic_access bo of
                      Panic e \<Rightarrow> (Some e, p)
                    | Return b \<Rightarrow>
                        (let h = modify (px_heap p) b IncConns;
                             out = rp_outgoing strip_hop (b_URL (h ! b)) (r\<lparr>r_ctxBackend := Some b\<rparr>);
                             (panicked, w) = write_answer z strip_hop (roundTrip out) (px_writer p);
                             h = modify (during h) b DecConns
                         in (panicked, p\<lparr>px_heap := h, px_writer := w, px_sent := px_sent p @ [(b, out)]\<rparr>)))))"

definition BackendFromContext :: "request \<Rightarrow> bref option" where
  "BackendFromContext r = r_ctxBackend r"

record http_server =
  hs_Addr :: string
  hs_ReadTimeout :: duration
  hs_WriteTimeout :: duration
  hs_IdleTimeout :: duration

definition NewHTTPServer :: "string \<Rightarrow> duration \<Rightarrow> duration \<Rightarrow> duration \<Rightarrow> http_server" where
  "NewHTTPServer addr readTimeout writeTimeout idleTimeout =
     \<lparr>hs_Addr = addr, hs_ReadTimeout = readTimeout, hs_WriteTimeout = writeTimeout, hs_IdleTimeout = idleTimeout\<rparr>"

text \<open>Which case the \<open>select\<close> of \<open>ListenAndServe\<close> takes, with the result it receives.\<close>

datatype serve_error = ErrServerClosed | ServeFailed string | HTTPServerError serve_error

datatype listen_event = ContextDone "serve_error option" | ServerReturned "serve_error option"

fun ListenAndServe :: "listen_event \<Rightarrow> serve_error option" where
  "ListenAndServe (ContextDone shutdownErr) = shutdownErr"
| "ListenAndServe (ServerReturned err) =
     (if err \<noteq> None \<and> err \<noteq> Some ErrServerClosed then map_option HTTPServerError err else None)"

section \<open>Transport settings\<close>

record transport_config =
  t_DialTimeout :: duration
  t_KeepAlive :: duration
  t_MaxIdleConns :: int
  t_MaxIdleConnsPerHost :: int
  t_IdleConnTimeout :: duration
  t_TLSHandshakeTimeout :: duration
  t_ResponseHeaderTimeout :: duration
  t_InsecureSkipVerify :: bool

definition DefaultTransportConfig :: transport_config where
  "DefaultTransportConfig =
     \<lparr>t_DialTimeout = 10 * second, t_KeepAlive = 30 * second, t_MaxIdleConns = 200, t_MaxIdleConnsPerHost = 20,
      t_IdleConnTimeout = 90 * second, t_TLSHandshakeTimeout = 10 * second, t_ResponseHeaderTimeout = 30 * second,
      t_InsecureSkipVerify = False\<rparr>"

record http_transport =
  ht_dialTimeout :: duration
  ht_keepAlive :: duration
  ht_MaxIdleConns :: int
  ht_MaxIdleConnsPerHost :: int
  ht_IdleConnTimeout :: duration
  ht_TLSHandshakeTimeout :: duration
  ht_ResponseHeaderTimeout :: duration
  ht_tlsSkipVerify :: "bool option"

definition NewTransport :: "transport_config \<Rightarrow> http_transport" where
  "NewTransport cfg =
     \<lparr>ht_dialTimeout = t_DialTimeout cfg, ht_keepAlive = t_KeepAlive cfg, ht_MaxIdleConns = t_MaxIdleConns cfg,
      ht_MaxIdleConnsPerHost = t_MaxIdleConnsPerHost cfg, ht_IdleConnTimeout = t_IdleConnTimeout cfg,
      ht_TLSHandshakeTimeout = t_TLSHandshakeTimeout cfg, ht_ResponseHeaderTimeout = t_ResponseHeaderTimeout cfg,
      ht_tlsSkipVerify = Some (t_InsecureSkipVerify cfg)\<rparr>"

text \<open>\<open>NewHTTPProxy\<close>: the initial state of the proxy and the transport it makes.\<close>

definition NewHTTPProxy :: "pool \<Rightarrow> 's \<Rightarrow> (pool \<times> 's) \<times> http_transport" where
  "NewHTTPProxy pl sel =
     ((pl, sel),
      \<lparr>ht_dialTimeout = 10 * second, ht_keepAlive = 30 * second, ht_MaxIdleConns = 200, ht_MaxIdleConnsPerHost = 20,
       ht_IdleConnTimeout = 90 * second, ht_TLSHandshakeTimeout = 10 * second, ht_ResponseHeaderTimeout = 30 * second,
       ht_tlsSkipVerify = None\<rparr>)"

datatype conn_call = SetReadDeadline timestamp | SetWriteDeadline timestamp | ConnRead | ConnWrite string

record deadline_conn =
  dc_readDeadline :: duration
  dc_writeDeadline :: duration
  dc_calls :: "conn_call list"

definition deadlineConn_Read :: "timestamp \<Rightarrow> deadline_conn \<Rightarrow> deadline_conn" where
  "deadlineConn_Read now d =
     (let d = (if dc_readDeadline d > 0 then d\<lparr>dc_calls := dc_calls d @ [SetReadDeadline (now + dc_readDeadline d)]\<rparr> else d)
      in d\<lparr>dc_calls := dc_calls d @ [ConnRead]\<rparr>)"

definition deadlineConn_Write :: "timestamp \<Rightarrow> string \<Rightarrow> deadline_conn \<Rightarrow> deadline_conn" where
  "deadlineConn_Write now bs d =
     (let d = (if dc_writeDeadline d > 0 then d\<lparr>dc_calls := dc_calls d @ [SetWriteDeadline (now + dc_writeDeadline d)]\<rparr> else d)
      in d\<lparr>dc_calls := dc_calls d @ [ConnWrite bs]\<rparr>)"

section \<open>TCP\<close>

text \<open>A connection of a tunnel: whether it is a \<open>*net.TCPConn\<close>, the bytes it will deliver and
  the error that ends the copy, if any; and what was sent to it.\<close>

datatype copy_error = CopyEOF | CopyNetError bool | CopyOther

record tconn =
  tc_isTCP :: bool
  tc_incoming :: string
  tc_err :: "copy_error option"
  tc_outgoing :: string
  tc_closedWrite :: bool

definition io_Copy :: "tconn \<Rightarrow> tconn \<Rightarrow> tconn" where
  "io_Copy dst src = dst\<lparr>tc_outgoing := tc_outgoing dst @ tc_incoming src\<rparr>"

text \<open>One direction of \<open>tunnel\<close>: an unchecked type assertion before the half-close.\<close>

definition tunnel_copy :: "tconn \<Rightarrow> tconn \<Rightarrow> tconn outcome" where
  "tunnel_copy dst src =
     (let dst = io_Copy dst src
      in if tc_isTCP dst then Return (dst\<lparr>tc_closedWrite := True\<rparr>) else Panic TypeAssertion)"

definition tunnel :: "tconn \<Rightarrow> tconn \<Rightarrow> (tconn \<times> tconn) outcome" where
  "tunnel a b = bind_outcome (tunnel_copy a b) (\<lambda>a'. bind_outcome (tunnel_copy b a) (\<lambda>b'. Return (a', b')))"

definition isConnClosed :: "copy_error option \<Rightarrow> bool" where
  "isConnClosed err =
     (if err = None \<or> err = Some CopyEOF then True
      else (case err of Some (CopyNetError timeout) \<Rightarrow> \<not> timeout | _ \<Rightarrow> False))"

definition pipe_copy :: "tconn \<Rightarrow> tconn \<Rightarrow> tconn" where
  "pipe_copy dst src =
     (let dst = io_Copy dst src in if tc_isTCP dst then dst\<lparr>tc_closedWrite := True\<rparr> else dst)"

text \<open>\<open>pipe\<close> returns the errors it logs.\<close>

definition pipe :: "tconn \<Rightarrow> tconn \<Rightarrow> (tconn \<times> tconn) \<times> copy_error list" where
  "pipe a b =
     ((pipe_copy a b, pipe_copy b a),
      map the (filter (\<lambda>err. err \<noteq> None \<and> \<not> isConnClosed err) [tc_err b, tc_err a]))"

record tcp_proxy =
  tp_pool :: pool
  tp_dialTimeout :: duration

definition NewTCPProxy :: "(string \<Rightarrow> string option) \<Rightarrow> string \<Rightarrow> pool \<Rightarrow> duration \<Rightarrow> string + tcp_proxy" where
  "NewTCPProxy listen addr pl dialTimeout =
     (case listen addr of
        Some err \<Rightarrow> Inl (''tcp listen '' @ addr @ '': '' @ err)
      | None \<Rightarrow> Inr \<lparr>tp_pool = pl, tp_dialTimeout = (if dialTimeout = 0 then 10 * second else dialTimeout)\<rparr>)"

text \<open>
  \<open>handleConn\<close>: \<open>dial\<close> gives the upstream connection or fails. The result is the heap,
  the backend dialled, if any, and the two ends of the tunnel.
\<close>

definition handleConn ::
  "(string \<Rightarrow> duration \<Rightarrow> tconn option) \<Rightarrow> (heap \<Rightarrow> heap) \<Rightarrow> tcp_proxy \<Rightarrow> tconn \<Rightarrow> heap \<Rightarrow>
   (heap \<times> bref option \<times> (tconn \<times> tconn) option) outcome" where
  "handleConn dial during p client h =
     (let backends = Pool_Healthy h (tp_pool p) in
      if length backends = 0 then Return (h, None, None)
      else bind_outcome (go_index backends 0) (\<lambda>b.
        let h = modify h b IncConns in
        (case dial (u_Host (b_URL (h ! b))) (tp_dialTimeout p) of
           None \<Rightarrow> Return (modify (during h) b DecConns, Some b, None)
         | Some upstream \<Rightarrow>
             bind_outcome (tunnel client upstream) (\<lambda>ends.
               Return (modify (during h) b DecConns, Some b, Some ends)))))"

text \<open>What \<open>Accept\<close> returns in the loop of \<open>Serve\<close>.\<close>

datatype accept_event = Accepted tconn | AcceptError string bool

fun TCP_Serve :: "accept_event list \<Rightarrow> tconn list \<Rightarrow> tconn list \<times> string option option" where
  "TCP_Serve [] conns = (conns, None)"
| "TCP_Serve (Accepted c # evs) conns = TCP_Serve evs (conns @ [c])"
| "TCP_Serve (AcceptError err ctxDone # evs) conns = (conns, Some (if ctxDone then None else Some (''accept: '' @ err)))"

section \<open>The proxy over any selector\<close>

text \<open>The effect of other goroutines: each backend's connection count moves by \<open>delta\<close>.\<close>

definition moves_counts :: "(heap \<Rightarrow> heap) \<Rightarrow> (bref \<Rightarrow> int64) \<Rightarrow> bool" where
  "moves_counts during delta \<longleftrightarrow>
     (\<forall>h. length (during h) = length h \<and>
        (\<forall>c < length h. b_activeConns (during h ! c) = b_activeConns (h ! c) + delta c))"

lemma counts_balanced:
  assumes "moves_counts during delta" and "c < length h"
  shows "b_activeConns (modify (during (modify h b IncConns)) b DecConns ! c) = b_activeConns (h ! c) + delta c"
  using assms by (simp add: moves_counts_def nth_modify backend_defs)

lemma modify_url [simp]: "b < length h \<Longrightarrow> b_URL (modify h b IncConns ! b) = b_URL (h ! b)"
  by (simp add: nth_modify backend_defs)

text \<open>
  What it means for the proxy to have forwarded one request: it went to \<open>b\<close>, the client's writer and
  the panic, if any, are what the answer gives, and the connection counts have only moved as far as
  others moved them.
\<close>

definition forwarded ::
  "codec \<Rightarrow> (header \<Rightarrow> header) \<Rightarrow> (request \<Rightarrow> answer) \<Rightarrow> (bref \<Rightarrow> int64) \<Rightarrow> request \<Rightarrow> 's proxy_state \<Rightarrow> bref \<Rightarrow>
   go_panic option \<times> 's proxy_state \<Rightarrow> bool" where
  "forwarded z strip_hop roundTrip delta r p b res \<longleftrightarrow>
     (let (panicked, p') = res;
          out = rp_outgoing strip_hop (b_URL (px_heap p ! b)) (r\<lparr>r_ctxBackend := Some b\<rparr>)
      in px_sent p' = px_sent p @ [(b, out)] \<and> (panicked, px_writer p') = write_answer z strip_hop (roundTrip out) (px_writer p) \<and>
         px_pool p' = px_pool p \<and> length (px_heap p') = length (px_heap p) \<and>
         (\<forall>c < length (px_heap p). b_activeConns (px_heap p' ! c) = b_activeConns (px_heap p ! c) + delta c))"

text \<open>The panics that \<open>net/http\<close> and \<open>httputil\<close> raise for an answer, which the server recovers.\<close>

definition answer_panics :: "go_panic option set" where
  "answer_panics = {None, Some AbortHandler, Some InvalidStatusCode}"

lemma write_answer_panics: "fst (write_answer z strip_hop ans w) \<in> answer_panics"
  by (simp add: write_answer_def answer_panics_def Let_def split_beta split: answer.split)

context selector
begin

lemma proxy_forwards:
  assumes "Pool_Healthy (px_heap p) (px_pool p) \<noteq> []"
    and "ready (px_heap p) (Pool_Healthy (px_heap p) (px_pool p)) (px_selector p)"
    and "wf_refs (px_heap p) (p_backends (px_pool p))" and "moves_counts during delta"
  shows "\<exists>b\<in>set (Pool_Healthy (px_heap p) (px_pool p)).
    forwarded z strip_hop roundTrip delta r p b (HTTPProxy_ServeHTTP z strip_hop next_backend roundTrip during r p)"
proof -
  let ?bs = "Pool_Healthy (px_heap p) (px_pool p)"
  obtain b where b: "b \<in> set ?bs" "fst (next_backend (px_heap p) r ?bs (px_selector p)) = picked b"
    using next_member [OF assms(1,2)] by blast
  then obtain s where n: "next_backend (px_heap p) r ?bs (px_selector p) = (picked b, s)"
    by (metis prod.collapse)
  have lt: "b < length (px_heap p)"
    using b(1) assms(3) by (auto simp: Pool_Healthy_filter wf_refs_def)
  have len: "length (during h) = length h" for h using assms(4) by (simp add: moves_counts_def)
  show ?thesis
    using assms(1) n b(1) lt len counts_balanced [OF assms(4)]
    by (intro bexI [of _ b]) (auto simp: HTTPProxy_ServeHTTP_def forwarded_def atomic_access_def Let_def split_beta)
qed

end

lemma HTTPProxy_none_healthy:
  "Pool_Healthy (px_heap p) (px_pool p) = [] \<Longrightarrow>
   HTTPProxy_ServeHTTP z strip_hop selNext roundTrip during r p =
     (None, p\<lparr>px_writer := http_Error z ''no healthy backends'' 502 (px_writer p)\<rparr>)"
  by (simp add: HTTPProxy_ServeHTTP_def)

context selector
begin

text \<open>Whatever happens, requests go only to backends of the pool that are healthy.\<close>

lemma proxy_sends:
  assumes "Pool_Healthy (px_heap p) (px_pool p) \<noteq> [] \<Longrightarrow>
      ready (px_heap p) (Pool_Healthy (px_heap p) (px_pool p)) (px_selector p)"
    and "wf_refs (px_heap p) (p_backends (px_pool p))" and "moves_counts during delta"
  shows "\<exists>panicked p' sent. HTTPProxy_ServeHTTP z strip_hop next_backend roundTrip during r p = (panicked, p') \<and>
    panicked \<in> answer_panics \<and> px_sent p' = px_sent p @ sent \<and>
    (\<forall>q\<in>fst ` set sent. q \<in> set (p_backends (px_pool p)) \<and> IsHealthy (px_heap p ! q))"
proof (cases "Pool_Healthy (px_heap p) (px_pool p) = []")
  case True
  then show ?thesis by (simp add: HTTPProxy_none_healthy answer_panics_def)
next
  case False
  obtain panicked p' where res: "HTTPProxy_ServeHTTP z strip_hop next_backend roundTrip during r p = (panicked, p')" by fastforce
  obtain b where b: "b \<in> set (Pool_Healthy (px_heap p) (px_pool p))"
    and f: "forwarded z strip_hop roundTrip delta r p b (panicked, p')"
    using proxy_forwards [OF False assms(1) [OF False] assms(2,3), of z strip_hop roundTrip r] res by auto
  then have "panicked \<in> answer_panics" by (auto simp: forwarded_def Let_def) (metis fst_conv write_answer_panics)
  then show ?thesis using b f res by (auto simp: forwarded_def Let_def Pool_Healthy_filter)
qed

end

section \<open>Answers that arrive completely\<close>

lemma w_Write_plain:
  "w_layers w = [] \<Longrightarrow> w_layers (w_Write z bs w) = [] \<and> w_base (w_Write z bs w) = snd (base_Write bs (w_base w)) \<and>
   fst (stack_Write z (w_layers w) bs (w_base w)) = fst (base_Write bs (w_base w))"
  by (simp add: w_Write_def split_beta)

text \<open>The body is delivered when its status allows one and the declared length, if any, is not exceeded.\<close>

lemma copy_body_complete:
  assumes "w_layers w = []" and "rw_sent (w_base w) = Some (status, h)" and "body_allowed status" and "\<not> rw_head (w_base w)"
    and "case rw_contentLength (w_base w) of None \<Rightarrow> True | Some n \<Rightarrow> rw_written (w_base w) + length (concat chunks) \<le> n"
  shows "\<exists>w'. copy_body z chunks w = (True, w') \<and> rw_sent (w_base w') = Some (status, h) \<and>
    rw_body (w_base w') = rw_body (w_base w) @ concat chunks"
  using assms
proof (induction chunks arbitrary: w)
  case (Cons c cs)
  note plain = w_Write_plain [OF Cons.prems(1), of z c]
  have b: "fst (base_Write c (w_base w)) = int (length c)"
    "rw_body (snd (base_Write c (w_base w))) = rw_body (w_base w) @ c"
    "rw_contentLength (snd (base_Write c (w_base w))) = rw_contentLength (w_base w)"
    "rw_written (snd (base_Write c (w_base w))) = rw_written (w_base w) + length c"
    using Cons.prems(2-5) by (auto simp: base_Write_def Let_def split: option.splits)
  have "\<exists>w'. copy_body z cs (w_Write z c w) = (True, w') \<and> rw_sent (w_base w') = Some (status, h) \<and>
      rw_body (w_base w') = rw_body (w_base (w_Write z c w)) @ concat cs"
    using plain b Cons.prems(2-5) by (intro Cons.IH) (auto simp: rw_sent_Write split: option.splits)
  then show ?case using plain b by (simp add: Let_def)
qed simp

lemma copy_body_empty: "concat chunks = [] \<Longrightarrow> w_layers w = [] \<Longrightarrow> rw_sent (w_base w) = Some x \<Longrightarrow> copy_body z chunks w = (True, w)"
  by (cases w, induction chunks) (simp_all add: w_Write_def base_Write_def Let_def)

section \<open>Addresses and paths\<close>

lemma singleJoiningSlash_joins:
  assumes "b \<noteq> [] \<or> (a \<noteq> [] \<and> last a = CHR ''/'')"
  shows "singleJoiningSlash a b = TrimSuffix a ''/'' @ ''/'' @ TrimPrefix b ''/''"
proof -
  have a: "TrimSuffix a ''/'' = (if a \<noteq> [] \<and> last a = CHR ''/'' then butlast a else a)"
    by (cases a rule: rev_cases) (simp_all add: TrimSuffix_def)
  have b: "TrimPrefix b ''/'' = (if b \<noteq> [] \<and> b ! 0 = CHR ''/'' then drop 1 b else b)"
    by (cases b) (simp_all add: TrimPrefix_def)
  show ?thesis unfolding a b using assms
    by (cases a rule: rev_cases; cases b) (auto simp: singleJoiningSlash_def)
qed

lemma xff_key [simp]: "CanonicalKey ''X-Forwarded-For'' = ''X-Forwarded-For''"
    "CanonicalKey ''X-Forwarded-Proto'' = ''X-Forwarded-Proto''"
  by code_simp+

lemma director_xff:
  "r_Header (director target r) ''X-Forwarded-For'' = Some [
     (if Header_Get (r_Header r) ''X-Forwarded-For'' \<noteq> [] then Header_Get (r_Header r) ''X-Forwarded-For'' @ '', '' else []) @
     (case SplitHostPort (r_RemoteAddr r) of Inl _ \<Rightarrow> r_RemoteAddr r | Inr (host, _) \<Rightarrow> host)]"
  by (simp add: director_def Header_Set_def Let_def split: sum.split prod.split)

section \<open>Properties\<close>

text \<open>A client's request, and a proxy with one healthy backend.\<close>

definition sample_url :: url where
  "sample_url = \<lparr>u_Scheme = ''http'', u_Host = ''10.0.1.1:80'', u_Path = [], u_RawQuery = []\<rparr>"

definition sample_client_request :: request where
  "sample_client_request =
     \<lparr>r_Method = ''GET'', r_URL = \<lparr>u_Scheme = [], u_Host = [], u_Path = ''/x'', u_RawQuery = []\<rparr>, r_Host = ''h'',
      r_Header = Map.empty, r_RemoteAddr = ''10.0.0.1:5000'', r_TLS = False, r_Body = None,
      r_ctxBackend = None, r_ctxRequestID = None\<rparr>"

definition sample_proxy :: "round_robin proxy_state" where
  "sample_proxy =
     \<lparr>px_heap = [\<lparr>b_ID = ''b1'', b_URL = sample_url, b_Weight = 1, b_activeConns = 0, b_health = HealthHealthy\<rparr>],
      px_pool = NewPool [0], px_selector = NewRoundRobin, px_writer = \<lparr>w_layers = [], w_base = new_response\<rparr>,
      px_sent = []\<rparr>"

definition sample_tconn :: tconn where
  "sample_tconn = \<lparr>tc_isTCP = True, tc_incoming = ''x'', tc_err = None, tc_outgoing = [], tc_closedWrite = False\<rparr>"

text \<open>C3: the proxy as the program runs it, with the round robin selector. While the selector's
  counter has not wrapped: without a healthy backend the client gets a 502 and nothing else changes;
  otherwise exactly one request goes out, to the URL of a backend of the pool that is healthy, and the client
  gets what the answer gives (a 502 for a transport error). The handler ends in a panic only where the
  library raises one for the answer (an aborted body or an invalid status), and in every case, also
  after a panic, and whatever other requests do meanwhile, the connection counts show no trace of this request.\<close>

theorem HTTPProxy_round_robin:
  assumes "0 \<le> sint (rr_counter (px_selector p))" and "wf_refs (px_heap p) (p_backends (px_pool p))"
    and "moves_counts during delta"
  shows "let (panicked, p') = HTTPProxy_ServeHTTP z strip_hop RoundRobin_Next roundTrip during r p in
    if \<forall>b\<in>set (p_backends (px_pool p)). \<not> IsHealthy (px_heap p ! b)
    then panicked = None \<and> p' = p\<lparr>px_writer := http_Error z ''no healthy backends'' 502 (px_writer p)\<rparr>
    else \<exists>b\<in>set (p_backends (px_pool p)). IsHealthy (px_heap p ! b) \<and>
      (let out = rp_outgoing strip_hop (b_URL (px_heap p ! b)) (r\<lparr>r_ctxBackend := Some b\<rparr>)
       in px_sent p' = px_sent p @ [(b, out)] \<and>
          (panicked, px_writer p') = write_answer z strip_hop (roundTrip out) (px_writer p) \<and>
          panicked \<in> {None, Some AbortHandler, Some InvalidStatusCode} \<and>
          (\<forall>err. roundTrip out = TransportError err \<longrightarrow>
             panicked = None \<and> px_writer p' = http_Error z ''bad gateway'' 502 (px_writer p)) \<and>
          px_pool p' = px_pool p \<and> length (px_heap p') = length (px_heap p) \<and>
          (\<forall>c < length (px_heap p). b_activeConns (px_heap p' ! c) = b_activeConns (px_heap p ! c) + delta c))"
proof (cases "Pool_Healthy (px_heap p) (px_pool p) = []")
  case True
  then have "\<forall>b\<in>set (p_backends (px_pool p)). \<not> IsHealthy (px_heap p ! b)"
    by (simp add: Pool_Healthy_filter filter_empty_conv)
  then show ?thesis using True by (simp add: HTTPProxy_ServeHTTP_def)
next
  case False
  then have ex: "\<not> (\<forall>b\<in>set (p_backends (px_pool p)). \<not> IsHealthy (px_heap p ! b))"
    by (simp add: Pool_Healthy_filter filter_empty_conv)
  obtain panicked p' where res: "HTTPProxy_ServeHTTP z strip_hop RoundRobin_Next roundTrip during r p = (panicked, p')" by fastforce
  obtain b where b: "b \<in> set (p_backends (px_pool p))" "IsHealthy (px_heap p ! b)"
    and f: "forwarded z strip_hop roundTrip delta r p b (panicked, p')"
    using rr.proxy_forwards [OF False assms(1-3), of z strip_hop roundTrip r] res by (auto simp: Pool_Healthy_filter)
  let ?out = "rp_outgoing strip_hop (b_URL (px_heap p ! b)) (r\<lparr>r_ctxBackend := Some b\<rparr>)"
  have "(panicked, px_writer p') = write_answer z strip_hop (roundTrip ?out) (px_writer p)"
    using f by (simp add: forwarded_def Let_def)
  then have "panicked \<in> {None, Some AbortHandler, Some InvalidStatusCode}" "\<forall>err. roundTrip ?out = TransportError err \<longrightarrow>
      panicked = None \<and> px_writer p' = http_Error z ''bad gateway'' 502 (px_writer p)"
    using write_answer_panics [of z strip_hop "roundTrip ?out" "px_writer p"]
    by (auto simp: answer_panics_def write_answer_def dest: arg_cong [where f = fst])
  then show ?thesis unfolding res Let_def prod.case if_not_P [OF ex] using b f
    by (intro bexI [of _ b] conjI) (simp_all add: forwarded_def Let_def)
qed

text \<open>The upstream's body breaks off.\<close>

theorem HTTPProxy_round_robin_witness:
  "let (panicked, p') = HTTPProxy_ServeHTTP \<lparr>z_write = (\<lambda>_ b. b), z_close = (\<lambda>_. [])\<rparr> (\<lambda>h. h) RoundRobin_Next
       (\<lambda>_. Answered 200 Map.empty [''half''] BodyReadError) (\<lambda>h. h) sample_client_request sample_proxy
   in panicked = Some AbortHandler \<and> map fst (px_sent p') = [0] \<and> b_activeConns (px_heap p' ! 0) = 0"
proof -
  let ?z = "\<lparr>z_write = (\<lambda>_ b. b), z_close = (\<lambda>_. [])\<rparr>" and ?rt = "\<lambda>_ :: request. Answered 200 Map.empty [''half''] BodyReadError"
  have "0 \<le> sint (rr_counter (px_selector sample_proxy))"
    "wf_refs (px_heap sample_proxy) (p_backends (px_pool sample_proxy))" "moves_counts (\<lambda>h. h) (\<lambda>_. 0)"
    by (simp_all add: sample_proxy_def NewRoundRobin_def wf_refs_def NewPool_def moves_counts_def)
  from HTTPProxy_round_robin [OF this, of ?z "\<lambda>h. h" ?rt sample_client_request]
  show ?thesis
    by (auto simp: sample_proxy_def NewPool_def backend_defs write_answer_def Let_def split_beta dest: arg_cong [where f = fst])
qed

text \<open>C26: answers are passed on unchanged. When a backend is healthy and the upstream answers, to any
  request, with a status that allows a body, a body that arrives to its end and, if it declares a length, that
  length (and, for a HEAD request, no body), the handler returns and the client is sent that status, for
  every header field the values of the answer (without its hop-by-hop fields) in their order, and exactly that body.\<close>

theorem HTTPProxy_delivers_answer:
  assumes "0 \<le> sint (rr_counter (px_selector p))" and "wf_refs (px_heap p) (p_backends (px_pool p))"
    and "moves_counts during delta" and "\<exists>b\<in>set (p_backends (px_pool p)). IsHealthy (px_heap p ! b)"
    and "px_writer p = writer_for r" and "\<And>out. roundTrip out = Answered status hs chunks BodyEOF"
    and "200 \<le> status" and "status \<le> 999" and "body_allowed status"
    and "Header_Get (strip_hop hs) ''Content-Length'' = [] \<or>
      ParseLength (Header_Get (strip_hop hs) ''Content-Length'') = Some (length (concat chunks))"
    and "r_Method r = ''HEAD'' \<Longrightarrow> concat chunks = []"
  shows "let (panicked, p') = HTTPProxy_ServeHTTP z strip_hop RoundRobin_Next roundTrip during r p in
    panicked = None \<and> rw_body (w_base (px_writer p')) = concat chunks \<and>
    (case rw_sent (w_base (px_writer p')) of
       None \<Rightarrow> False
     | Some (code, h) \<Rightarrow> code = status \<and> (\<forall>k. (case h k of None \<Rightarrow> [] | Some vs \<Rightarrow> vs) =
         (case strip_hop hs k of None \<Rightarrow> [] | Some vs \<Rightarrow> vs)))"
proof -
  let ?h = "copyHeader Map.empty (strip_hop hs)"
  define w1 where "w1 = w_WriteHeader status (w_setHeader (\<lambda>h. copyHeader h (strip_hop hs)) (writer_for r))"
  have get: "Header_Get ?h ''Content-Length'' = Header_Get (strip_hop hs) ''Content-Length''"
    by (simp add: Header_Get_def copyHeader_def split: option.split list.split)
  have w1: "w_layers w1 = []" "rw_sent (w_base w1) = Some (status, ?h)" "rw_head (w_base w1) \<longleftrightarrow> r_Method r = ''HEAD''"
    "rw_body (w_base w1) = []" "rw_written (w_base w1) = 0"
    using assms(7) by (simp_all add: w1_def w_WriteHeader_def w_setHeader_def writer_for_def new_response_def rw_sent_WriteHeader)
  have cl: "case rw_contentLength (w_base w1) of None \<Rightarrow> True | Some n \<Rightarrow> rw_written (w_base w1) + length (concat chunks) \<le> n"
    using assms(7,10) get
    by (auto simp: w1_def w_WriteHeader_def w_setHeader_def writer_for_def new_response_def base_WriteHeader_def Let_def)
  obtain w2 where w2: "copy_body z chunks w1 = (True, w2)" "rw_sent (w_base w2) = Some (status, ?h)" "rw_body (w_base w2) = concat chunks"
    using copy_body_complete [OF w1(1,2) assms(9) _ cl, of z] copy_body_empty [OF assms(11) w1(1,2), of z] w1
    by (cases "r_Method r = ''HEAD''") (use assms(11) in auto)
  have "Pool_Healthy (px_heap p) (px_pool p) \<noteq> []" using assms(4) by (auto simp: Pool_Healthy_filter filter_empty_conv)
  from rr.proxy_forwards [OF this assms(1-3), of z strip_hop roundTrip r]
  obtain b panicked p' where res: "HTTPProxy_ServeHTTP z strip_hop RoundRobin_Next roundTrip during r p = (panicked, p')"
    and f: "forwarded z strip_hop roundTrip delta r p b (panicked, p')"
    by (metis prod.collapse)
  have "(panicked, px_writer p') = (None, w2)"
    using f assms(6,7,8) w2(1) unfolding forwarded_def assms(5) by (simp add: write_answer_def w1_def Let_def)
  then show ?thesis using res w2(2,3) by (auto simp: copyHeader_def split: option.split)
qed

theorem HTTPProxy_delivers_answer_witness:
  "let (panicked, p') = HTTPProxy_ServeHTTP \<lparr>z_write = (\<lambda>_ b. b), z_close = (\<lambda>_. [])\<rparr> (\<lambda>h. h) RoundRobin_Next
       (\<lambda>_. Answered 404 [''Content-Length'' \<mapsto> [''4'']] [''no'', ''pe''] BodyEOF) (\<lambda>h. h) sample_client_request sample_proxy
   in panicked = None \<and> rw_body (w_base (px_writer p')) = ''nope''"
proof -
  let ?hs = "[''Content-Length'' \<mapsto> [''4'']]"
  have cl: "CanonicalKey ''Content-Length'' = ''Content-Length''" "ParseLength ''4'' = Some 4" by code_simp+
  have "0 \<le> sint (rr_counter (px_selector sample_proxy))"
    "wf_refs (px_heap sample_proxy) (p_backends (px_pool sample_proxy))" "moves_counts (\<lambda>h. h) (\<lambda>_. 0)"
    "\<exists>b\<in>set (p_backends (px_pool sample_proxy)). IsHealthy (px_heap sample_proxy ! b)"
    "px_writer sample_proxy = writer_for sample_client_request"
    by (simp_all add: sample_proxy_def NewRoundRobin_def wf_refs_def NewPool_def moves_counts_def backend_defs
        writer_for_def new_response_def sample_client_request_def)
  from HTTPProxy_delivers_answer [OF this, of "\<lambda>_. Answered 404 ?hs [''no'', ''pe''] BodyEOF" 404 ?hs "[''no'', ''pe'']" "\<lambda>h. h"
      "\<lparr>z_write = (\<lambda>_ b. b), z_close = (\<lambda>_. [])\<rparr>"]
  show ?thesis by (simp add: body_allowed_def cl Header_Get_def sample_client_request_def Let_def split_beta)
qed

text \<open>The client address is forwarded twice. The director appends it to \<open>X-Forwarded-For\<close> and
  the reverse proxy appends it again: for a request from \<open>host:port\<close> the upstream sees the
  prior list followed by \<open>host, host\<close>.\<close>

theorem XFF_duplicated:
  assumes "SplitHostPort (r_RemoteAddr r) = Inr (host, port)"
    and "\<And>h. strip_hop h ''X-Forwarded-For'' = h ''X-Forwarded-For''"
  shows "Header_Get (r_Header (rp_outgoing strip_hop target r)) ''X-Forwarded-For'' =
    (if Header_Get (r_Header r) ''X-Forwarded-For'' = [] then host
     else Header_Get (r_Header r) ''X-Forwarded-For'' @ '', '' @ host) @ '', '' @ host"
  using assms director_xff [of target r] by (simp add: rp_outgoing_def Header_Get_Set Let_def)

theorem XFF_duplicated_witness:
  "Header_Get (r_Header (rp_outgoing (\<lambda>h. h) sample_url sample_client_request)) ''X-Forwarded-For'' = ''10.0.0.1, 10.0.0.1''"
  using XFF_duplicated [of sample_client_request "''10.0.0.1''" "''5000''" "\<lambda>h. h" sample_url]
  by (simp add: sample_client_request_def SplitHostPort_def Header_Get_def)

text \<open>The connections a TCP proxy handles, one after the other.\<close>

fun handle_all ::
  "(string \<Rightarrow> duration \<Rightarrow> tconn option) \<Rightarrow> tcp_proxy \<Rightarrow> tconn list \<Rightarrow> heap \<Rightarrow> (heap \<times> bref option list) outcome" where
  "handle_all dial p [] h = Return (h, [])"
| "handle_all dial p (c # cs) h =
     bind_outcome (handleConn dial (\<lambda>h. h) p c h) (\<lambda>(h, b, ends).
       bind_outcome (handle_all dial p cs h) (\<lambda>(h, bs). Return (h, b # bs)))"

text \<open>The TCP proxy does not balance. As long as the health of the backends does not change,
  every connection goes to the first healthy backend of the pool; the connection counts are
  restored after each.\<close>

theorem TCP_always_first:
  assumes "Pool_Healthy h (tp_pool p) = b # bs" and "\<forall>c\<in>set clients. tc_isTCP c"
    and "\<forall>a t u. dial a t = Some u \<longrightarrow> tc_isTCP u"
  shows "handle_all dial p clients h = Return (h, replicate (length clients) (Some b))"
  using assms(2)
proof (induction clients)
  case (Cons c cs)
  have id: "modify h b (DecConns \<circ> IncConns) = h" by (rule modify_id) simp
  have "\<exists>ends. handleConn dial (\<lambda>h. h) p c h = Return (h, Some b, ends)"
    using assms(1,3) Cons.prems id
    by (auto simp: handleConn_def go_index_def tunnel_def tunnel_copy_def io_Copy_def Let_def split: option.splits)
  then show ?case using Cons by auto
qed simp

theorem TCP_always_first_witness:
  "handle_all (\<lambda>_ _. Some sample_tconn) \<lparr>tp_pool = NewPool [0, 0], tp_dialTimeout = second\<rparr> [sample_tconn, sample_tconn] (px_heap sample_proxy) =
     Return (px_heap sample_proxy, [Some 0, Some 0])"
  using TCP_always_first [of "px_heap sample_proxy" "\<lparr>tp_pool = NewPool [0, 0], tp_dialTimeout = second\<rparr>" 0 "[0]"
    "[sample_tconn, sample_tconn]" "\<lambda>_ _. Some sample_tconn"]
  by (simp add: sample_proxy_def sample_tconn_def Pool_Healthy_filter NewPool_def backend_defs del: handle_all.simps)

end
