(* ===== verification/Gobalancer.thy ===== *)
theory Gobalancer
  imports Config Proxy
begin

text \<open>
  \<open>cmd/gobalancer/main.go\<close>: loading the configuration, building the pool of its first pool
  configuration, the round robin selector and the proxy, and waiting for a signal or the
  server's end. Loading is that of \<open>Config\<close>; the server itself and the signals are events.
\<close>

section \<open>Starting\<close>

record running =
  mn_heap :: heap
  mn_pool :: pool
  mn_selector :: round_robin
  mn_server :: http_server

fun build_backends ::
  "(string \<Rightarrow> string + url) \<Rightarrow> BackendConfig list \<Rightarrow> heap \<times> bref list \<Rightarrow> string + heap \<times> bref list" where
  "build_backends url_Parse [] hb = Inr hb"
| "build_backends url_Parse (bc # bcs) hb =
     (case Backend_New url_Parse (bc_ID bc) (bc_Addr bc) (bc_Weight bc) of
        Inl err \<Rightarrow> Inl err
      | Inr b \<Rightarrow> (let (h, backends) = hb; (ref, h) = alloc h b
                  in build_backends url_Parse bcs (h, backends @ [ref])))"

text \<open>The left result is the exit status.\<close>

definition main_start :: "(string \<Rightarrow> string + url) \<Rightarrow> load_error + Config \<Rightarrow> (int + running) outcome" where
  "main_start url_Parse loaded =
     (case loaded of
        Inl err \<Rightarrow> Return (Inl 1)
      | Inr cfg \<Rightarrow> bind_outcome (go_index (c_Pools cfg) 0) (\<lambda>poolCfg.
          case build_backends url_Parse (pc_Backends poolCfg) ([], []) of
            Inl err \<Rightarrow> Return (Inl 1)
          | Inr (h, backends) \<Rightarrow>
              (let pl = NewPool backends; sel = NewRoundRobin;
                   srv = NewHTTPServer (sc_Addr (c_Server cfg)) (sc_ReadTimeout (c_Server cfg))
                     (sc_WriteTimeout (c_Server cfg)) (sc_IdleTimeout (c_Server cfg))
               in Return (Inr \<lparr>mn_heap = h, mn_pool = pl, mn_selector = sel, mn_server = srv\<rparr>))))"

text \<open>The final \<open>select\<close>: the exit status of the program.\<close>

datatype main_event = SignalReceived "string option" | ServerEnded "serve_error option"

fun main_wait :: "main_event \<Rightarrow> int" where
  "main_wait (SignalReceived shutdownErr) = (if shutdownErr \<noteq> None then 1 else 0)"
| "main_wait (ServerEnded err) = (if err \<noteq> None \<and> err \<noteq> Some ErrServerClosed then 1 else 0)"

text \<open>
  The whole program: \<open>-config\<close> or its default, start-up, and, while the server goroutine runs, the
  wait for a signal or for the server's end. The result is the exit status, \<open>ended\<close> what the final
  \<open>select\<close> receives from the server that was started.
\<close>

definition go_main ::
  "(string \<Rightarrow> (string \<times> default_value) list \<Rightarrow> string + 'raw) \<Rightarrow> ('raw \<Rightarrow> string + Config) \<Rightarrow>
   (Config \<Rightarrow> (string \<times> string) list) \<Rightarrow> (string \<Rightarrow> string + url) \<Rightarrow> string option \<Rightarrow> (running \<Rightarrow> main_event) \<Rightarrow> int outcome" where
  "go_main readInConfig unmarshal v_Struct url_Parse config_flag ended =
     (let cfgPath = (case config_flag of Some path \<Rightarrow> path | None \<Rightarrow> ''config/config.yaml'')
      in bind_outcome (main_start url_Parse (Load readInConfig unmarshal v_Struct cfgPath)) (\<lambda>started.
           case started of Inl status \<Rightarrow> Return status | Inr m \<Rightarrow> Return (main_wait (ended m))))"

section \<open>Serving\<close>

text \<open>One request with what happens around it: the answer of the upstream and the other goroutines.\<close>

record service =
  sv_request :: request
  sv_roundTrip :: "request \<Rightarrow> answer"
  sv_during :: "heap \<Rightarrow> heap"

text \<open>
  The requests one after the other; the server recovers the panic of a handler and goes on. The
  result has the panic of each request.
\<close>

fun proxy_run ::
  "codec \<Rightarrow> (header \<Rightarrow> header) \<Rightarrow> service list \<Rightarrow> round_robin proxy_state \<Rightarrow> go_panic option list \<times> round_robin proxy_state" where
  "proxy_run z strip_hop [] p = ([], p)"
| "proxy_run z strip_hop (sv # svs) p =
     (let (panicked, p) = HTTPProxy_ServeHTTP z strip_hop RoundRobin_Next (sv_roundTrip sv) (sv_during sv) (sv_request sv)
            (p\<lparr>px_writer := writer_for (sv_request sv)\<rparr>);
          (rest, p) = proxy_run z strip_hop svs p
      in (panicked # rest, p))"

definition initial_proxy :: "running \<Rightarrow> round_robin proxy_state" where
  "initial_proxy m =
     \<lparr>px_heap = mn_heap m, px_pool = mn_pool m, px_selector = mn_selector m,
      px_writer = \<lparr>w_layers = [], w_base = new_response\<rparr>, px_sent = []\<rparr>"

section \<open>The pool after start\<close>

lemma build_backends_ok:
  assumes "build_backends url_Parse bcs (h, map f [0..<length h]) = Inr (h', bs)" and "f = id"
    and "\<forall>b\<in>set h. IsHealthy b \<and> 1 \<le> b_Weight b \<and> b_activeConns b = 0"
  shows "bs = [0..<length h'] \<and> map b_ID h' = map b_ID h @ map bc_ID bcs \<and>
    (\<forall>b\<in>set h'. IsHealthy b \<and> 1 \<le> b_Weight b \<and> b_activeConns b = 0)"
  using assms
proof (induction bcs arbitrary: h)
  case (Cons bc bcs)
  obtain b where b: "Backend_New url_Parse (bc_ID bc) (bc_Addr bc) (bc_Weight bc) = Inr b"
    using Cons.prems(1) by (auto split: sum.splits)
  then have props: "b_ID b = bc_ID bc" "IsHealthy b" "1 \<le> b_Weight b" "b_activeConns b = 0"
    by (auto simp: Backend_New_def Let_def backend_defs split: sum.splits)
  have "build_backends url_Parse bcs (h @ [b], map f [0..<length (h @ [b])]) = Inr (h', bs)"
    using Cons.prems(1,2) b by (simp add: alloc_def)
  from Cons.IH [OF this Cons.prems(2)] Cons.prems(3) props show ?case by simp
qed simp

lemma build_backends_total:
  "\<forall>bc\<in>set bcs. \<exists>u. url_Parse (bc_Addr bc) = Inr u \<Longrightarrow> \<exists>hb'. build_backends url_Parse bcs hb = Inr hb'"
proof (induction bcs arbitrary: hb)
  case (Cons bc bcs)
  then obtain u where "url_Parse (bc_Addr bc) = Inr u" by auto
  then show ?case using Cons by (auto simp: Backend_New_def Let_def split_beta)
qed simp

lemma main_start_pool:
  assumes "main_start url_Parse (Inr cfg) = Return (Inr m)"
  shows "p_backends (mn_pool m) = [0..<length (mn_heap m)] \<and> mn_selector m = NewRoundRobin \<and>
    map b_ID (mn_heap m) = map bc_ID (pc_Backends (hd (c_Pools cfg))) \<and>
    (\<forall>b\<in>set (mn_heap m). IsHealthy b \<and> 1 \<le> b_Weight b \<and> b_activeConns b = 0)"
proof -
  obtain h bs where bb: "build_backends url_Parse (pc_Backends (hd (c_Pools cfg))) ([], []) = Inr (h, bs)"
    and m: "mn_heap m = h" "mn_pool m = NewPool bs" "mn_selector m = NewRoundRobin"
    using assms
    by (cases "c_Pools cfg") (auto simp: main_start_def go_index_def Let_def split: sum.splits if_splits)
  from build_backends_ok [of url_Parse "pc_Backends (hd (c_Pools cfg))" "[]" id h bs] bb m
  show ?thesis by (simp add: NewPool_def)
qed

text \<open>The exit status is zero exactly if the program started and was stopped without an error.\<close>

lemma go_main_status:
  assumes "c_Pools cfg \<noteq> []" and "Load readInConfig unmarshal v_Struct ''config/config.yaml'' = Inr cfg"
  shows "\<exists>status. go_main readInConfig unmarshal v_Struct url_Parse None ended = Return status \<and>
    (status = 0 \<longleftrightarrow> (\<exists>m. main_start url_Parse (Inr cfg) = Return (Inr m) \<and>
       ended m \<in> {SignalReceived None, ServerEnded None, ServerEnded (Some ErrServerClosed)}))"
proof -
  obtain pc pcs where pools: "c_Pools cfg = pc # pcs" using assms(1) by (cases "c_Pools cfg") auto
  show ?thesis
  proof (cases "build_backends url_Parse (pc_Backends pc) ([], [])")
    case (Inl err)
    then show ?thesis using assms(2) pools by (simp add: go_main_def main_start_def go_index_def)
  next
    case (Inr hb)
    then obtain m where m: "main_start url_Parse (Inr cfg) = Return (Inr m)"
      using pools by (auto simp: main_start_def go_index_def Let_def split_beta)
    have "main_wait (ended m) = 0 \<longleftrightarrow>
        ended m \<in> {SignalReceived None, ServerEnded None, ServerEnded (Some ErrServerClosed)}"
      by (cases "ended m") auto
    then show ?thesis using m assms(2) by (simp add: go_main_def)
  qed
qed

text \<open>Other goroutines that only change connection counts.\<close>

definition only_counts :: "(heap \<Rightarrow> heap) \<Rightarrow> bool" where
  "only_counts during \<longleftrightarrow>
     (\<forall>h. length (during h) = length h \<and>
        (\<forall>c < length h. during h ! c = (h ! c)\<lparr>b_activeConns := b_activeConns (during h ! c)\<rparr>))"

lemma only_counts_healthy:
  "only_counts during \<Longrightarrow> c < length h \<Longrightarrow> IsHealthy (during h ! c) = IsHealthy (h ! c)"
  unfolding only_counts_def backend_defs by (metis backend.select_convs(5) backend.surjective backend.update_convs(4))

lemma conns_healthy [simp]: "IsHealthy (IncConns b) = IsHealthy b" "IsHealthy (DecConns b) = IsHealthy b"
  by (simp_all add: backend_defs)

lemma all_healthy_pool:
  assumes "p_backends pl = [0..<length h]" and "\<forall>c < length h. IsHealthy (h ! c)"
  shows "Pool_Healthy h pl = [0..<length h]"
  using assms by (simp add: Pool_Healthy_filter filter_id_conv)

lemma proxy_step:
  assumes "p_backends (px_pool p) = [0..<length (px_heap p)]" and "\<forall>c < length (px_heap p). IsHealthy (px_heap p ! c)"
    and "px_selector p = \<lparr>rr_counter = of_nat a\<rparr>" and "a < 2 ^ 63" and "px_heap p \<noteq> []" and "only_counts during"
  shows "\<exists>panicked p'. HTTPProxy_ServeHTTP z strip_hop RoundRobin_Next roundTrip during r p = (panicked, p') \<and>
    panicked \<in> answer_panics \<and>
    p_backends (px_pool p') = [0..<length (px_heap p')] \<and> (\<forall>c < length (px_heap p'). IsHealthy (px_heap p' ! c)) \<and>
    px_selector p' = \<lparr>rr_counter = of_nat (Suc a)\<rparr> \<and> length (px_heap p') = length (px_heap p) \<and>
    map fst (px_sent p') = map fst (px_sent p) @ [[0..<length (px_heap p)] ! (a mod length (px_heap p))]"
proof -
  let ?n = "length (px_heap p)" and ?b = "[0..<length (px_heap p)] ! (a mod length (px_heap p))"
  note pool = all_healthy_pool [OF assms(1,2)]
  have sel: "RoundRobin_Next (px_heap p) r [0..<?n] (px_selector p) = (picked ?b, \<lparr>rr_counter = of_nat (Suc a)\<rparr>)"
    using RoundRobin_Next_count [of "[0..<?n]" a] assms(3,4,5) by simp
  let ?h = "modify (during (modify (px_heap p) ?b IncConns)) ?b DecConns"
  have len: "length (during (modify (px_heap p) ?b IncConns)) = ?n" using assms(6) by (simp add: only_counts_def)
  have "IsHealthy (?h ! c)" if "c < ?n" for c
    using that assms(2) only_counts_healthy [OF assms(6), of c "modify (px_heap p) ?b IncConns"] len
    by (cases "c = ?b") (simp_all add: nth_modify)
  then show ?thesis
    using pool sel assms(1,5) len by (simp add: HTTPProxy_ServeHTTP_def atomic_access_def write_answer_panics Let_def split_beta)
qed

lemma proxy_run_cycle:
  assumes "p_backends (px_pool p) = [0..<length (px_heap p)]" and "\<forall>c < length (px_heap p). IsHealthy (px_heap p ! c)"
    and "px_selector p = \<lparr>rr_counter = of_nat a\<rparr>" and "a + length svs \<le> 2 ^ 63" and "px_heap p \<noteq> []"
    and "\<forall>sv\<in>set svs. only_counts (sv_during sv)"
  shows "\<exists>panics p'. proxy_run z strip_hop svs p = (panics, p') \<and> set panics \<subseteq> answer_panics \<and>
    map fst (px_sent p') = map fst (px_sent p) @ cycle [0..<length (px_heap p)] a (length svs)"
  using assms
proof (induction svs arbitrary: p a)
  case Nil
  then show ?case by (simp add: cycle_def)
next
  case (Cons sv svs)
  let ?p = "p\<lparr>px_writer := writer_for (sv_request sv)\<rparr>"
  obtain pn p1 where p1: "HTTPProxy_ServeHTTP z strip_hop RoundRobin_Next (sv_roundTrip sv) (sv_during sv) (sv_request sv) ?p = (pn, p1)"
      "pn \<in> answer_panics"
    and inv: "p_backends (px_pool p1) = [0..<length (px_heap p1)]" "\<forall>c < length (px_heap p1). IsHealthy (px_heap p1 ! c)"
      "px_selector p1 = \<lparr>rr_counter = of_nat (Suc a)\<rparr>" "length (px_heap p1) = length (px_heap p)"
    and sent: "map fst (px_sent p1) = map fst (px_sent p) @ [[0..<length (px_heap p)] ! (a mod length (px_heap p))]"
    using proxy_step [of ?p a "sv_during sv" z strip_hop "sv_roundTrip sv" "sv_request sv"] Cons.prems by auto
  have "px_heap p1 \<noteq> []" using inv(4) Cons.prems(5) by auto
  then obtain pns p2 where "proxy_run z strip_hop svs p1 = (pns, p2)" "set pns \<subseteq> answer_panics"
    "map fst (px_sent p2) = map fst (px_sent p1) @ cycle [0..<length (px_heap p1)] (Suc a) (length svs)"
    using Cons.IH [OF inv(1-3)] Cons.prems(4,6) by auto
  then show ?case using p1 sent inv(4) by (simp add: cycle_Suc)
qed

lemma proxy_run_length: "length (fst (proxy_run z strip_hop svs p)) = length svs"
  by (induction svs arbitrary: p) (simp_all add: Let_def split_beta)

text \<open>A concrete configuration with two backends.\<close>

definition sample_config :: "string \<Rightarrow> Config" where
  "sample_config alg =
     \<lparr>c_Server = \<lparr>sc_Addr = '':8080'', sc_ReadTimeout = 30 * second, sc_WriteTimeout = 30 * second,
        sc_IdleTimeout = 120 * second, sc_TLS = None\<rparr>,
      c_Pools = [\<lparr>pc_Name = ''default'', pc_Algorithm = alg,
        pc_Backends = [\<lparr>bc_ID = ''b1'', bc_Addr = ''http://a'', bc_Weight = 1\<rparr>, \<lparr>bc_ID = ''b2'', bc_Addr = ''http://b'', bc_Weight = 3\<rparr>],
        pc_Routes = [], pc_Health = \<lparr>hc_Interval = 10 * second, hc_Timeout = 2 * second, hc_Path = ''/health'',
          hc_FailureThreshold = 3, hc_SuccessThreshold = 2, hc_Mode = [], hc_PassiveWindow = 0, hc_PassiveErrorRate = 0\<rparr>\<rparr>],
      c_Admin = \<lparr>ac_Addr = '':9001''\<rparr>, c_Metrics = \<lparr>mc_Enabled = True, mc_Path = ''/metrics''\<rparr>,
      c_Logging = \<lparr>lc_Level = ''info'', lc_Format = ''json''\<rparr>\<rparr>"

definition parse_any :: "string \<Rightarrow> string + url" where
  "parse_any s = Inr \<lparr>u_Scheme = ''http'', u_Host = s, u_Path = [], u_RawQuery = []\<rparr>"

lemmas sample_config_eval = sample_config_def parse_any_def main_start_def go_index_def Backend_New_def alloc_def Let_def

section \<open>Properties\<close>

text \<open>C1: the program from start to service. When the loaded configuration passed validation and
  its backends' addresses parse, the program starts with exactly the backends of the first pool
  configuration, all healthy, with positive weights and no active connections; from then on, while health does not change and fewer than \<open>2^63\<close>
  requests arrive one after the other, \<open>k\<close> rounds of requests, whatever the upstreams answer, also when an
  answer is broken off and the request aborted, and whatever other requests do to the connection counts, send every
  backend exactly \<open>k\<close> requests. The handler of the program never panics by itself: a request ends in a panic
  only where the library aborts it because of its answer.\<close>

theorem Gobalancer_serves_fairly:
  assumes load: "Load readInConfig unmarshal v_Struct path = Inr cfg"
    and validator: "\<And>c. v_Struct c = [] \<Longrightarrow> tags_hold is_url c"
    and parses: "\<And>a. is_url a \<Longrightarrow> \<exists>u. url_Parse a = Inr u"
    and n: "n = length (pc_Backends (hd (c_Pools cfg)))"
    and svs: "length svs = k * n" "k * n \<le> 2 ^ 63" "\<forall>sv\<in>set svs. only_counts (sv_during sv)"
  shows "case main_start url_Parse (Inr cfg) of
      Panic e \<Rightarrow> False
    | Return (Inl code) \<Rightarrow> False
    | Return (Inr m) \<Rightarrow>
        map b_ID (mn_heap m) = map bc_ID (pc_Backends (hd (c_Pools cfg))) \<and> p_backends (mn_pool m) = [0..<n] \<and>
        (\<forall>b\<in>set (mn_heap m). IsHealthy b \<and> 1 \<le> b_Weight b \<and> b_activeConns b = 0) \<and>
        (let (panics, p') = proxy_run z strip_hop svs (initial_proxy m) in
           length panics = length svs \<and> set panics \<subseteq> {None, Some AbortHandler, Some InvalidStatusCode} \<and>
           mset (map fst (px_sent p')) = repeat_mset k (mset [0..<n]))"
proof -
  have tags: "tags_hold is_url cfg" using validator [OF Load_valid [OF load]] .
  then obtain pc pcs where pools: "c_Pools cfg = pc # pcs" and pt: "pool_tags is_url pc"
    by (cases "c_Pools cfg") (auto simp: tags_hold_def)
  have ok: "\<forall>bc\<in>set (pc_Backends pc). is_url (bc_Addr bc)" and ne: "pc_Backends pc \<noteq> []"
    using pt by (auto simp: pool_tags_def backend_tags_def list_all_iff)
  from build_backends_total [of "pc_Backends pc" url_Parse "([], [])"] ok parses obtain m where m: "main_start url_Parse (Inr cfg) = Return (Inr m)"
    using pools by (auto simp: main_start_def go_index_def Let_def)
  note start = main_start_pool [OF m]
  then have len: "length (mn_heap m) = n" by (metis n length_map)
  have "mn_heap m \<noteq> []" using len n ne pools by auto
  moreover have "\<forall>c < length (mn_heap m). IsHealthy (mn_heap m ! c)" using start by simp
  ultimately obtain pns p' where p': "proxy_run z strip_hop svs (initial_proxy m) = (pns, p')" "set pns \<subseteq> answer_panics"
    and sent: "map fst (px_sent p') = cycle [0..<n] 0 (k * n)"
    using proxy_run_cycle [of "initial_proxy m" 0 svs z strip_hop] start svs len
    by (auto simp: initial_proxy_def NewRoundRobin_def)
  have "mset (map fst (px_sent p')) = repeat_mset k (mset [0..<n])"
    unfolding sent using mset_cycle [of "[0..<n]" 0 k] by simp
  moreover have "length pns = length svs" using proxy_run_length [of z strip_hop svs "initial_proxy m"] p'(1) by simp
  ultimately show ?thesis using start p' len unfolding m outcome.case sum.case answer_panics_def by simp
qed

theorem Gobalancer_serves_fairly_witness:
  "case main_start parse_any (Inr (sample_config ''p2c'')) of
      Panic e \<Rightarrow> False
    | Return (Inl code) \<Rightarrow> False
    | Return (Inr m) \<Rightarrow>
        (let (panics, p') = proxy_run \<lparr>z_write = (\<lambda>_ b. b), z_close = (\<lambda>_. [])\<rparr> (\<lambda>h. h)
            (replicate 4 \<lparr>sv_request = sample_client_request, sv_roundTrip = (\<lambda>_. Answered 200 Map.empty [''x''] ClientGone), sv_during = (\<lambda>h. h)\<rparr>) (initial_proxy m)
         in length panics = 4 \<and> mset (map fst (px_sent p')) = repeat_mset 2 (mset [0, 1]))"
proof -
  let ?cfg = "sample_config ''p2c''" and ?v = "\<lambda>c. if tags_hold (\<lambda>_. True) c then [] else [(''Config'', ''invalid'')]"
  let ?svs = "replicate 4 \<lparr>sv_request = sample_client_request, sv_roundTrip = (\<lambda>_. Answered 200 Map.empty [''x''] ClientGone), sv_during = (\<lambda>h. h)\<rparr>"
  have "tags_hold (\<lambda>_. True) ?cfg"
    by (simp add: tags_hold_def sample_config_def pool_tags_def backend_tags_def health_tags_def algorithm_names_def)
  then have "Load (\<lambda>_ _. Inr ()) (\<lambda>_. Inr ?cfg) ?v ''config.yaml'' = Inr ?cfg"
    by (simp add: Load_def validate_def)
  moreover have "tags_hold (\<lambda>_. True) c" if "?v c = []" for c using that by (simp split: if_splits)
  moreover have "\<exists>u. parse_any a = Inr u" for a by (simp add: parse_any_def)
  moreover have "2 = length (pc_Backends (hd (c_Pools ?cfg)))" by (simp add: sample_config_def)
  moreover have "length ?svs = 2 * 2" "2 * 2 \<le> (2 :: nat) ^ 63" "\<forall>sv\<in>set ?svs. only_counts (sv_during sv)"
    by (simp_all add: only_counts_def)
  ultimately have *: "case main_start parse_any (Inr ?cfg) of
      Panic e \<Rightarrow> False
    | Return (Inl code) \<Rightarrow> False
    | Return (Inr m) \<Rightarrow>
        map b_ID (mn_heap m) = map bc_ID (pc_Backends (hd (c_Pools ?cfg))) \<and> p_backends (mn_pool m) = [0..<2] \<and>
        (\<forall>b\<in>set (mn_heap m). IsHealthy b \<and> 1 \<le> b_Weight b \<and> b_activeConns b = 0) \<and>
        (let (panics, p') = proxy_run \<lparr>z_write = (\<lambda>_ b. b), z_close = (\<lambda>_. [])\<rparr> (\<lambda>h. h) ?svs (initial_proxy m) in
           length panics = length ?svs \<and> set panics \<subseteq> {None, Some AbortHandler, Some InvalidStatusCode} \<and>
           mset (map fst (px_sent p')) = repeat_mset 2 (mset [0..<2]))"
    by (rule Gobalancer_serves_fairly)
  have "[0..<2 :: nat] = [0, 1]" by (simp add: upt_rec)
  with * show ?thesis by (simp add: Let_def split_beta split: outcome.splits sum.splits)
qed

text \<open>The configured algorithm is ignored. Whatever algorithm and health settings the first pool
  names and whatever further pools, admin, metrics and logging settings there are, the program
  starts in the same state, with the round robin selector.\<close>

theorem main_ignores_algorithm:
  assumes "c_Pools cfg = pc # pcs" and "c_Pools cfg' = pc' # pcs'" and "c_Server cfg' = c_Server cfg"
    and "pc_Backends pc' = pc_Backends pc"
  shows "main_start url_Parse (Inr cfg') = main_start url_Parse (Inr cfg) \<and>
    (case main_start url_Parse (Inr cfg) of Return (Inr m) \<Rightarrow> mn_selector m = NewRoundRobin | _ \<Rightarrow> True)"
  using assms by (simp add: main_start_def go_index_def Let_def split: sum.splits)

theorem main_ignores_algorithm_witness:
  "main_start parse_any (Inr (sample_config ''least_connections'')) = main_start parse_any (Inr (sample_config ''p2c''))"
  using main_ignores_algorithm [of "sample_config ''p2c''" _ _ "sample_config ''least_connections''" _ _ parse_any]
  by (simp add: sample_config_def)

end
