(* ===== verification/Spec2Isabelle.thy ===== *)
theory Spec2Isabelle
  imports BreakerAtomic RegistryConcurrency SelectorConcurrency Selectors HealthPassive BucketConcurrency MiddlewareStack
    Metrics Timeout Routing SNI TlsListener Admin Gobalancer
begin

text \<open>
  A model of the load balancer \<open>gobalancer\<close> and the proofs of what makes it correct.

  \<^bold>\<open>The program.\<close> \<open>cmd/gobalancer/main.go\<close> loads a configuration, builds a pool of backends and
  serves HTTP through a reverse proxy that asks a selector for a backend per request. The other
  packages are the parts a deployment composes around it: six selectors, active and passive
  health checks, circuit breakers, a rate limiter and further middleware, routers, TLS
  termination and passthrough, a TCP proxy, metrics and an admin API. They meet in two places:
  the backends, which the pool, the selectors, the proxies, the health checks and the admin API
  share by pointer, and the response writer, which every handler and middleware passes on.

  \<^bold>\<open>How the code is modelled.\<close> Structs are records, enumerations datatypes, one definition per
  function or method, in the order of the file, with loops as recursive functions. Backends live
  in a heap, a list of records, and everybody else holds positions in it (\<open>Backend\<close>). A Go
  function that can panic returns an \<open>outcome\<close> (\<open>Prelude\<close>); indexing goes through
  \<open>go_index\<close>, so an index out of range is a value of the model; returned errors are the left
  part of a sum, a possibly nil pointer is an option. \<open>int64\<close> counters that can wrap (the
  selectors' counters, connection counts, failure counts, tokens) are 64-bit words, hashes are
  32-bit words and bytes 8-bit words; durations and time stamps are integers of nanoseconds;
  \<open>float64\<close> values are rationals with explicit rounding to 53 bits, nearest even
  (\<open>Float64\<close>). Methods that hold their lock throughout are one step; the components whose
  atomic operations interleave (the breaker, its registry, the token bucket, the two counting
  selectors, the timeout) have a second model in which every atomic load, store, lock and channel
  operation is a step of an inductive relation, for any number of goroutines; a mutex and a read-write
  mutex block as \<open>sync\<close> documents it. Where the code defers a call, the handler returns the panic beside the
  state that the deferred call left (\<open>HTTPProxy_ServeHTTP\<close>, \<open>InstrumentHandler\<close>). There is no fuel: every recursion has a termination proof, and an
  operation that can block for ever says so in its type. Packages that are not part of the
  repository (gRPC, viper, validator, fsnotify, uuid, Prometheus) and the outside world (the
  network, the clock, random numbers, files, the compressor) are parameters; what a property needs
  of them is one of its hypotheses.

  \<^bold>\<open>The theories.\<close>

  \<^item> \<open>Prelude\<close>: panics, machine integers, the string functions the code calls, and the locales
    \<open>get_or_create\<close> (tables that create an entry on first use: the breaker registry, the probe
    states, the token buckets), \<open>transition_system\<close> (invariants along runs: every interleaving
    model), its extension \<open>terminating_system\<close> (a rank that pays for the cost of every step and so bounds
    the cost of runs: the token bucket) and \<open>scheduler\<close> (executing a schedule gives a run: how the witnesses are evaluated).
  \<^item> \<open>Backend\<close> (\<open>internal/backend\<close>): backends and the pool. The locale \<open>id_bag\<close> says that
    adding, removing and finding behave as on a bag of IDs; the pool interprets it, and what
    the admin API leaves in the pool is proved through it.
  \<^item> \<open>Http\<close>: the parts of \<open>net\<close> and \<open>net/http\<close> the program uses and the program's
    response writer wrappers as a stack of layers. The writer of \<open>net/http\<close> refuses bytes beyond a
    declared length and bodies that the status does not allow, and discards the body of an answer to HEAD.
  \<^item> \<open>Balancer\<close>, \<open>Hashing\<close>, \<open>Selectors\<close>, \<open>SelectorConcurrency\<close> (\<open>internal/balancer\<close>): the
    selectors and the factory. The locales \<open>selector\<close> and \<open>healthy_selector\<close> are the contract of \<open>Next\<close>;
    round robin, least connections, power of two choices and IP hash interpret the first,
    weighted round robin the second. Consistent hashing meets neither once its ring is built
    (its choice ignores the list it is given); what it does satisfy is that the sorted slice and
    the binary search compute the clockwise owner of the client's hash, and minimal remapping.
    The locale \<open>ticket_dispenser\<close> says what makes a selector that counts atomically fair under
    any interleaving; round robin and weighted round robin interpret it.
  \<^item> \<open>CircuitBreaker\<close>, \<open>BreakerConcurrency\<close>, \<open>BreakerAtomic\<close>, \<open>RegistryConcurrency\<close>
    (\<open>internal/circuitbreaker\<close>): the breaker run sequentially refines a three-state machine;
    interleaved, it keeps mutual exclusion and bounds the admitted probes, but can block for ever
    while it holds its lock, can be closed just after it was opened, and can leave the open state
    early. An uninterrupted call of the interleaved model does what the sequential method does.
    The registry's double-checked lookup makes one breaker per backend and cannot deadlock, with a
    read-write mutex on which new readers wait behind a writer that waits.
  \<^item> \<open>HealthActive\<close>, \<open>HealthPassive\<close> (\<open>internal/health\<close>): thresholds, recovery, the
    exponential backoffs and the sliding window. The locale \<open>health_monitor\<close> is interpreted
    for the checker and for the state machine. The checker's loop starts probes that nobody waits for and
    that return in any order, also late; it is related to the probes of one backend by a simulation.
  \<^item> \<open>RateLimiter\<close>, \<open>BucketConcurrency\<close> (\<open>internal/middleware/ratelimit.go\<close>): the rate bound of
    the token bucket, with evictions by the cleanup, and its two defects; concurrent calls and sweeps with their
    lock and atomic operations: calls end after a bounded number of operations, without deadlock.
  \<^item> \<open>Middleware\<close>, \<open>MiddlewareStack\<close>, \<open>Timeout\<close>, \<open>Metrics\<close> (\<open>internal/middleware\<close>,
    \<open>internal/proxy/middleware.go\<close>, \<open>internal/metrics\<close>): the round trip of compression, the
    accuracy of the access log, also around compression, that the header middlewares act too late,
    and that the metrics account for every request, also when handlers panic. \<open>Timeout\<close> is about what the
    middleware delegates to \<open>http.TimeoutHandler\<close>: a request is answered completely or with a 503.
  \<^item> \<open>Routing\<close> (\<open>internal/routing\<close>): the path trie returns the longest registered prefix;
    host, header and canary routing; shadowing leaves the request intact.
  \<^item> \<open>SNI\<close>, \<open>TlsListener\<close> (\<open>internal/tls\<close>): the server name parser inverts an encoder of
    ClientHello records and panics on exactly one kind of input; after peeking every byte is delivered;
    which certificate a listener presents.
  \<^item> \<open>Proxy\<close> (\<open>internal/proxy\<close>): the HTTP proxy, proved in the selector locale for every
    selector that meets the contract and instantiated with round robin: where requests go, what the client is
    sent, and that the deferred decrement runs also when the library aborts the request with a panic;
    transport settings, tunnels and the TCP proxy.
  \<^item> \<open>Admin\<close> (\<open>internal/admin\<close>): the API refines a directory of IDs and weights that is
    specified by method and path; draining; the live configuration.
  \<^item> \<open>Config\<close>, \<open>Gobalancer\<close> (\<open>config\<close>, \<open>cmd/gobalancer\<close>): loading and validation, and
    the program from start-up to service.

  This theory holds the properties that span components: a backend that the checker's loop has
  ejected, or that the admin API has deleted, gets no request from a proxy over the same pool, the
  rate limiting middleware with its cleanup bounds the load of the handler behind it, and every pool of a validated
  configuration can be served with the selector it names.

  \<^bold>\<open>What is not modelled.\<close> Logging. The scrape handler, a call of the Prometheus client, and how
  that client keeps its values. The TLS handshake beyond the choice of the certificate. Of \<open>net/http\<close>: the fields
  the server adds to a response by itself (date, detected content type, transfer encoding), and failing
  writes to the client, which only the proxy meets (as an answer whose copy is broken off); a status code outside 100 to 999 panics in the
  proxy and is excluded by hypothesis elsewhere. Of \<open>httputil.ReverseProxy\<close>: interim responses (1xx), trailers, flushing, the bytes after
  a protocol switch and the suppression of the default user agent. The compressor hands what one of its calls
  emits on in one \<open>Write\<close>. Data races on plain fields: the checker's counter maps, the weight of a
  backend and the random generators are written without synchronisation, and the model takes such
  operations (of a probe: its counter updates and its transition) one after the other.

  \<^bold>\<open>Bounds.\<close> Round robin is fair, and does not panic, while fewer than \<open>2^63\<close>
  requests have been counted; after that the signed counter is negative and \<open>Next\<close> panics
  (\<open>Balancer\<close>). The rate bound is stated up to a relative error of \<open>2^-51\<close>, which covers the
  three roundings of a refill, for bursts up to \<open>2^62\<close> and times in which at most \<open>2^61\<close>
  tokens accrue, so that the \<open>int64\<close> sums do not wrap. The error rate of the passive
  checker is one rounded quotient, a relative error of \<open>2^-53\<close>. Consecutive probe counters are
  modelled as integers, since they count probes that are seconds apart.
\<close>

section \<open>Health checks and routing\<close>

lemma ejected_after_run:
  assumes "check_ok r (Checker_start c h)"
    and "1 \<le> h_FailureThreshold (ck_cfg c)" and "1 \<le> h_SuccessThreshold (ck_cfg c)"
    and "GetHealth (h ! r) \<noteq> HealthDisabled" and "0 \<le> map_count (ck_failures c) (b_ID (h ! r))"
    and "returned_probes r evs (Checker_start c h) = vs @ us" and "h_FailureThreshold (ck_cfg c) \<le> int (length us)"
    and "\<forall>net\<in>set us. \<not> probe_result net c (h ! r)"
  shows "\<not> IsHealthy (cs_heap (Checker_Run evs (Checker_start c h)) ! r) \<and>
    length (cs_heap (Checker_Run evs (Checker_start c h))) = length h"
proof -
  have "seen_as r (Checker_start c h) (c, h ! r)" by (simp add: seen_as_def Checker_start_def)
  note run = run_seen [OF this assms(1), of evs]
  have "GetHealth (snd (Checker_probes (vs @ us) (c, h ! r))) = HealthUnhealthy"
    using assms by (intro Checker_probes_eject)
  then have "\<not> IsHealthy (cs_heap (Checker_Run evs (Checker_start c h)) ! r)"
    using run assms(6) by (simp add: seen_as_def backend_defs)
  moreover have "map b_ID (cs_heap (Checker_Run evs (Checker_start c h))) = map b_ID h"
    using run by (simp add: Checker_start_def)
  ultimately show ?thesis by (metis length_map)
qed

section \<open>Properties\<close>

text \<open>C14: an ejected backend gets no traffic. The checker runs over the pool that the proxy
  uses; its probes return in any order, also late, during or after later ticks; no other backend of the pool has the ID
  of \<open>b\<close>. When the last \<open>FailureThreshold\<close> or more probes of \<open>b\<close> that returned failed, the proxy, on the
  backends as the checker left them, never forwards a request to \<open>b\<close>, and panics at most with the abort that
  ends a broken response or on a status that \<open>net/http\<close> refuses.\<close>

theorem Ejected_backend_gets_no_traffic:
  assumes "b \<in> set (p_backends (ck_pool c))"
    and "\<forall>q\<in>set (p_backends (ck_pool c)). q \<noteq> b \<longrightarrow> b_ID (h ! q) \<noteq> b_ID (h ! b)"
    and "wf_refs h (p_backends (ck_pool c))"
    and "1 \<le> h_FailureThreshold (ck_cfg c)" and "1 \<le> h_SuccessThreshold (ck_cfg c)"
    and "GetHealth (h ! b) \<noteq> HealthDisabled" and "0 \<le> map_count (ck_failures c) (b_ID (h ! b))"
    and "returned_probes b evs (Checker_start c h) = vs @ us" and "h_FailureThreshold (ck_cfg c) \<le> int (length us)"
    and "\<forall>net\<in>set us. \<not> probe_result net c (h ! b)"
    and "px_pool p = ck_pool c" and "px_heap p = cs_heap (Checker_Run evs (Checker_start c h))"
    and "0 \<le> sint (rr_counter (px_selector p))" and "moves_counts during delta"
  shows "let (panicked, p') = HTTPProxy_ServeHTTP z strip_hop RoundRobin_Next roundTrip during r p
    in panicked \<in> {None, Some AbortHandler, Some InvalidStatusCode} \<and>
      (\<exists>sent. px_sent p' = px_sent p @ sent \<and> b \<notin> fst ` set sent)"
proof -
  have "check_ok b (Checker_start c h)" using assms(1-3) by (simp add: check_ok_def own_id_def Checker_start_def)
  note ej = ejected_after_run [OF this assms(4-10)]
  have "wf_refs (px_heap p) (p_backends (px_pool p))"
    using ej assms(3,11,12) by (simp add: wf_refs_def)
  then obtain panicked p' sent where "HTTPProxy_ServeHTTP z strip_hop RoundRobin_Next roundTrip during r p = (panicked, p')"
    and "panicked \<in> answer_panics" and sent: "px_sent p' = px_sent p @ sent" "\<forall>q\<in>fst ` set sent. IsHealthy (px_heap p ! q)"
    using rr.proxy_sends [where p = p and during = during and delta = delta and z = z and strip_hop = strip_hop
        and roundTrip = roundTrip and r = r] assms(13,14) by blast
  moreover have "b \<notin> fst ` set sent" using sent(2) ej assms(12) by auto
  ultimately show ?thesis by (auto simp: answer_panics_def)
qed

definition two_backends :: heap where
  "two_backends = [sample_backend HealthHealthy, (sample_backend HealthHealthy)\<lparr>b_ID := ''b2''\<rparr>]"

text \<open>A network in which only the first of them fails: its dial is refused.\<close>

definition sample_checker :: checker where
  "sample_checker = NewChecker (NewPool [0, 1]) (health_DefaultConfig\<lparr>h_Mode := ''tcp''\<rparr>)"

definition refusing :: network where
  "refusing = \<lparr>net_Get = (\<lambda>_. Inr 200), net_Dial = (\<lambda>_ _. False), net_URLString = u_Host\<rparr>"

text \<open>The probes of the first tick return only after the second one; the third probe of the first backend
  returns when the checker has stopped.\<close>

definition sample_ticks :: "check_event list" where
  "sample_ticks = [TickerC, ProbeReturns 1 refusing, TickerC, ProbeReturns 1 refusing, TickerC, ProbeReturns 0 refusing, CtxDone,
     ProbeReturns 1 refusing]"

theorem Ejected_backend_gets_no_traffic_witness:
  "let (panicked, p') = HTTPProxy_ServeHTTP \<lparr>z_write = (\<lambda>_ b. b), z_close = (\<lambda>_. [])\<rparr> (\<lambda>h. h) RoundRobin_Next
       (\<lambda>_. Answered 200 Map.empty [''ok''] BodyEOF) (\<lambda>h. h) (sample_request ''h'' ''/'')
       (sample_proxy\<lparr>px_pool := NewPool [0, 1], px_heap := cs_heap (Checker_Run sample_ticks (Checker_start sample_checker two_backends))\<rparr>)
   in panicked \<in> {None, Some AbortHandler, Some InvalidStatusCode} \<and>
     (\<exists>sent. px_sent p' = [] @ sent \<and> 0 \<notin> fst ` set sent)"
proof -
  let ?s = "Checker_start sample_checker two_backends"
  let ?p = "sample_proxy\<lparr>px_pool := NewPool [0, 1], px_heap := cs_heap (Checker_Run sample_ticks ?s)\<rparr>"
  have "0 \<in> set (p_backends (ck_pool sample_checker))"
    "\<forall>q\<in>set (p_backends (ck_pool sample_checker)). q \<noteq> 0 \<longrightarrow> b_ID (two_backends ! q) \<noteq> b_ID (two_backends ! 0)"
    "wf_refs two_backends (p_backends (ck_pool sample_checker))" "1 \<le> h_FailureThreshold (ck_cfg sample_checker)"
    "1 \<le> h_SuccessThreshold (ck_cfg sample_checker)" "GetHealth (two_backends ! 0) \<noteq> HealthDisabled"
    "0 \<le> map_count (ck_failures sample_checker) (b_ID (two_backends ! 0))"
    by (simp_all add: sample_checker_def two_backends_def wf_refs_def NewPool_def sample_defs)
  moreover have "returned_probes 0 sample_ticks ?s = [] @ replicate 3 refusing"
    by (simp add: sample_ticks_def Checker_start_def Checker_tick_def probe_returns_def sample_checker_def Pool_Backends_def
        NewPool_def NewChecker_def split_beta Let_def numeral_3_eq_3)
  moreover have "h_FailureThreshold (ck_cfg sample_checker) \<le> int (length (replicate 3 refusing))"
    "\<forall>net\<in>set (replicate 3 refusing). \<not> probe_result net sample_checker (two_backends ! 0)"
    by (simp_all add: sample_checker_def refusing_def probeTCP_def sample_defs)
  moreover have "px_pool ?p = ck_pool sample_checker" by (simp add: sample_checker_def NewChecker_def)
  moreover have "px_heap ?p = cs_heap (Checker_Run sample_ticks ?s)" by simp
  moreover have "0 \<le> sint (rr_counter (px_selector ?p))" "moves_counts (\<lambda>h. h) (\<lambda>_. 0)"
    by (simp_all add: sample_proxy_def NewRoundRobin_def moves_counts_def)
  ultimately have "let (panicked, p') = HTTPProxy_ServeHTTP \<lparr>z_write = (\<lambda>_ b. b), z_close = (\<lambda>_. [])\<rparr> (\<lambda>h. h) RoundRobin_Next
      (\<lambda>_. Answered 200 Map.empty [''ok''] BodyEOF) (\<lambda>h. h) (sample_request ''h'' ''/'') ?p
    in panicked \<in> {None, Some AbortHandler, Some InvalidStatusCode} \<and>
      (\<exists>sent. px_sent p' = px_sent ?p @ sent \<and> 0 \<notin> fst ` set sent)"
    by (rule Ejected_backend_gets_no_traffic)
  moreover have "px_sent ?p = []" by (simp add: sample_proxy_def)
  ultimately show ?thesis by (simp only: simp_thms)
qed

text \<open>C29: a deleted backend gets no traffic. When a DELETE request names an ID that exactly one
  backend of the pool has, the proxy, on the pool as the admin API left it, forwards no later request to a
  backend with that ID, and panics at most with the abort that ends a broken response or on a status that
  \<open>net/http\<close> refuses.\<close>

theorem Deleted_backend_gets_no_traffic:
  assumes "wf_refs (as_heap s) (p_backends (as_pool s))" and "admin_dispatch env d = Inr (Some RemoveRoute)"
    and "i = TrimPrefix (u_Path (r_URL d)) ''/admin/backends/''" and "count (pool_ids (as_heap s) (as_pool s)) i = 1"
    and "s' = Admin_ServeHTTP env d s" and "px_pool p = as_pool s'" and "px_heap p = as_heap s'"
    and "0 \<le> sint (rr_counter (px_selector p))" and "moves_counts during delta"
  shows "let (panicked, p') = HTTPProxy_ServeHTTP z strip_hop RoundRobin_Next roundTrip during r p
    in panicked \<in> {None, Some AbortHandler, Some InvalidStatusCode} \<and>
      (\<exists>sent. px_sent p' = px_sent p @ sent \<and> (\<forall>q\<in>fst ` set sent. b_ID (px_heap p ! q) \<noteq> i))"
proof -
  have wf: "wf_refs (px_heap p) (p_backends (px_pool p))"
    and bag: "pool_ids (px_heap p) (px_pool p) = pool_ids (as_heap s) (as_pool s) - {#i#}"
    using remove_backend_bag [OF assms(1), of env d] assms(2,3,5-7) by (simp_all add: Admin_ServeHTTP_def)
  have "i \<notin># pool_ids (px_heap p) (px_pool p)" unfolding bag using assms(4) by (simp add: not_in_iff)
  then have gone: "b_ID (px_heap p ! q) \<noteq> i" if "q \<in> set (p_backends (px_pool p))" for q
    using that by (auto simp: pool_ids_def)
  obtain panicked p' sent where "HTTPProxy_ServeHTTP z strip_hop RoundRobin_Next roundTrip during r p = (panicked, p')"
    and "panicked \<in> answer_panics"
    and "px_sent p' = px_sent p @ sent" "\<forall>q\<in>fst ` set sent. q \<in> set (p_backends (px_pool p))"
    using rr.proxy_sends [where p = p and during = during and delta = delta and z = z and strip_hop = strip_hop
        and roundTrip = roundTrip and r = r] wf assms(8,9) by blast
  then show ?thesis using gone by (auto simp: answer_panics_def)
qed

theorem Deleted_backend_gets_no_traffic_witness:
  "let s' = Admin_ServeHTTP sample_env (sample_admin_request ''DELETE'' ''/admin/backends/b1'' [])
         (empty_admin\<lparr>as_heap := two_backends, as_pool := NewPool [0, 1]\<rparr>);
       p = sample_proxy\<lparr>px_pool := as_pool s', px_heap := as_heap s'\<rparr>;
       (panicked, p') = HTTPProxy_ServeHTTP \<lparr>z_write = (\<lambda>_ b. b), z_close = (\<lambda>_. [])\<rparr> (\<lambda>h. h) RoundRobin_Next
         (\<lambda>_. Answered 200 Map.empty [''ok''] BodyEOF) (\<lambda>h. h) (sample_request ''h'' ''/'') p
   in panicked \<in> {None, Some AbortHandler, Some InvalidStatusCode} \<and>
     (\<exists>sent. px_sent p' = px_sent p @ sent \<and> (\<forall>q\<in>fst ` set sent. b_ID (px_heap p ! q) \<noteq> ''b1''))"
  unfolding Let_def
  by (rule Deleted_backend_gets_no_traffic [unfolded Let_def, where s = "empty_admin\<lparr>as_heap := two_backends, as_pool := NewPool [0, 1]\<rparr>"
        and env = sample_env and d = "sample_admin_request ''DELETE'' ''/admin/backends/b1'' []" and delta = "\<lambda>_. 0"])
    (simp_all add: wf_refs_def two_backends_def NewPool_def admin_dispatch_def admin_mux_def under_backends_def sample_env_def
      sample_admin_request_def TrimPrefix_def pool_ids_def sample_backend_def sample_proxy_def NewRoundRobin_def moves_counts_def)

section \<open>Rate limiting in front of a handler\<close>

text \<open>A handler that also notes the requests it gets, and requests served one after the other through a
  limiter whose cleanup runs with \<open>interval\<close> in between.\<close>

definition noting :: "'s handler \<Rightarrow> (request list \<times> 's) handler" where
  "noting next r lsw = (let ((lg, s), w) = lsw; (s, w) = next r (s, w) in ((lg @ [r], s), w))"

fun limited_run ::
  "codec \<Rightarrow> (float64 \<Rightarrow> int64) \<Rightarrow> duration \<Rightarrow> 's handler \<Rightarrow> request limiter_event list \<Rightarrow> rate_limiter \<times> 's \<Rightarrow> rate_limiter \<times> 's" where
  "limited_run z oor interval next [] st = st"
| "limited_run z oor interval next (Arrives now r # evs) (rl, s) =
     (let (rl, s, w) = rl_Middleware z oor now next r (rl, s, new_writer) in limited_run z oor interval next evs (rl, s))"
| "limited_run z oor interval next (CleansUp now # evs) (rl, s) =
     limited_run z oor interval next evs (StartCleanup interval [CleanupTick now] rl, s)"

text \<open>How often the cleanup evicts the bucket of an address.\<close>

definition evictions :: "(float64 \<Rightarrow> int64) \<Rightarrow> duration \<Rightarrow> string \<Rightarrow> request limiter_event list \<Rightarrow> rate_limiter \<Rightarrow> nat" where
  "evictions oor interval ip evs rl = snd (traffic oor interval ip (map (map_limiter_event mw_clientIP) evs) rl)"

lemma limited_run_admitted:
  "length (filter (\<lambda>r. mw_clientIP r = ip) (fst (snd (limited_run z oor interval (noting next) evs (rl, lg, s))))) =
     length (filter (\<lambda>r. mw_clientIP r = ip) lg) + fst (traffic oor interval ip (map (map_limiter_event mw_clientIP) evs) rl)"
proof (induction evs arbitrary: rl lg s)
  case (Cons ev evs)
  show ?case
  proof (cases ev)
    case (Arrives now r)
    obtain ok rl' where al: "rl_Allow oor now rl (mw_clientIP r) = (ok, rl')" by fastforce
    obtain s' w' where nx: "next r (s, new_writer) = (s', w')" by fastforce
    show ?thesis using Cons.IH [of rl'] Arrives al nx
      by (cases ok) (simp_all add: rl_Middleware_def noting_def Let_def split_beta)
  next
    case (CleansUp now)
    then show ?thesis using Cons.IH by (simp add: Let_def split_beta)
  qed
qed simp

lemma traffic_evictions: "snd (traffic oor interval ip evs rl) \<le> length (filter (\<lambda>ev. \<exists>now. ev = CleansUp now) evs)"
  by (induction oor interval ip evs rl rule: traffic.induct) (auto simp: Let_def split: prod.splits)

text \<open>C11: the limiter protects the handler behind it. Of the requests of a client address, served one after
  the other at times between \<open>t0\<close> and \<open>t1\<close> in order, among those of any other clients and with the cleanup
  running at any times in between, at most the burst plus the tokens that accrue from \<open>t0\<close> to \<open>t1\<close> reach the
  handler behind a new limiter, and another burst for every time the cleanup evicted the bucket of that address;
  which needs a cleanup, and happens at most once per interval.\<close>

theorem Limited_handler_load:
  assumes "0 \<le> rate" and "0 \<le> sint burst" and "sint burst \<le> 2 ^ 62"
    and "sorted (map event_time evs)" and "\<forall>ev\<in>set evs. t0 \<le> event_time ev \<and> event_time ev \<le> t1" and "t0 \<le> t1"
    and "of_int (t1 - t0) / of_int second * rate * (1 + 1 / 2 ^ 51) \<le> 2 ^ 61"
    and "n = evictions oor interval ip evs (NewRateLimiter rate burst)"
  shows "of_nat (length (filter (\<lambda>r. mw_clientIP r = ip)
      (fst (snd (limited_run z oor interval (noting next) evs (NewRateLimiter rate burst, [], s)))))) \<le>
      of_nat (1 + n) * of_int (sint burst) + of_int (t1 - t0) / of_int second * rate * (1 + 1 / 2 ^ 51) \<and>
    n \<le> length (filter (\<lambda>ev. \<exists>now. ev = CleansUp now) evs) \<and> interval * int n \<le> t1 - t0"
proof -
  let ?evs = "map (map_limiter_event mw_clientIP) evs" and ?rl = "NewRateLimiter rate burst"
  have tm: "event_time (map_limiter_event mw_clientIP ev) = event_time ev" for ev by (cases ev) simp_all
  have cl: "(\<exists>now. map_limiter_event mw_clientIP ev = CleansUp now) \<longleftrightarrow> (\<exists>now. ev = CleansUp now)" for ev by (cases ev) simp_all
  have b: "bucket_at ?rl ip t0 = \<lparr>bk_tokens = burst, bk_lastRefill = t0\<rparr>" by (simp add: bucket_at_def NewRateLimiter_def)
  have "sorted (t0 # map event_time ?evs)" "\<forall>ev\<in>set ?evs. event_time ev \<le> t1" using assms(4,5) by (simp_all add: tm comp_def)
  moreover have "rl_ok ?rl ip t0" using assms(1-3) b by (simp add: rl_ok_def bk_inv_def) (simp add: NewRateLimiter_def)
  ultimately have "of_nat (fst (traffic oor interval ip ?evs ?rl)) \<le> of_nat n * of_int (sint (rl_burst ?rl)) + held ?rl t1 (bucket_at ?rl ip t0) \<and>
    interval * int n \<le> t1 - bk_lastRefill (bucket_at ?rl ip t0)"
    using assms(6,7) b by (intro traffic_bound) (simp_all add: assms(8) evictions_def accrual_def NewRateLimiter_def)
  moreover have "n \<le> length (filter (\<lambda>ev. \<exists>now. ev = CleansUp now) evs)"
    using traffic_evictions [of oor interval ip ?evs ?rl] by (simp add: assms(8) evictions_def filter_map comp_def cl)
  moreover have "rl_burst ?rl = burst" "held ?rl t1 (bucket_at ?rl ip t0) = of_int (sint burst) + accrual rate (t1 - t0)"
    by (simp_all add: b held_def) (simp_all add: NewRateLimiter_def)
  ultimately show ?thesis unfolding limited_run_admitted accrual_def [symmetric] by (simp add: b distrib_right)
qed

text \<open>A client with a bucket of one token comes back after the cleanup has evicted it.\<close>

definition sample_traffic :: "request limiter_event list" where
  "sample_traffic = [Arrives 0 (sample_request ''h'' ''/''), Arrives 0 (sample_request ''h'' ''/''), CleansUp (2 * second),
     Arrives (2 * second) (sample_request ''h'' ''/'')]"

theorem Limited_handler_load_witness:
  "\<exists>n. n = evictions (\<lambda>_. 0) second ''10.0.0.1'' sample_traffic (NewRateLimiter 1 1) \<and>
    of_nat (length (filter (\<lambda>r. mw_clientIP r = ''10.0.0.1'')
      (fst (snd (limited_run plain_codec (\<lambda>_. 0) second (noting (acting plain_codec (\<lambda>_. [HWrite ''ok''])))
        sample_traffic (NewRateLimiter 1 1, [], ())))))) \<le>
      (of_nat (1 + n) * of_int (sint (1 :: int64)) + of_int (2 * second - 0) / of_int second * 1 * (1 + 1 / 2 ^ 51) :: rat) \<and>
    n \<le> length (filter (\<lambda>ev. \<exists>now. ev = CleansUp now) sample_traffic) \<and> second * int n \<le> 2 * second - 0"
  using Limited_handler_load [of 1 1 sample_traffic 0 "2 * second" _ "\<lambda>_. 0" second "''10.0.0.1''" plain_codec
      "acting plain_codec (\<lambda>_. [HWrite ''ok''])" "()", OF _ _ _ _ _ _ _ refl]
  by (intro exI conjI [OF refl]) (simp add: sample_traffic_def)

section \<open>Configured selectors\<close>

lemma algorithm_names_NewSelector: "alg \<in> set algorithm_names \<longleftrightarrow> (\<exists>sel. NewSelector seed alg = Inr sel)"
  by (auto simp: algorithm_names_def NewSelector_def)

text \<open>C2: every configured pool can be served with its algorithm. The names that the validation of the
  configuration accepts are exactly those for which the factory makes a selector. When the loaded
  configuration passed validation and addresses parse, then for every one of its pools the backends
  are built, a selector is made for its algorithm, and the first request gets a healthy backend with
  an ID of that pool.\<close>

theorem Configured_pools_are_servable:
  assumes load: "Load readInConfig unmarshal v_Struct path = Inr cfg"
    and validator: "\<And>c. v_Struct c = [] \<Longrightarrow> tags_hold is_url c"
    and parses: "\<And>a. is_url a \<Longrightarrow> \<exists>u. url_Parse a = Inr u"
    and "pc \<in> set (c_Pools cfg)" and "draws_in_range Intn"
  shows "(alg \<in> set algorithm_names \<longleftrightarrow> (\<exists>sel. NewSelector seed alg = Inr sel)) \<and>
    (\<exists>h bs sel b. build_backends url_Parse (pc_Backends pc) ([], []) = Inr (h, bs) \<and>
       NewSelector seed (pc_Algorithm pc) = Inr sel \<and>
       fst (Selector_Next Intn h r (Pool_Healthy h (NewPool bs)) sel) = picked b \<and>
       IsHealthy (h ! b) \<and> b_ID (h ! b) \<in> bc_ID ` set (pc_Backends pc))"
proof -
  have pt: "pool_tags is_url pc"
    using validator [OF Load_valid [OF load]] assms(4) by (auto simp: tags_hold_def list_all_iff)
  then have "\<forall>bc\<in>set (pc_Backends pc). \<exists>u. url_Parse (bc_Addr bc) = Inr u"
    using parses by (auto simp: pool_tags_def backend_tags_def list_all_iff)
  then obtain h bs where bb: "build_backends url_Parse (pc_Backends pc) ([], []) = Inr (h, bs)"
    using build_backends_total by fastforce
  then have h: "bs = [0..<length h]" "map b_ID h = map bc_ID (pc_Backends pc)"
    "\<forall>b\<in>set h. IsHealthy b \<and> 1 \<le> b_Weight b \<and> b_activeConns b = 0"
    using build_backends_ok [of url_Parse "pc_Backends pc" "[]" id h bs] by auto
  obtain sel where sel: "NewSelector seed (pc_Algorithm pc) = Inr sel"
    using pt algorithm_names_NewSelector [of "pc_Algorithm pc" seed] by (auto simp: pool_tags_def)
  have pool: "Pool_Healthy h (NewPool bs) = [0..<length h]"
    using h by (intro all_healthy_pool) (simp_all add: NewPool_def)
  have "h \<noteq> []" using h(2) pt by (auto simp: pool_tags_def)
  then obtain b where b: "b < length h" "fst (Selector_Next Intn h r [0..<length h] sel) = picked b"
    using NewSelector_first_pick [OF sel assms(5), of "[0..<length h]" h r] h(3) by (auto simp: backend_defs)
  have "b_ID (h ! b) \<in> set (map b_ID h)" using b(1) by simp
  then have "b_ID (h ! b) \<in> bc_ID ` set (pc_Backends pc)" by (simp only: h(2) set_map)
  moreover have "IsHealthy (h ! b)" using h(3) b(1) by simp
  ultimately show ?thesis using algorithm_names_NewSelector [of alg seed] bb sel b(2) pool by auto
qed

theorem Configured_pools_are_servable_witness:
  "\<exists>h bs sel b. build_backends parse_any (pc_Backends (hd (c_Pools (sample_config ''consistent_hash'')))) ([], []) = Inr (h, bs) \<and>
     NewSelector (0 :: nat) ''consistent_hash'' = Inr sel \<and>
     fst (Selector_Next (\<lambda>n g. (g mod n, Suc g)) h (sample_request ''h'' ''/'') (Pool_Healthy h (NewPool bs)) sel) = picked b"
proof -
  let ?cfg = "sample_config ''consistent_hash''"
  let ?v = "\<lambda>c. if tags_hold (\<lambda>_. True) c then [] else [(''Config'', ''invalid'')]"
  have "tags_hold (\<lambda>_. True) ?cfg"
    by (simp add: tags_hold_def sample_config_def pool_tags_def backend_tags_def health_tags_def algorithm_names_def)
  then have load: "Load (\<lambda>_ _. Inr ()) (\<lambda>_. Inr ?cfg) ?v ''config.yaml'' = Inr ?cfg"
    by (simp add: Load_def validate_def)
  have v: "tags_hold (\<lambda>_. True) c" if "?v c = []" for c using that by (simp split: if_splits)
  have u: "\<exists>u. parse_any a = Inr u" for a by (simp add: parse_any_def)
  have pc: "hd (c_Pools ?cfg) \<in> set (c_Pools ?cfg)" and alg: "pc_Algorithm (hd (c_Pools ?cfg)) = ''consistent_hash''"
    by (simp_all add: sample_config_def)
  have g: "draws_in_range (\<lambda>n g. (g mod n, Suc g))" by (simp add: draws_in_range_def)
  show ?thesis
    using Configured_pools_are_servable [where url_Parse = parse_any and is_url = "\<lambda>_. True" and seed = 0 and alg = "''p2c''"
        and r = "sample_request ''h'' ''/''", OF load v u pc g] unfolding alg by blast
qed

end
